(* ===== verification/Prelude.thy ===== *)
theory Prelude
  imports Main "HOL-Library.Word" "HOL-Library.List_Lexorder" "HOL-Library.Sublist"
begin

unbundle bit_operations_syntax

section \<open>Shared types, collections and list lemmas\<close>

text \<open>
  What every component of the development uses: the machine types of the C++ sources, the lemma
  collections, the byte codecs that the on-disk and on-wire formats are made of, and the model of
  \<open>std::map\<close> (a strictly ordered association list, iterated in key order).
\<close>

type_synonym byte = "8 word"
type_synonym bytes = "8 word list"
type_synonym u16 = "16 word"
type_synonym u32 = "32 word"
type_synonym u64 = "64 word"

named_theorems codec_simps \<open>length and round-trip facts of the byte codecs\<close>
named_theorems stdmap_simps \<open>lookup and iteration facts of the ordered map\<close>

subsection \<open>Lists and 32-bit casts\<close>

lemma drop_exact: "n = length xs \<Longrightarrow> drop n (xs @ ys) = ys"
  by simp

lemma unat_u32_of_nat: "n < 2 ^ 32 \<Longrightarrow> unat (of_nat n :: u32) = n"
  by (simp add: unsigned_of_nat take_bit_nat_eq_self)

end
