(* ===== verification/ByteCodec.thy ===== *)
theory ByteCodec
  imports Prelude
begin

unbundle bit_operations_syntax

section \<open>Byte codecs and the CRC of the log formats\<close>

text \<open>
  The integer encoders the C++ sources repeat in each translation unit, and the two CRC-32
  routines: the bit-at-a-time one of the ordered log store and the table-driven one of the two
  write-ahead logs. The lemmas show the round trips, that big-endian encoding is monotone in the
  lexicographic order of keys, and that the two CRC routines compute the same function.
\<close>

subsection \<open>Definitions\<close>

definition PutU32 :: "u32 \<Rightarrow> bytes" where
  "PutU32 v = map (\<lambda>i. ucast (drop_bit (8 * i) v AND 0xFF)) [0..<4]"

definition GetU32 :: "bytes \<Rightarrow> u32" where
  "GetU32 p = ucast (p ! 0) OR push_bit 8 (ucast (p ! 1)) OR push_bit 16 (ucast (p ! 2)) OR
     push_bit 24 (ucast (p ! 3))"

definition PutU64 :: "u64 \<Rightarrow> bytes" where
  "PutU64 v = map (\<lambda>i. ucast (drop_bit (i * 8) v)) [0..<8]"

definition GetU64 :: "bytes \<Rightarrow> u64" where
  "GetU64 p = foldl (\<lambda>v i. v OR push_bit (i * 8) (ucast (p ! i))) 0 [0..<8]"

definition PutU32BE :: "u32 \<Rightarrow> bytes" where
  "PutU32BE v = map (\<lambda>i. ucast (drop_bit (8 * i) v AND 0xFF)) (rev [0..<4])"

definition PutU64BE :: "u64 \<Rightarrow> bytes" where
  "PutU64BE v = map (\<lambda>i. ucast (drop_bit (8 * i) v AND 0xFF)) (rev [0..<8])"

definition GetU64BE :: "bytes \<Rightarrow> u64" where
  "GetU64BE s = foldl (\<lambda>v c. push_bit 8 v OR ucast c) 0 s"

text \<open>The inner loop of both CRC routines, one bit: \<open>c = (c >> 1) ^ (0xEDB88320u & -(c & 1))\<close>.\<close>

definition crc_bit :: "u32 \<Rightarrow> u32" where
  "crc_bit c = drop_bit 1 c XOR (0xEDB88320 AND (0 - (c AND 1)))"

definition crc_byte :: "u32 \<Rightarrow> byte \<Rightarrow> u32" where
  "crc_byte c b = (crc_bit ^^ 8) (c XOR ucast b)"

definition Crc32 :: "bytes \<Rightarrow> u32" where
  "Crc32 p = NOT (foldl crc_byte 0xFFFFFFFF p)"

definition crc_table :: "u32 list" where
  "crc_table = map (\<lambda>i. (crc_bit ^^ 8) (of_nat i)) [0..<256]"

definition Crc32_tab :: "bytes \<Rightarrow> u32" where
  "Crc32_tab p =
     foldl (\<lambda>c b. crc_table ! unat ((c XOR ucast b) AND 0xFF) XOR drop_bit 8 c) 0xFFFFFFFF p
       XOR 0xFFFFFFFF"

text \<open>The general big-endian digits that the encoders above are instances of.\<close>

fun put_be :: "nat \<Rightarrow> 'a::len word \<Rightarrow> bytes" where
  "put_be 0 v = []"
| "put_be (Suc n) v = ucast (drop_bit (8 * n) v) # put_be n v"

subsection \<open>Little-endian round trips\<close>

lemma mask_255: "(255 :: 'a::len word) = mask 8"
  by (simp add: mask_eq_exp_minus_1)

lemma ucast_and_255 [simp]: "(ucast (v AND 0xFF :: 'a::len word) :: byte) = ucast v"
  unfolding mask_255
  by (rule bit_word_eqI) (auto simp: bit_simps dest: bit_imp_le_length)

lemma PutU32_bytes: "PutU32 v = [ucast v, ucast (drop_bit 8 v), ucast (drop_bit 16 v),
    ucast (drop_bit 24 v)]"
  by (simp add: PutU32_def upt_conv_Cons)

lemma length_PutU32 [simp, codec_simps]: "length (PutU32 v) = 4"
  by (simp add: PutU32_def)

lemma GetU32_PutU32 [simp, codec_simps]: "GetU32 (PutU32 v @ r) = v"
proof (rule bit_word_eqI)
  fix n assume "n < LENGTH(32)"
  then consider "n < 8" | "8 \<le> n" "n < 16" | "16 \<le> n" "n < 24" | "24 \<le> n" "n < 32"
    by (simp, linarith)
  then show "bit (GetU32 (PutU32 v @ r)) n = bit v n"
    by cases (auto simp: PutU32_bytes GetU32_def bit_simps)
qed

lemma GetU32_PutU32_only [simp, codec_simps]: "GetU32 (PutU32 v) = v"
  using GetU32_PutU32 [of v "[]"] by simp

lemma GetU32_append: "4 \<le> length c \<Longrightarrow> GetU32 (c @ d) = GetU32 c"
  by (auto simp: GetU32_def nth_append)

lemma length_PutU64 [simp, codec_simps]: "length (PutU64 v) = 8"
  by (simp add: PutU64_def)

lemma GetU64_fold:
  assumes "n \<le> 8"
  shows "foldl (\<lambda>w i. w OR push_bit (i * 8) (ucast ((PutU64 v @ r) ! i))) 0 [0..<n] =
    take_bit (8 * n) v"
  using assms
proof (induction n)
  case (Suc n)
  then have "(PutU64 v @ r) ! n = ucast (drop_bit (n * 8) v)"
    by (simp add: nth_append PutU64_def)
  moreover have "take_bit (8 * n) v OR push_bit (n * 8) (ucast (ucast (drop_bit (n * 8) v) :: byte)) =
      take_bit (8 * Suc n) v"
    by (rule bit_word_eqI) (auto simp: bit_simps not_less)
  ultimately show ?case using Suc by simp
qed simp

lemma GetU64_PutU64 [simp, codec_simps]: "GetU64 (PutU64 v @ r) = v"
  using GetU64_fold [of 8 v r] by (simp add: GetU64_def take_bit_word_eq_self)

subsection \<open>Big-endian round trip and order\<close>

lemma PutU64BE_put_be: "PutU64BE v = put_be 8 v"
  by (simp add: PutU64BE_def upt_conv_Cons numeral_eq_Suc)

lemma PutU32BE_put_be: "PutU32BE v = put_be 4 v"
  by (simp add: PutU32BE_def upt_conv_Cons numeral_eq_Suc)

lemma length_put_be [simp]: "length (put_be n v) = n"
  by (induction n) auto

lemma length_PutU64BE [simp, codec_simps]: "length (PutU64BE v) = 8"
  by (simp add: PutU64BE_put_be)

lemma length_PutU32BE [simp, codec_simps]: "length (PutU32BE v) = 4"
  by (simp add: PutU32BE_put_be)

lemma foldl_put_be:
  "foldl (\<lambda>v c. push_bit 8 v OR ucast c) acc (put_be n v) =
     push_bit (8 * n) acc OR take_bit (8 * n) (v :: 'a::len word)"
proof (induction n arbitrary: acc)
  case (Suc n)
  have "push_bit (8 * n) (push_bit 8 acc OR ucast (ucast (drop_bit (8 * n) v) :: byte)) OR
      take_bit (8 * n) v = push_bit (8 * Suc n) acc OR take_bit (8 * Suc n) v"
    by (rule bit_word_eqI) (auto simp: bit_simps add.commute not_less)
  then show ?case by (simp only: put_be.simps foldl_Cons Suc.IH)
qed simp

lemma GetU64BE_PutU64BE [simp, codec_simps]: "GetU64BE (PutU64BE v) = v"
  by (simp add: GetU64BE_def PutU64BE_put_be foldl_put_be take_bit_word_eq_self)

lemma unat_be_digit: "unat (ucast (drop_bit (8 * n) v) :: byte) = unat v div 2 ^ (8 * n) mod 256"
  by (simp only: unsigned_ucast_eq unsigned_drop_bit_eq) (simp add: drop_bit_eq_div take_bit_eq_mod)

lemma mod_digit_split: "(a::nat) mod 2 ^ (8 * Suc n) = a div 2 ^ (8 * n) mod 256 * 2 ^ (8 * n) + a mod 2 ^ (8 * n)"
proof -
  have "a mod (2 ^ (8 * n) * 256) = 2 ^ (8 * n) * (a div 2 ^ (8 * n) mod 256) + a mod 2 ^ (8 * n)"
    by (rule mod_mult2_eq)
  then show ?thesis by (simp add: power_add mult.commute)
qed

lemma digit_compare:
  assumes "x < M" "y < (M::nat)"
  shows "a * M + x < b * M + y \<longleftrightarrow> a < b \<or> a = b \<and> x < y"
proof (cases a b rule: linorder_cases)
  case less
  then have "Suc a * M \<le> b * M" by (intro mult_le_mono) auto
  with assms less show ?thesis by simp
next
  case greater
  then have "Suc b * M \<le> a * M" by (intro mult_le_mono) auto
  with assms greater show ?thesis by simp
qed simp

lemma put_be_less: "put_be n v < put_be n w \<longleftrightarrow> unat v mod 2 ^ (8 * n) < unat w mod 2 ^ (8 * n)"
proof (induction n)
  case (Suc n)
  show ?case
    by (simp only: mod_digit_split put_be.simps Cons_less_Cons Suc.IH word_less_nat_alt unat_be_digit
        digit_compare [OF mod_less_divisor mod_less_divisor] zero_less_power zero_less_numeral
        word_unat_eq_iff)
qed simp

lemma PutU64BE_less_iff [simp]: "PutU64BE v < PutU64BE w \<longleftrightarrow> v < w"
proof -
  have "unat v < 2 ^ 64" "unat w < 2 ^ 64" by (use unsigned_less [of v] unsigned_less [of w] in simp_all)
  then show ?thesis by (simp add: PutU64BE_put_be put_be_less word_less_nat_alt)
qed

lemma PutU64BE_inject [simp]: "PutU64BE v = PutU64BE w \<longleftrightarrow> v = w"
  by (metis GetU64BE_PutU64BE)

lemma PutU32BE_inject [simp]: "PutU32BE v = PutU32BE w \<longleftrightarrow> v = w"
proof -
  have "foldl (\<lambda>v c. push_bit 8 v OR ucast c) (0::u32) (PutU32BE v) = v" for v :: u32
    by (simp add: PutU32BE_put_be foldl_put_be take_bit_word_eq_self)
  then show ?thesis by metis
qed

subsection \<open>The table-driven CRC computes the bit-at-a-time CRC\<close>

lemma and_1_word: "(c::u32) AND 1 = (if bit c 0 then 1 else 0)"
  by (rule bit_word_eqI) (auto simp: bit_simps intro: gr0I)

lemma crc_bit_alt: "crc_bit c = drop_bit 1 c XOR (if bit c 0 then 0xEDB88320 else 0)"
  by (simp add: crc_bit_def and_1_word)

lemma crc_bit_xor: "crc_bit (a XOR b) = crc_bit a XOR crc_bit b"
  unfolding crc_bit_alt
  by (rule bit_word_eqI) (auto simp: bit_simps)

lemma crc_bits_xor: "(crc_bit ^^ n) (a XOR b) = (crc_bit ^^ n) a XOR (crc_bit ^^ n) b"
  by (induction n) (simp_all add: crc_bit_xor)

lemma crc_bits_high: "(crc_bit ^^ n) (push_bit n (drop_bit n c)) = drop_bit n c"
proof (induction n arbitrary: c)
  case (Suc n)
  have "crc_bit (push_bit (Suc n) (drop_bit (Suc n) c)) = push_bit n (drop_bit n (drop_bit 1 c))"
    unfolding crc_bit_alt
    by (rule bit_word_eqI) (auto simp: bit_simps simp del: push_bit_Suc dest: bit_imp_le_length)
  then have "(crc_bit ^^ Suc n) (push_bit (Suc n) (drop_bit (Suc n) c)) = drop_bit n (drop_bit 1 c)"
    by (simp only: funpow_Suc_right o_apply Suc.IH)
  then show ?case by simp
qed simp

lemma crc_table_nth: "crc_table ! unat (c AND 0xFF) = (crc_bit ^^ 8) (c AND 0xFF)"
proof -
  have "c AND 0xFF \<le> 0xFF" by (rule word_and_le1)
  then have "unat (c AND 0xFF) < 256" by (simp add: word_le_nat_alt)
  then show ?thesis by (simp add: crc_table_def)
qed

lemma crc_table_step: "crc_table ! unat (c AND 0xFF) XOR drop_bit 8 c = (crc_bit ^^ 8) c"
proof -
  have "c = (c AND 0xFF) XOR push_bit 8 (drop_bit 8 c)"
    unfolding mask_255 by (rule bit_word_eqI) (auto simp: bit_simps)
  then have "(crc_bit ^^ 8) c = (crc_bit ^^ 8) (c AND 0xFF) XOR (crc_bit ^^ 8) (push_bit 8 (drop_bit 8 c))"
    by (metis crc_bits_xor)
  then show ?thesis by (simp only: crc_table_nth crc_bits_high)
qed

lemma drop_bit_8_byte: "drop_bit 8 (ucast (b::byte)) = (0 :: u32)"
  by (rule bit_word_eqI) (auto simp: bit_simps dest: bit_imp_le_length)

lemma Crc32_tab_fold:
  "foldl (\<lambda>c b. crc_table ! unat ((c XOR ucast b) AND 0xFF) XOR drop_bit 8 c) c p = foldl crc_byte c p"
proof (induction p arbitrary: c)
  case (Cons b p)
  have "crc_table ! unat ((c XOR ucast b) AND 0xFF) XOR drop_bit 8 c = crc_byte c b"
    using crc_table_step [of "c XOR ucast b"] by (simp add: crc_byte_def drop_bit_8_byte)
  with Cons.IH show ?case by simp
qed simp

lemma Crc32_tab_Crc32: "Crc32_tab p = Crc32 p"
proof -
  have ones: "(0xFFFFFFFF :: u32) = - 1" by simp
  show ?thesis by (simp only: Crc32_tab_def Crc32_def Crc32_tab_fold ones bit.xor_one_right)
qed

end
