(* ===== verification/StdMap.thy ===== *)
theory StdMap
  imports Prelude
begin

section \<open>The ordered map of the standard library\<close>

text \<open>
  \<open>std::map\<close> as the sources use it: the entries in strictly ascending key order, an iterator as
  a position in that list (\<open>end()\<close> is the length). \<open>map_find\<close>, \<open>map_put\<close> and \<open>map_erase\<close> are
  \<open>find\<close>, insertion or assignment, and \<open>erase\<close>; \<open>lower_bound\<close> and \<open>upper_bound\<close> are the two
  bound searches. String keys are compared as \<open>std::string\<close> compares them: lexicographically over
  unsigned bytes.
\<close>

type_synonym ('k, 'v) stdmap = "('k \<times> 'v) list"

definition map_ok :: "('k::linorder, 'v) stdmap \<Rightarrow> bool" where
  "map_ok m \<longleftrightarrow> sorted_wrt (<) (map fst m)"

abbreviation map_find :: "('k, 'v) stdmap \<Rightarrow> 'k \<Rightarrow> 'v option" where
  "map_find \<equiv> map_of"

fun map_put :: "'k::linorder \<Rightarrow> 'v \<Rightarrow> ('k, 'v) stdmap \<Rightarrow> ('k, 'v) stdmap" where
  "map_put k v [] = [(k, v)]"
| "map_put k v ((k', v') # m) =
     (if k = k' then (k, v) # m
      else if k < k' then (k, v) # (k', v') # m
      else (k', v') # map_put k v m)"

definition map_erase :: "'k \<Rightarrow> ('k, 'v) stdmap \<Rightarrow> ('k, 'v) stdmap" where
  "map_erase k m = filter (\<lambda>e. fst e \<noteq> k) m"

definition lower_bound :: "'k::linorder \<Rightarrow> ('k, 'v) stdmap \<Rightarrow> nat" where
  "lower_bound k m = length (takeWhile (\<lambda>e. fst e < k) m)"

definition upper_bound :: "'k::linorder \<Rightarrow> ('k, 'v) stdmap \<Rightarrow> nat" where
  "upper_bound k m = length (takeWhile (\<lambda>e. fst e \<le> k) m)"

subsection \<open>Order invariant\<close>

lemma map_ok_Nil [simp]: "map_ok []"
  by (simp add: map_ok_def)

lemma map_ok_Cons: "map_ok (e # m) \<longleftrightarrow> (\<forall>x \<in> set m. fst e < fst x) \<and> map_ok m"
  by (auto simp: map_ok_def)

lemma map_ok_distinct: "map_ok m \<Longrightarrow> distinct (map fst m)"
  by (simp add: map_ok_def strict_sorted_iff)

lemma map_ok_filter: "map_ok m \<Longrightarrow> map_ok (filter P m)"
  by (induction m) (auto simp: map_ok_Cons)

lemma fst_set_map_put: "fst ` set (map_put k v m) = insert k (fst ` set m)"
  by (induction m rule: map_put.induct) auto

lemma map_ok_put [simp]: "map_ok m \<Longrightarrow> map_ok (map_put k v m)"
proof (induction m)
  case (Cons e m)
  obtain k' v' where e: "e = (k', v')" by (cases e)
  from Cons.prems have lt: "\<And>x. x \<in> set m \<Longrightarrow> k' < fst x" and ok: "map_ok m"
    by (auto simp: map_ok_Cons e)
  show ?case
  proof (cases "k' < k")
    case True
    have "\<forall>x \<in> set (map_put k v m). k' < fst x"
      using fst_set_map_put [of k v m] lt True by (metis (mono_tags) imageE imageI insert_iff)
    with True Cons.IH [OF ok] show ?thesis by (auto simp: e map_ok_Cons)
  next
    case False
    with lt ok show ?thesis by (fastforce simp: e map_ok_Cons)
  qed
qed (simp add: map_ok_Cons)

lemma map_ok_erase [simp]: "map_ok m \<Longrightarrow> map_ok (map_erase k m)"
  by (simp add: map_erase_def map_ok_filter)

subsection \<open>Lookup after update\<close>

lemma map_find_put [simp, stdmap_simps]: "map_find (map_put k v m) = (map_find m)(k \<mapsto> v)"
  by (induction k v m rule: map_put.induct) auto

lemma map_find_erase [simp, stdmap_simps]: "map_find (map_erase k m) = (map_find m)(k := None)"
proof (rule ext)
  fix x show "map_find (map_erase k m) x = ((map_find m)(k := None)) x"
    by (induction m) (auto simp: map_erase_def)
qed

lemma map_ok_find_iff: "map_ok m \<Longrightarrow> map_find m k = Some v \<longleftrightarrow> (k, v) \<in> set m"
  by (simp add: map_ok_distinct)

lemma map_find_filter:
  "map_ok m \<Longrightarrow> map_find (filter (\<lambda>e. P (fst e)) m) k = (if P k then map_find m k else None)"
  by (induction m) (auto simp: map_ok_Cons)

lemma map_ok_ext:
  assumes "map_ok m" "map_ok m'" "map_find m = map_find m'"
  shows "m = m'"
proof -
  have "set m = set m'"
    using assms by (metis map_ok_find_iff pred_equals_eq2 subrelI subset_antisym)
  moreover have "sorted_wrt (\<lambda>a b. fst a < fst b) m" "sorted_wrt (\<lambda>a b. fst a < fst b) m'"
    using assms(1,2) by (simp_all add: map_ok_def sorted_wrt_map)
  ultimately show ?thesis
    by (metis (no_types, lifting) assms(1,2) distinct_map map_ok_def map_ok_distinct map_sorted_distinct_set_unique
        strict_sorted_iff inj_on_subset sup_ge1 Un_absorb)
qed

lemma map_find_above: "map_find m k = Some w \<Longrightarrow> \<forall>x \<in> set m. a < fst x \<Longrightarrow> a < k"
  by (force dest: map_of_SomeD)

lemma map_erase_above: "\<forall>x \<in> set m. k < fst x \<Longrightarrow> map_erase k m = m" for k :: "'k::linorder"
  by (auto simp: map_erase_def filter_id_conv)

lemma map_put_sum:
  assumes "map_ok m"
  shows "sum_list (map f (map_put k v m)) + (case map_find m k of None \<Rightarrow> 0 | Some w \<Rightarrow> f (k, w)) =
    sum_list (map f m) + (f (k, v) :: nat)"
  using assms
proof (induction m)
  case (Cons e m)
  then show ?case
    by (cases e) (auto simp: map_ok_Cons split: option.splits dest: map_find_above)
qed simp

lemma map_erase_sum:
  assumes "map_ok m"
  shows "sum_list (map f (map_erase k m)) + (case map_find m k of None \<Rightarrow> 0 | Some w \<Rightarrow> f (k, w)) =
    (sum_list (map f m) :: nat)"
  using assms
proof (induction m)
  case (Cons e m)
  then have "fst e = k \<Longrightarrow> map_erase k m = m" by (simp add: map_ok_Cons map_erase_above)
  with Cons show ?case
    by (cases e) (auto simp: map_ok_Cons map_erase_def)
qed (simp add: map_erase_def)

subsection \<open>Bound searches split the entries\<close>

lemma takeWhile_sorted_filter:
  assumes "map_ok m" and "\<And>a b. a < b \<Longrightarrow> P b \<Longrightarrow> P a"
  shows "takeWhile (\<lambda>e. P (fst e)) m = filter (\<lambda>e. P (fst e)) m"
  using assms(1)
proof (induction m)
  case (Cons e m)
  then show ?case using assms(2) by (auto simp: map_ok_Cons intro!: filter_False [symmetric])
qed simp

lemma dropWhile_sorted_filter:
  assumes "map_ok m" and "\<And>a b. a < b \<Longrightarrow> P b \<Longrightarrow> P a"
  shows "dropWhile (\<lambda>e. P (fst e)) m = filter (\<lambda>e. \<not> P (fst e)) m"
  using assms(1)
proof (induction m)
  case (Cons e m)
  show ?case
  proof (cases "P (fst e)")
    case False
    then have "\<forall>x \<in> set m. \<not> P (fst x)" using Cons.prems assms(2) by (auto simp: map_ok_Cons)
    with False show ?thesis by (simp add: filter_id_conv)
  qed (use Cons in \<open>simp add: map_ok_Cons\<close>)
qed simp

lemma take_lower_bound [stdmap_simps]: "map_ok m \<Longrightarrow> take (lower_bound k m) m = filter (\<lambda>e. fst e < k) m"
  unfolding lower_bound_def takeWhile_eq_take [symmetric]
  by (rule takeWhile_sorted_filter) auto

lemma drop_lower_bound [stdmap_simps]: "map_ok m \<Longrightarrow> drop (lower_bound k m) m = filter (\<lambda>e. k \<le> fst e) m"
  by (simp add: lower_bound_def dropWhile_eq_drop [symmetric] not_less
      dropWhile_sorted_filter [where P = "\<lambda>x. x < k"])

lemma drop_upper_bound [stdmap_simps]: "map_ok m \<Longrightarrow> drop (upper_bound k m) m = filter (\<lambda>e. k < fst e) m"
  by (simp add: upper_bound_def dropWhile_eq_drop [symmetric] not_le
      dropWhile_sorted_filter [where P = "\<lambda>x. x \<le> k"])

subsection \<open>Keys with a common prefix are adjacent\<close>

lemma prefix_le: "prefix p k \<Longrightarrow> p \<le> (k :: 'a::linorder list)"
  by (induction p arbitrary: k) (auto elim: prefixE)

lemma prefix_between:
  "p \<le> k \<Longrightarrow> k \<le> k' \<Longrightarrow> prefix p k' \<Longrightarrow> prefix p (k :: 'a::linorder list)"
proof (induction p arbitrary: k k')
  case (Cons x p)
  then show ?case by (cases k; cases k') auto
qed simp

end
