(* ===== verification/PosixFile.thy ===== *)
theory PosixFile
  imports Prelude
begin

section \<open>Files, system-call outcomes and framed logs\<close>

text \<open>
  An open descriptor is the file's content and the descriptor's offset. What the kernel answers is
  an input of every operation: a \<open>write\<close> may store part of the buffer, be interrupted or fail; a
  \<open>pread\<close> may return part of the range, be interrupted, or stop. A loop that waits for the kernel
  consumes a list of outcomes and is \<open>None\<close> when the list ends first, so a theorem that an operation
  returns says which outcomes suffice.

  The locale at the end is the contract the three append-only logs share: a complete record is
  replayed and consumed, and a torn record at the end is dropped. Its lemmas (a log is replayed in
  order; a log with a torn tail replays to the log without it) are proved once for all of them.
\<close>

record posix_file =
  content :: bytes
  pos :: nat

datatype wres = Wrote nat | WEintr | WErr
datatype rres = RGot nat | REintr | RStop

definition file_write :: "posix_file \<Rightarrow> bytes \<Rightarrow> posix_file" where
  "file_write f d = f\<lparr>content := take (pos f) (content f) @ replicate (pos f - length (content f)) 0 @ d
       @ drop (pos f + length d) (content f),
     pos := pos f + length d\<rparr>"

definition ftruncate :: "nat \<Rightarrow> posix_file \<Rightarrow> posix_file" where
  "ftruncate n f = f\<lparr>content := take n (content f) @ replicate (n - length (content f)) 0\<rparr>"

definition lseek_set :: "nat \<Rightarrow> posix_file \<Rightarrow> posix_file" where
  "lseek_set n f = f\<lparr>pos := n\<rparr>"

text \<open>A descriptor positioned at the end of its file.\<close>

definition at_end :: "posix_file \<Rightarrow> bool" where
  "at_end f \<longleftrightarrow> pos f = length (content f)"

lemma file_write_at_end:
  "at_end f \<Longrightarrow> file_write f d = \<lparr>content = content f @ d, pos = length (content f) + length d\<rparr>"
  by (simp add: at_end_def file_write_def)

lemma at_end_file_write: "at_end f \<Longrightarrow> at_end (file_write f d)"
  by (simp add: at_end_def file_write_def)

lemma content_file_write_at_end [simp]: "at_end f \<Longrightarrow> content (file_write f d) = content f @ d"
  by (simp add: file_write_at_end)

lemma at_end_simps [simp]: "at_end \<lparr>content = c, pos = length c\<rparr>" "at_end \<lparr>content = [], pos = 0\<rparr>"
  by (simp_all add: at_end_def)

lemma ftruncate_append [simp]: "content f = c @ d \<Longrightarrow> ftruncate (length c) f = f\<lparr>content := c\<rparr>"
  by (simp add: ftruncate_def)

subsection \<open>The contract of an append-only log of framed records\<close>

locale framed_log =
  fixes enc :: "'r \<Rightarrow> bytes"
    and fits :: "'r \<Rightarrow> bool"
    and app :: "'r \<Rightarrow> 's \<Rightarrow> 's"
    and replay :: "bytes \<Rightarrow> nat \<Rightarrow> 's \<Rightarrow> nat + nat \<times> 's"
  assumes replay_record: "fits r \<Longrightarrow>
      replay (enc r @ rest) off s = replay rest (off + length (enc r)) (app r s)"
    and replay_torn: "fits r \<Longrightarrow> n < length (enc r) \<Longrightarrow> replay (take n (enc r)) off s = Inr (off, s)"
    and replay_empty: "replay [] off s = Inr (off, s)"
    and replay_extend: "replay c off s = Inr (off + length c, s') \<Longrightarrow>
      replay (c @ rest) off s = replay rest (off + length c) s'"
begin

text \<open>A log that replays to its end stays so when a record is appended, and drops a torn append.\<close>

lemma consumed_append:
  "replay c 0 s0 = Inr (length c, s) \<Longrightarrow> fits r \<Longrightarrow>
     replay (c @ enc r) 0 s0 = Inr (length (c @ enc r), app r s)"
  using replay_extend [of c 0 s0 s "enc r"] replay_record [of r "[]"] by (simp add: replay_empty)

lemma consumed_torn:
  "replay c 0 s0 = Inr (length c, s) \<Longrightarrow> fits r \<Longrightarrow> n < length (enc r) \<Longrightarrow>
     replay (c @ take n (enc r)) 0 s0 = Inr (length c, s)"
  using replay_extend [of c 0 s0 s "take n (enc r)"] by (simp add: replay_torn)

lemma replay_log_app:
  "list_all fits rs \<Longrightarrow> replay (concat (map enc rs) @ rest) off s =
     replay rest (off + length (concat (map enc rs))) (fold app rs s)"
  by (induction rs arbitrary: off s) (simp_all add: replay_record add.assoc)

lemma replay_log:
  "list_all fits rs \<Longrightarrow> replay (concat (map enc rs)) off s =
     Inr (off + length (concat (map enc rs)), fold app rs s)"
  using replay_log_app [of rs "[]"] by (simp add: replay_empty)

lemma replay_log_torn:
  "list_all fits rs \<Longrightarrow> fits r \<Longrightarrow> n < length (enc r) \<Longrightarrow>
     replay (concat (map enc rs) @ take n (enc r)) off s =
     Inr (off + length (concat (map enc rs)), fold app rs s)"
  by (simp add: replay_log_app replay_torn)

text \<open>Cutting a log anywhere keeps a whole number of its records: no record is half applied.\<close>

lemma replay_log_cut:
  assumes "list_all fits rs"
  shows "\<exists>k \<le> length rs. length (concat (map enc (take k rs))) \<le> n \<and>
    (k < length rs \<longrightarrow> n < length (concat (map enc (take (Suc k) rs)))) \<and>
    replay (take n (concat (map enc rs))) 0 s =
      Inr (length (concat (map enc (take k rs))), fold app (take k rs) s)"
  using assms
proof (induction rs arbitrary: n rule: rev_induct)
  case Nil
  then show ?case by (simp add: replay_empty)
next
  case (snoc r rs)
  let ?log = "concat (map enc rs)"
  from snoc.prems have fits: "list_all fits rs" "fits r" by simp_all
  consider (in_log) "n < length ?log" | (in_rec) "length ?log \<le> n" "n < length ?log + length (enc r)"
    | (all) "length ?log + length (enc r) \<le> n" by linarith
  then show ?case
  proof cases
    case in_log
    from snoc.IH [OF fits(1), of n] obtain k where k: "k \<le> length rs"
      "length (concat (map enc (take k rs))) \<le> n"
      "k < length rs \<longrightarrow> n < length (concat (map enc (take (Suc k) rs)))"
      "replay (take n ?log) 0 s = Inr (length (concat (map enc (take k rs))), fold app (take k rs) s)"
      by blast
    with in_log have "k < length rs" by (cases "k = length rs") auto
    with in_log k show ?thesis by (intro exI [of _ k]) simp
  next
    case in_rec
    then have "replay (?log @ take (n - length ?log) (enc r)) 0 s = Inr (0 + length ?log, fold app rs s)"
      by (intro replay_log_torn) (use fits in auto)
    with in_rec show ?thesis by (intro exI [of _ "length rs"]) simp
  next
    case all
    with replay_log [OF snoc.prems, of 0 s] show ?thesis
      by (intro exI [of _ "Suc (length rs)"]) simp
  qed
qed

end

end
