(* ===== verification/OrderedLogStore.thy ===== *)
theory OrderedLogStore
  imports ByteCodec StdMap PosixFile
begin

section \<open>The ordered log store\<close>

text \<open>
  \<open>session/ordered_log_store.{h,cpp}\<close>: the ordered key space behind the session API, an ordered map
  made durable by an append-only log of whole batches. The state is the class's fields; the
  descriptor \<open>sfd\<close> is \<open>None\<close> for a memory-only store and otherwise holds the log file. Sizes are
  natural numbers where the code has \<open>size_t\<close> sums of the sizes of live objects, and the 32-bit
  casts of the record format are kept.
\<close>

subsection \<open>Data\<close>

datatype mut_op = kPut | kDel

record mutation =
  mop :: mut_op
  mkey :: bytes
  mvalue :: bytes

record scan_options =
  so_prefix :: bytes
  start_after :: bytes
  end_before :: bytes
  so_limit :: nat
  max_bytes :: nat
  so_reverse :: bool

record store =
  smap :: "(bytes, bytes) stdmap"
  sfd :: "posix_file option"
  log_bytes :: nat
  live_bytes :: nat
  compact_min_bytes :: nat

datatype store_error = OpenFailed | InUse | FlockFailed | FstatFailed | Corrupt nat
  | FtruncateFailed | LseekFailed

text \<open>A read of the replay buffer is checked: reading past the buffer is the value
  \<open>OutOfBounds\<close>, which \<open>Malformed\<close> input must never reach.\<close>

datatype 'a parsed = Parsed 'a | Malformed | OutOfBounds

subsection \<open>Record format\<close>

definition op_byte :: "mut_op \<Rightarrow> byte" where
  "op_byte p = (case p of kPut \<Rightarrow> 1 | kDel \<Rightarrow> 2)"

definition EncodeMutation :: "mutation \<Rightarrow> bytes" where
  "EncodeMutation m =
     (let vlen = (if mop m = kPut then length (mvalue m) else 0)
      in [op_byte (mop m)] @ PutU32 (of_nat (length (mkey m))) @ mkey m @ PutU32 (of_nat vlen)
         @ take vlen (mvalue m))"

definition EncodeRecord :: "mutation list \<Rightarrow> bytes" where
  "EncodeRecord batch =
     (let rec0 = PutU32 0 @ PutU32 (of_nat (length batch)) @ concat (map EncodeMutation batch);
          crc = Crc32 (drop 4 rec0);
          rec1 = rec0 @ PutU32 crc
      in PutU32 (of_nat (length rec1)) @ drop 4 rec1)"

definition read_u8 :: "bytes \<Rightarrow> nat \<Rightarrow> byte option" where
  "read_u8 p i = (if i < length p then Some (p ! i) else None)"

definition read_u32 :: "bytes \<Rightarrow> nat \<Rightarrow> nat option" where
  "read_u32 p i = (if i + 4 \<le> length p then Some (unat (GetU32 (drop i p))) else None)"

definition read_str :: "bytes \<Rightarrow> nat \<Rightarrow> nat \<Rightarrow> bytes option" where
  "read_str p i n = (if i + n \<le> length p then Some (take n (drop i p)) else None)"

text \<open>One iteration of the loop of \<open>DecodeBody\<close>: the mutation at \<open>off\<close> and the offset after it.\<close>

definition DecodeMutation :: "bytes \<Rightarrow> nat \<Rightarrow> (mutation \<times> nat) parsed" where
  "DecodeMutation p off =
     (if off + 1 + 4 > length p then Malformed
      else case read_u8 p off of None \<Rightarrow> OutOfBounds | Some opb \<Rightarrow>
        (if opb \<noteq> op_byte kPut \<and> opb \<noteq> op_byte kDel then Malformed
         else case read_u32 p (off + 1) of None \<Rightarrow> OutOfBounds | Some klen \<Rightarrow>
           (let off = off + 5
            in if klen > length p - off \<or> length p - off - klen < 4 then Malformed
               else case read_str p off klen of None \<Rightarrow> OutOfBounds | Some key \<Rightarrow>
                 (let off = off + klen
                  in case read_u32 p off of None \<Rightarrow> OutOfBounds | Some vlen \<Rightarrow>
                    (let off = off + 4
                     in if vlen > length p - off then Malformed
                        else case read_str p off vlen of None \<Rightarrow> OutOfBounds | Some val \<Rightarrow>
                          Parsed (\<lparr>mop = (if opb = op_byte kPut then kPut else kDel),
                            mkey = key, mvalue = val\<rparr>, off + vlen))))))"

fun DecodeLoop :: "nat \<Rightarrow> bytes \<Rightarrow> nat \<Rightarrow> mutation list \<Rightarrow> mutation list parsed" where
  "DecodeLoop 0 p off out = (if off = length p then Parsed out else Malformed)"
| "DecodeLoop (Suc i) p off out =
     (case DecodeMutation p off of
        Malformed \<Rightarrow> Malformed
      | OutOfBounds \<Rightarrow> OutOfBounds
      | Parsed (m, off') \<Rightarrow> DecodeLoop i p off' (out @ [m]))"

definition DecodeBody :: "bytes \<Rightarrow> mutation list parsed" where
  "DecodeBody p =
     (if length p < 4 then Malformed
      else case read_u32 p 0 of None \<Rightarrow> OutOfBounds | Some count \<Rightarrow> DecodeLoop count p 4 [])"

subsection \<open>Applying mutations to the map\<close>

definition apply_mutation :: "mutation \<Rightarrow> store \<Rightarrow> store" where
  "apply_mutation m s =
     (case map_find (smap s) (mkey m) of
        Some v \<Rightarrow>
          (let live = live_bytes s - (length (mkey m) + length v)
           in if mop m = kDel then s\<lparr>smap := map_erase (mkey m) (smap s), live_bytes := live\<rparr>
              else s\<lparr>smap := map_put (mkey m) (mvalue m) (smap s),
                     live_bytes := live + (length (mkey m) + length (mvalue m))\<rparr>)
      | None \<Rightarrow>
          if mop m = kPut then s\<lparr>smap := map_put (mkey m) (mvalue m) (smap s),
                     live_bytes := live_bytes s + (length (mkey m) + length (mvalue m))\<rparr>
          else s)"

definition ApplyToMapLocked :: "mutation list \<Rightarrow> store \<Rightarrow> store" where
  "ApplyToMapLocked batch s = fold apply_mutation batch s"

subsection \<open>Opening and replaying the log\<close>

text \<open>The replay loop over the unread rest of the buffer: \<open>Inl off\<close> is the refusal of a log that
  is corrupt at \<open>off\<close>, \<open>Inr (off, s)\<close> the end of replay at \<open>off\<close>.\<close>

function ReplayLoop :: "bytes \<Rightarrow> nat \<Rightarrow> store \<Rightarrow> nat + nat \<times> store" where
  "ReplayLoop rest off s =
     (if length rest < 12 then Inr (off, s)
      else
        let remaining = length rest;
            rec_len = unat (GetU32 rest);
            decoded =
              (if 12 \<le> rec_len \<and> rec_len \<le> remaining
               then let body = take (rec_len - 8) (drop 4 rest)
                    in if Crc32 body = GetU32 (drop (rec_len - 4) rest) then DecodeBody body
                       else Malformed
               else Malformed)
        in case decoded of
             Parsed batch \<Rightarrow> ReplayLoop (drop rec_len rest) (off + rec_len) (ApplyToMapLocked batch s)
           | _ \<Rightarrow>
               if rec_len > remaining \<or> 12 \<le> rec_len \<and> rec_len = remaining \<or> list_all (\<lambda>b. b = 0) rest
               then Inr (off, s) else Inl off)"
  by pat_completeness auto
termination
  by (relation "measure (\<lambda>(rest, off, s). length rest)") (auto split: if_splits)

declare ReplayLoop.simps [simp del]

text \<open>The read loop: \<open>pread\<close> until the buffer is full; an error or an end of file stops it.\<close>

fun ReadLoop :: "rres list \<Rightarrow> nat \<Rightarrow> nat \<Rightarrow> nat option" where
  "ReadLoop rs sz got =
     (if got \<ge> sz then Some got
      else case rs of
        [] \<Rightarrow> None
      | REintr # rs' \<Rightarrow> ReadLoop rs' sz got
      | RStop # rs' \<Rightarrow> Some got
      | RGot k # rs' \<Rightarrow> if k = 0 then Some got else ReadLoop rs' sz (got + min k (sz - got)))"

declare ReadLoop.simps [simp del]

datatype flock_res = FlockOk | FlockWouldBlock | FlockErr

record open_env =
  oe_open :: bool
  oe_flock :: flock_res
  oe_fstat :: bool
  oe_reads :: "rres list"
  oe_ftruncate :: bool
  oe_lseek :: bool

definition empty_store :: "nat \<Rightarrow> store" where
  "empty_store cmin = \<lparr>smap = [], sfd = None, log_bytes = 0, live_bytes = 0, compact_min_bytes = cmin\<rparr>"

text \<open>\<open>OpenMem\<close> is \<open>Open\<close> with an empty path; \<open>OpenLog\<close> opens the log whose file holds \<open>disk\<close>
  (empty when the file is new) and returns the store and what the file then holds.\<close>

definition OpenMem :: "nat \<Rightarrow> store" where
  "OpenMem cmin = empty_store cmin"

definition OpenLog :: "open_env \<Rightarrow> nat \<Rightarrow> bytes \<Rightarrow> ((store_error + store) \<times> bytes) option" where
  "OpenLog e cmin disk =
     (if \<not> oe_open e then Some (Inl OpenFailed, disk)
      else if oe_flock e = FlockWouldBlock then Some (Inl InUse, disk)
      else if oe_flock e = FlockErr then Some (Inl FlockFailed, disk)
      else if \<not> oe_fstat e then Some (Inl FstatFailed, disk)
      else
        case ReadLoop (oe_reads e) (length disk) 0 of None \<Rightarrow> None | Some got \<Rightarrow>
        let buf = take got disk
        in case ReplayLoop buf 0 (empty_store cmin) of
             Inl off \<Rightarrow> Some (Inl (Corrupt off), disk)
           | Inr (off, s) \<Rightarrow>
               if off < length buf \<and> \<not> oe_ftruncate e then Some (Inl FtruncateFailed, disk)
               else
                 let f = (if off < length buf then ftruncate off \<lparr>content = disk, pos = 0\<rparr>
                          else \<lparr>content = disk, pos = 0\<rparr>)
                 in if \<not> oe_lseek e then Some (Inl LseekFailed, content f)
                    else Some (Inr (s\<lparr>sfd := Some (lseek_set off f), log_bytes := off\<rparr>), content f))"

subsection \<open>Appending and compacting\<close>

fun WriteAll :: "wres list \<Rightarrow> bytes \<Rightarrow> posix_file \<Rightarrow> (bool \<times> posix_file \<times> wres list) option" where
  "WriteAll ws [] f = Some (True, f, ws)"
| "WriteAll [] (b # p) f = None"
| "WriteAll (WEintr # ws) (b # p) f = WriteAll ws (b # p) f"
| "WriteAll (WErr # ws) (b # p) f = Some (False, f, ws)"
| "WriteAll (Wrote k # ws) (b # p) f = WriteAll ws (drop k (b # p)) (file_write f (take k (b # p)))"

record append_env =
  ae_writes :: "wres list"
  ae_fsync :: bool
  ae_ftruncate :: bool

definition AppendLocked :: "append_env \<Rightarrow> mutation list \<Rightarrow> store \<Rightarrow> (bool \<times> store) option" where
  "AppendLocked e batch s =
     (case sfd s of None \<Rightarrow> Some (True, s) | Some f \<Rightarrow>
        let r = EncodeRecord batch
        in case WriteAll (ae_writes e) r f of None \<Rightarrow> None | Some (written, f', ws) \<Rightarrow>
             if \<not> (written \<and> ae_fsync e)
             then Some (False, s\<lparr>sfd := Some (if ae_ftruncate e
                                          then lseek_set (log_bytes s) (ftruncate (log_bytes s) f') else f')\<rparr>)
             else Some (True, s\<lparr>sfd := Some f', log_bytes := log_bytes s + length r\<rparr>))"

record compact_env =
  ce_open :: bool
  ce_flock :: bool
  ce_writes :: "wres list"
  ce_fsync :: bool
  ce_rename :: bool

text \<open>The state of the rewrite: whether every write succeeded so far, the temporary file, the bytes
  of the records written and the kernel's remaining answers.\<close>

type_synonym rewrite = "bool \<times> posix_file \<times> nat \<times> wres list"

definition flush :: "mutation list \<Rightarrow> rewrite \<Rightarrow> rewrite option" where
  "flush chunk st =
     (case st of (ok, tf, written, ws) \<Rightarrow>
        if chunk = [] then Some st
        else let r = EncodeRecord chunk
             in if ok then (case WriteAll ws r tf of None \<Rightarrow> None
                            | Some (ok', tf', ws') \<Rightarrow> Some (ok', tf', written + length r, ws'))
                else Some (False, tf, written + length r, ws))"

fun CompactLoop :: "(bytes, bytes) stdmap \<Rightarrow> mutation list \<Rightarrow> nat \<Rightarrow> rewrite \<Rightarrow> rewrite option" where
  "CompactLoop [] chunk cb st = flush chunk st"
| "CompactLoop ((k, v) # m) chunk cb st =
     (let chunk' = chunk @ [\<lparr>mop = kPut, mkey = k, mvalue = v\<rparr>];
          cb' = cb + (length k + length v)
      in if cb' \<ge> 2 ^ 20
         then (case flush chunk' st of None \<Rightarrow> None | Some st' \<Rightarrow> CompactLoop m [] 0 st')
         else CompactLoop m chunk' cb' st)"

definition MaybeCompactLocked :: "compact_env \<Rightarrow> store \<Rightarrow> (bool \<times> store) option" where
  "MaybeCompactLocked e s =
     (case sfd s of None \<Rightarrow> Some (True, s) | Some f \<Rightarrow>
        if log_bytes s \<le> max (compact_min_bytes s) (2 * live_bytes s) then Some (True, s)
        else if \<not> ce_open e then Some (False, s)
        else if \<not> ce_flock e then Some (False, s)
        else case CompactLoop (smap s) [] 0 (True, \<lparr>content = [], pos = 0\<rparr>, 0, ce_writes e) of
               None \<Rightarrow> None
             | Some (ok, tf, written, ws) \<Rightarrow>
                 if \<not> (ok \<and> ce_fsync e \<and> ce_rename e) then Some (False, s)
                 else Some (True, s\<lparr>sfd := Some (lseek_set written tf), log_bytes := written\<rparr>))"

record io_env =
  append_io :: append_env
  compact_io :: compact_env

definition Apply :: "io_env \<Rightarrow> mutation list \<Rightarrow> store \<Rightarrow> (bool \<times> store) option" where
  "Apply e batch s =
     (if batch = [] then Some (True, s)
      else case AppendLocked (append_io e) batch s of
             None \<Rightarrow> None
           | Some (False, s1) \<Rightarrow> Some (False, s1)
           | Some (True, s1) \<Rightarrow>
               (case MaybeCompactLocked (compact_io e) (ApplyToMapLocked batch s1) of
                  None \<Rightarrow> None
                | Some (ok, s2) \<Rightarrow> Some (True, s2)))"

subsection \<open>Reading\<close>

definition Get :: "store \<Rightarrow> bytes \<Rightarrow> bytes option" where
  "Get s k = map_find (smap s) k"

definition PrefixMatches :: "bytes \<Rightarrow> bytes \<Rightarrow> bool" where
  "PrefixMatches k p \<longleftrightarrow> length k \<ge> length p \<and> take (length p) k = p"

text \<open>The lambda \<open>take\<close> of \<open>Scan\<close>: the limits refuse the entry, or it is added to the output.\<close>

definition scan_full :: "scan_options \<Rightarrow> (bytes \<times> bytes) list \<Rightarrow> nat \<Rightarrow> bytes \<times> bytes \<Rightarrow> bool" where
  "scan_full opt out n e \<longleftrightarrow>
     so_limit opt \<noteq> 0 \<and> length out \<ge> so_limit opt \<or>
     max_bytes opt \<noteq> 0 \<and> out \<noteq> [] \<and> n + (length (fst e) + length (snd e)) > max_bytes opt"

fun ScanForward :: "scan_options \<Rightarrow> (bytes, bytes) stdmap \<Rightarrow> (bytes \<times> bytes) list \<Rightarrow> nat \<Rightarrow> (bytes \<times> bytes) list \<times> bool" where
  "ScanForward opt [] out n = (out, False)"
| "ScanForward opt (e # m) out n =
     (if \<not> PrefixMatches (fst e) (so_prefix opt) then (out, False)
      else if end_before opt \<noteq> [] \<and> fst e \<ge> end_before opt then (out, False)
      else if scan_full opt out n e then (out, True)
      else ScanForward opt m (out @ [e]) (n + (length (fst e) + length (snd e))))"

text \<open>The walk down from a position: the list is the entries below it, nearest first.\<close>

fun ScanBackward :: "scan_options \<Rightarrow> (bytes, bytes) stdmap \<Rightarrow> (bytes \<times> bytes) list \<Rightarrow> nat \<Rightarrow> (bytes \<times> bytes) list \<times> bool" where
  "ScanBackward opt [] out n = (out, False)"
| "ScanBackward opt (e # m) out n =
     (if \<not> PrefixMatches (fst e) (so_prefix opt) then (out, False)
      else if start_after opt \<noteq> [] \<and> fst e \<le> start_after opt then (out, False)
      else if scan_full opt out n e then (out, True)
      else ScanBackward opt m (out @ [e]) (n + (length (fst e) + length (snd e))))"

fun prefix_end :: "bytes \<Rightarrow> (bytes, bytes) stdmap \<Rightarrow> nat \<Rightarrow> nat" where
  "prefix_end p [] i = i"
| "prefix_end p (e # m) i = (if PrefixMatches (fst e) p then prefix_end p m (Suc i) else i)"

definition Scan :: "store \<Rightarrow> scan_options \<Rightarrow> (bytes \<times> bytes) list \<times> bool" where
  "Scan s opt =
     (let m = smap s
      in if \<not> so_reverse opt
         then let i = (if start_after opt = [] \<or> start_after opt < so_prefix opt
                       then lower_bound (so_prefix opt) m else upper_bound (start_after opt) m)
              in ScanForward opt (drop i m) [] 0
         else let lo = lower_bound (so_prefix opt) m;
                  i = prefix_end (so_prefix opt) (drop lo m) lo;
                  eb = lower_bound (end_before opt) m;
                  j = (if end_before opt \<noteq> [] \<and>
                          (i = length m \<or> eb \<noteq> length m \<and> fst (m ! eb) < fst (m ! i))
                       then eb else i)
              in ScanBackward opt (rev (take j m)) [] 0)"

fun prefix_dels :: "bytes \<Rightarrow> (bytes, bytes) stdmap \<Rightarrow> mutation list" where
  "prefix_dels p [] = []"
| "prefix_dels p (e # m) =
     (if PrefixMatches (fst e) p then \<lparr>mop = kDel, mkey = fst e, mvalue = []\<rparr> # prefix_dels p m else [])"

text \<open>\<open>Inl ()\<close> is the failure the code reports as \<open>0\<close> with the error string set.\<close>

definition DeletePrefix :: "io_env \<Rightarrow> bytes \<Rightarrow> store \<Rightarrow> ((unit + nat) \<times> store) option" where
  "DeletePrefix e p s =
     (let batch = prefix_dels p (drop (lower_bound p (smap s)) (smap s))
      in if batch = [] then Some (Inr 0, s)
         else case AppendLocked (append_io e) batch s of
                None \<Rightarrow> None
              | Some (False, s1) \<Rightarrow> Some (Inl (), s1)
              | Some (True, s1) \<Rightarrow>
                  (case MaybeCompactLocked (compact_io e) (ApplyToMapLocked batch s1) of
                     None \<Rightarrow> None
                   | Some (ok, s2) \<Rightarrow> Some (Inr (length batch), s2)))"

definition LiveBytes :: "store \<Rightarrow> nat" where
  "LiveBytes s = live_bytes s"

definition LogBytes :: "store \<Rightarrow> nat" where
  "LogBytes s = log_bytes s"

subsection \<open>Specification functions\<close>

text \<open>What a record means: a deletion carries no value; a record fits when its length is not cut
  by the 32-bit length field.\<close>

definition norm_mutation :: "mutation \<Rightarrow> mutation" where
  "norm_mutation m = (if mop m = kPut then m else m\<lparr>mvalue := []\<rparr>)"

definition record_fits :: "mutation list \<Rightarrow> bool" where
  "record_fits batch \<longleftrightarrow> length (EncodeRecord batch) < 2 ^ 32"

definition record_body :: "mutation list \<Rightarrow> bytes" where
  "record_body batch = PutU32 (of_nat (length batch)) @ concat (map EncodeMutation batch)"

subsection \<open>Round trip of the record format\<close>

lemma length_EncodeMutation:
  "length (EncodeMutation m) = 9 + length (mkey m) + length (mvalue (norm_mutation m))"
  by (simp add: EncodeMutation_def norm_mutation_def Let_def)

lemma EncodeMutation_norm:
  "EncodeMutation m = [op_byte (mop m)] @ PutU32 (of_nat (length (mkey m))) @ mkey m @
     PutU32 (of_nat (length (mvalue (norm_mutation m)))) @ mvalue (norm_mutation m)"
  by (cases "mop m") (simp_all add: EncodeMutation_def norm_mutation_def)

lemma EncodeRecord_frame:
  "EncodeRecord batch =
     PutU32 (of_nat (8 + length (record_body batch))) @ record_body batch @ PutU32 (Crc32 (record_body batch))"
  by (simp add: EncodeRecord_def record_body_def Let_def)

lemma length_record_body: "length (record_body batch) = 4 + (\<Sum>m\<leftarrow>batch. length (EncodeMutation m))"
  by (simp add: record_body_def length_concat o_def)

lemma length_EncodeRecord: "length (EncodeRecord batch) = 8 + length (record_body batch)"
  by (simp add: EncodeRecord_frame)

lemma length_le_sum: "length xs \<le> (\<Sum>m\<leftarrow>xs. length (EncodeMutation m))"
  by (induction xs) (auto simp: length_EncodeMutation)

lemma record_fits_count: "record_fits batch \<Longrightarrow> length batch < 2 ^ 32"
  using length_le_sum [of batch]
  by (simp add: record_fits_def length_EncodeRecord length_record_body)

lemma op_byte_simps [simp]: "op_byte kPut = 1" "op_byte kDel = 2"
  by (simp_all add: op_byte_def)

lemma op_byte_back: "(if op_byte p = 1 then kPut else kDel) = p" "op_byte p = 1 \<or> op_byte p = 2"
  by (cases p; simp)+

lemma DecodeMutation_encode:
  assumes "length (EncodeMutation m) < 2 ^ 32"
  shows "DecodeMutation (pre @ EncodeMutation m @ post) (length pre) =
    Parsed (norm_mutation m, length pre + length (EncodeMutation m))"
proof -
  let ?k = "mkey m" and ?v = "mvalue (norm_mutation m)"
  have k: "unat (of_nat (length ?k) :: u32) = length ?k"
    and v: "unat (of_nat (length ?v) :: u32) = length ?v"
    using assms by (simp_all add: unat_u32_of_nat length_EncodeMutation)
  define p where "p = pre @ op_byte (mop m) # PutU32 (of_nat (length ?k)) @ ?k @ PutU32 (of_nat (length ?v)) @ ?v @ post"
  have p: "pre @ EncodeMutation m @ post = p"
    by (simp add: EncodeMutation_norm p_def)
  have len: "length p = length pre + 9 + length ?k + length ?v + length post"
    by (simp add: p_def)
  have r1: "read_u8 p (length pre) = Some (op_byte (mop m))"
    by (simp add: read_u8_def p_def)
  have r2: "read_u32 p (length pre + 1) = Some (length ?k)"
    using k by (simp add: read_u32_def len) (simp add: p_def)
  have r3: "read_str p (length pre + 5) (length ?k) = Some ?k"
    by (simp add: read_str_def len) (simp add: p_def)
  have d4: "drop (length pre + 5 + length ?k) p = PutU32 (of_nat (length ?v)) @ ?v @ post"
    using drop_exact [of "length pre + 5 + length ?k" "pre @ op_byte (mop m) # PutU32 (of_nat (length ?k)) @ ?k"]
    by (simp add: p_def)
  have "drop (length pre + 5 + length ?k + 4) p = drop 4 (drop (length pre + 5 + length ?k) p)"
    by (simp only: drop_drop add.commute)
  then have d5: "drop (length pre + 5 + length ?k + 4) p = ?v @ post"
    unfolding d4 by simp
  have r4: "read_u32 p (length pre + 5 + length ?k) = Some (length ?v)"
    using v by (simp add: read_u32_def len d4)
  have r5: "read_str p (length pre + 5 + length ?k + 4) (length ?v) = Some ?v"
    by (simp only: read_str_def len d5) simp
  have c: "(length pre + 1 + 4 > length p) = False"
    "(length ?k > length p - (length pre + 5) \<or> length p - (length pre + 5) - length ?k < 4) = False"
    "(length ?v > length p - (length pre + 5 + length ?k + 4)) = False"
    "(op_byte (mop m) \<noteq> op_byte kPut \<and> op_byte (mop m) \<noteq> op_byte kDel) = False"
    "(if op_byte (mop m) = op_byte kPut then kPut else kDel) = mop m"
    using op_byte_back [of "mop m"] by (auto simp: len)
  have "DecodeMutation p (length pre) = Parsed (\<lparr>mop = mop m, mkey = ?k, mvalue = ?v\<rparr>,
      length pre + 5 + length ?k + 4 + length ?v)"
    by (simp only: DecodeMutation_def Let_def option.case r1 r2 r3 r4 r5 c if_False)
  then show ?thesis
    by (simp add: p length_EncodeMutation norm_mutation_def)
qed

lemma DecodeLoop_encode:
  assumes "length (pre @ concat (map EncodeMutation ms)) < 2 ^ 32"
  shows "DecodeLoop (length ms) (pre @ concat (map EncodeMutation ms)) (length pre) out =
    Parsed (out @ map norm_mutation ms)"
  using assms
proof (induction ms arbitrary: pre out)
  case (Cons m ms)
  let ?pre = "pre @ EncodeMutation m"
  have "DecodeLoop (length ms) (?pre @ concat (map EncodeMutation ms)) (length ?pre) (out @ [norm_mutation m]) =
      Parsed ((out @ [norm_mutation m]) @ map norm_mutation ms)"
    by (rule Cons.IH) (use Cons.prems in simp)
  moreover have "DecodeMutation (pre @ EncodeMutation m @ concat (map EncodeMutation ms)) (length pre) =
      Parsed (norm_mutation m, length pre + length (EncodeMutation m))"
    by (rule DecodeMutation_encode) (use Cons.prems in simp)
  ultimately show ?case by simp
qed simp

lemma DecodeBody_record_body:
  assumes "record_fits batch"
  shows "DecodeBody (record_body batch) = Parsed (map norm_mutation batch)"
proof -
  have "DecodeLoop (length batch) (PutU32 (of_nat (length batch)) @ concat (map EncodeMutation batch))
      (length (PutU32 (of_nat (length batch)))) [] = Parsed ([] @ map norm_mutation batch)"
    by (rule DecodeLoop_encode)
       (use assms in \<open>simp add: record_fits_def length_EncodeRecord record_body_def\<close>)
  moreover have "read_u32 (record_body batch) 0 = Some (length batch)"
    using record_fits_count [OF assms] by (simp add: read_u32_def record_body_def unat_u32_of_nat)
  moreover have "4 \<le> length (record_body batch)" by (simp add: length_record_body)
  ultimately show ?thesis by (simp add: DecodeBody_def record_body_def)
qed

subsection \<open>Parsing arbitrary bytes reads only inside the buffer\<close>

lemma DecodeMutation_in_bounds: "DecodeMutation p off \<noteq> OutOfBounds"
  by (simp add: DecodeMutation_def read_u8_def read_u32_def read_str_def Let_def) linarith

lemma DecodeLoop_in_bounds: "DecodeLoop n p off out \<noteq> OutOfBounds"
  using DecodeMutation_in_bounds
  by (induction n p off out rule: DecodeLoop.induct) (auto split: parsed.splits)

lemma DecodeBody_in_bounds: "DecodeBody p \<noteq> OutOfBounds"
  by (simp add: DecodeBody_def read_u32_def DecodeLoop_in_bounds)

subsection \<open>The replay loop\<close>

text \<open>One step of the replay loop, with the record's decoding named.\<close>

definition DecodeAt :: "bytes \<Rightarrow> mutation list parsed" where
  "DecodeAt rest =
     (let rec_len = unat (GetU32 rest)
      in if 12 \<le> rec_len \<and> rec_len \<le> length rest
         then let body = take (rec_len - 8) (drop 4 rest)
              in if Crc32 body = GetU32 (drop (rec_len - 4) rest) then DecodeBody body else Malformed
         else Malformed)"

lemma ReplayLoop_step:
  "ReplayLoop rest off s =
     (if length rest < 12 then Inr (off, s)
      else case DecodeAt rest of
             Parsed batch \<Rightarrow> ReplayLoop (drop (unat (GetU32 rest)) rest) (off + unat (GetU32 rest))
                 (ApplyToMapLocked batch s)
           | _ \<Rightarrow> if unat (GetU32 rest) > length rest \<or> 12 \<le> unat (GetU32 rest) \<and> unat (GetU32 rest) = length rest
                      \<or> list_all (\<lambda>b. b = 0) rest
                   then Inr (off, s) else Inl off)"
  by (subst ReplayLoop.simps) (simp add: DecodeAt_def Let_def)

lemma ReplayLoop_short: "length rest < 12 \<Longrightarrow> ReplayLoop rest off s = Inr (off, s)"
  by (simp add: ReplayLoop_step)

lemma DecodeAt_Parsed:
  "DecodeAt rest = Parsed b \<Longrightarrow> 12 \<le> unat (GetU32 rest) \<and> unat (GetU32 rest) \<le> length rest"
  by (auto simp: DecodeAt_def Let_def split: if_splits)

lemma DecodeAt_append:
  assumes "DecodeAt c = Parsed b"
  shows "DecodeAt (c @ d) = Parsed b"
proof -
  from DecodeAt_Parsed [OF assms] have *: "12 \<le> unat (GetU32 c)" "unat (GetU32 c) \<le> length c" by auto
  then have "GetU32 (c @ d) = GetU32 c" "GetU32 (drop (unat (GetU32 c) - 4) (c @ d)) = GetU32 (drop (unat (GetU32 c) - 4) c)"
    by (simp_all add: GetU32_append)
  with * assms show ?thesis by (auto simp: DecodeAt_def Let_def)
qed

lemma ReplayLoop_extend:
  "ReplayLoop c off s = Inr (off + length c, s') \<Longrightarrow>
     ReplayLoop (c @ rest) off s = ReplayLoop rest (off + length c) s'"
proof (induction c off s rule: ReplayLoop.induct)
  case (1 c off s)
  show ?case
  proof (cases "length c < 12")
    case True
    with "1.prems" show ?thesis by (simp add: ReplayLoop_step [of c])
  next
    case False
    let ?n = "unat (GetU32 c)"
    from False "1.prems" obtain b where b: "DecodeAt c = Parsed b"
      by (auto simp: ReplayLoop_step [of c] split: parsed.splits if_splits)
    from DecodeAt_Parsed [OF b] have n: "12 \<le> ?n" "?n \<le> length c" by auto
    with False b "1.prems" have "ReplayLoop (drop ?n c) (off + ?n) (ApplyToMapLocked b s) =
        Inr (off + ?n + length (drop ?n c), s')"
      by (simp add: ReplayLoop_step [of c])
    moreover have "(if 12 \<le> ?n \<and> ?n \<le> length c
        then let body = take (?n - 8) (drop 4 c)
             in if Crc32 body = GetU32 (drop (?n - 4) c) then DecodeBody body else Malformed
        else Malformed) = Parsed b" 
      using b by (simp add: DecodeAt_def Let_def)
    ultimately have "ReplayLoop (drop ?n c @ rest) (off + ?n) (ApplyToMapLocked b s) =
        ReplayLoop rest (off + ?n + length (drop ?n c)) s'"
      using "1.IH" [OF False refl refl refl] by blast
    with False n DecodeAt_append [OF b, of rest] show ?thesis
      by (simp add: ReplayLoop_step [of "c @ rest"] GetU32_append)
  qed
qed

lemma apply_norm_mutation: "apply_mutation (norm_mutation m) s = apply_mutation m s"
  by (cases "mop m") (simp_all add: norm_mutation_def apply_mutation_def split: option.split)

lemma ApplyToMapLocked_norm: "ApplyToMapLocked (map norm_mutation b) s = ApplyToMapLocked b s"
  by (induction b arbitrary: s) (simp_all add: ApplyToMapLocked_def apply_norm_mutation)

lemma DecodeAt_EncodeRecord:
  assumes "record_fits b"
  shows "unat (GetU32 (EncodeRecord b @ rest)) = length (EncodeRecord b)"
    and "DecodeAt (EncodeRecord b @ rest) = Parsed (map norm_mutation b)"
proof -
  let ?n = "8 + length (record_body b)"
  have "?n < 2 ^ 32" using assms by (simp add: record_fits_def length_EncodeRecord)
  then have len: "unat (of_nat ?n :: u32) = ?n" "length (EncodeRecord b) = ?n"
    by (simp_all only: length_EncodeRecord unat_u32_of_nat)
  then show hd: "unat (GetU32 (EncodeRecord b @ rest)) = length (EncodeRecord b)"
    by (simp add: EncodeRecord_frame del: of_nat_add)
  have "GetU32 (drop (?n - 4) (EncodeRecord b @ rest)) = Crc32 (record_body b)"
    using drop_exact [of "?n - 4" "PutU32 (of_nat ?n) @ record_body b"]
    by (simp add: EncodeRecord_frame)
  moreover have "take (?n - 8) (drop 4 (EncodeRecord b @ rest)) = record_body b"
    by (simp add: EncodeRecord_frame)
  moreover have "4 \<le> length (record_body b)" by (simp add: length_record_body)
  ultimately show "DecodeAt (EncodeRecord b @ rest) = Parsed (map norm_mutation b)"
    using DecodeBody_record_body [OF assms] by (simp add: DecodeAt_def hd len Let_def)
qed

lemma ReplayLoop_record:
  assumes "record_fits b"
  shows "ReplayLoop (EncodeRecord b @ rest) off s =
    ReplayLoop rest (off + length (EncodeRecord b)) (ApplyToMapLocked b s)"
  using DecodeAt_EncodeRecord [OF assms, of rest]
  by (simp add: ReplayLoop_step [of "EncodeRecord b @ rest"] ApplyToMapLocked_norm length_EncodeRecord
      length_record_body)

lemma ReplayLoop_torn:
  assumes "record_fits b" "n < length (EncodeRecord b)"
  shows "ReplayLoop (take n (EncodeRecord b)) off s = Inr (off, s)"
proof (cases "n < 12")
  case True
  then show ?thesis by (intro ReplayLoop_short) simp
next
  case False
  let ?t = "take n (EncodeRecord b)"
  have "GetU32 (?t @ drop n (EncodeRecord b)) = GetU32 ?t"
    using False assms(2) by (intro GetU32_append) simp
  then have "unat (GetU32 ?t) = length (EncodeRecord b)"
    using DecodeAt_EncodeRecord(1) [OF assms(1), of "[]"] by simp
  with assms(2) show ?thesis
    by (simp add: ReplayLoop_step [of ?t] DecodeAt_def)
qed

interpretation ols_log: framed_log EncodeRecord record_fits ApplyToMapLocked ReplayLoop
  by unfold_locales
    (simp_all add: ReplayLoop_record ReplayLoop_torn ReplayLoop_short ReplayLoop_extend)

subsection \<open>The in-memory map\<close>

text \<open>The byte count of the entries, the invariant of the in-memory part, and the map a batch gives.\<close>

definition entry_bytes :: "bytes \<times> bytes \<Rightarrow> nat" where
  "entry_bytes e = length (fst e) + length (snd e)"

definition mem_inv :: "store \<Rightarrow> bool" where
  "mem_inv s \<longleftrightarrow> map_ok (smap s) \<and> live_bytes s = sum_list (map entry_bytes (smap s))"

definition mutate :: "mutation \<Rightarrow> (bytes \<rightharpoonup> bytes) \<Rightarrow> (bytes \<rightharpoonup> bytes)" where
  "mutate m t = t(mkey m := (if mop m = kPut then Some (mvalue m) else None))"

lemma apply_mutation_mem_inv:
  assumes "mem_inv s"
  shows "mem_inv (apply_mutation m s)"
proof -
  from assms have ok: "map_ok (smap s)" and live: "live_bytes s = sum_list (map entry_bytes (smap s))"
    by (simp_all add: mem_inv_def)
  show ?thesis
  proof (cases "map_find (smap s) (mkey m)")
    case None
    then show ?thesis
      using ok live map_put_sum [OF ok, of entry_bytes "mkey m" "mvalue m"]
      by (simp add: apply_mutation_def mem_inv_def entry_bytes_def)
  next
    case (Some v)
    show ?thesis
    proof (cases "mop m")
      case kPut
      then show ?thesis
        using Some ok live map_put_sum [OF ok, of entry_bytes "mkey m" "mvalue m"]
          map_erase_sum [OF ok, of entry_bytes "mkey m"]
        by (simp add: apply_mutation_def mem_inv_def entry_bytes_def Let_def)
    next
      case kDel
      then show ?thesis
        using Some ok live map_erase_sum [OF ok, of entry_bytes "mkey m"]
        by (simp add: apply_mutation_def mem_inv_def entry_bytes_def Let_def)
    qed
  qed
qed

lemma apply_mutation_find: "map_find (smap (apply_mutation m s)) = mutate m (map_find (smap s))"
  by (cases "mop m"; cases "map_find (smap s) (mkey m)")
     (simp_all add: apply_mutation_def mutate_def Let_def fun_eq_iff)

lemma apply_mutation_frame [simp]:
  "sfd (apply_mutation m s) = sfd s" "log_bytes (apply_mutation m s) = log_bytes s"
  "compact_min_bytes (apply_mutation m s) = compact_min_bytes s"
  by (cases "map_find (smap s) (mkey m)"; simp add: apply_mutation_def Let_def)+

lemma apply_mutation_cong:
  "smap s = smap t \<Longrightarrow> live_bytes s = live_bytes t \<Longrightarrow>
     smap (apply_mutation m s) = smap (apply_mutation m t) \<and>
     live_bytes (apply_mutation m s) = live_bytes (apply_mutation m t)"
  by (cases "map_find (smap t) (mkey m)") (simp_all add: apply_mutation_def Let_def)

lemma ApplyToMapLocked_Nil [simp]: "ApplyToMapLocked [] s = s"
  and ApplyToMapLocked_Cons [simp]: "ApplyToMapLocked (m # b) s = ApplyToMapLocked b (apply_mutation m s)"
  and ApplyToMapLocked_append: "ApplyToMapLocked (b @ c) s = ApplyToMapLocked c (ApplyToMapLocked b s)"
  by (simp_all add: ApplyToMapLocked_def)

lemma ApplyToMapLocked_mem_inv: "mem_inv s \<Longrightarrow> mem_inv (ApplyToMapLocked b s)"
  by (induction b arbitrary: s) (simp_all add: apply_mutation_mem_inv)

lemma ApplyToMapLocked_find: "map_find (smap (ApplyToMapLocked b s)) = fold mutate b (map_find (smap s))"
  by (induction b arbitrary: s) (simp_all add: apply_mutation_find)

lemma ApplyToMapLocked_frame [simp]:
  "sfd (ApplyToMapLocked b s) = sfd s" "log_bytes (ApplyToMapLocked b s) = log_bytes s"
  "compact_min_bytes (ApplyToMapLocked b s) = compact_min_bytes s"
  by (induction b arbitrary: s) simp_all

lemma ApplyToMapLocked_cong:
  "smap s = smap t \<Longrightarrow> live_bytes s = live_bytes t \<Longrightarrow>
     smap (ApplyToMapLocked b s) = smap (ApplyToMapLocked b t) \<and>
     live_bytes (ApplyToMapLocked b s) = live_bytes (ApplyToMapLocked b t)"
proof (induction b arbitrary: s t)
  case (Cons m b)
  from apply_mutation_cong [OF Cons.prems, of m]
    Cons.IH [of "apply_mutation m s" "apply_mutation m t"] show ?case by simp
qed simp

text \<open>Writing the entries of an ordered map in order rebuilds it.\<close>

abbreviation put_entry :: "bytes \<times> bytes \<Rightarrow> mutation" where
  "put_entry e \<equiv> \<lparr>mop = kPut, mkey = fst e, mvalue = snd e\<rparr>"

lemma map_put_last: "\<forall>x \<in> set m. fst x < k \<Longrightarrow> map_put k v m = m @ [(k, v)]"
  by (induction m) auto

lemma map_find_last: "\<forall>x \<in> set m. fst x < k \<Longrightarrow> map_find m k = None" for k :: "'k::linorder"
  by (auto simp: map_of_eq_None_iff)

lemma apply_put_entries:
  "map_ok (smap s @ m) \<Longrightarrow> smap (ApplyToMapLocked (map put_entry m) s) = smap s @ m \<and>
     live_bytes (ApplyToMapLocked (map put_entry m) s) = live_bytes s + sum_list (map entry_bytes m)"
proof (induction m arbitrary: s)
  case (Cons e m)
  have below: "\<forall>x \<in> set (smap s). fst x < fst e"
    using Cons.prems by (auto simp: map_ok_def sorted_wrt_append)
  let ?s = "apply_mutation (put_entry e) s"
  have s: "smap ?s = smap s @ [e]" "live_bytes ?s = live_bytes s + entry_bytes e"
    using map_find_last [OF below] map_put_last [OF below, of "snd e"]
    by (simp_all add: apply_mutation_def entry_bytes_def)
  with Cons.IH [of ?s] Cons.prems show ?case by simp
qed simp

subsection \<open>The write loop\<close>

lemma WriteAll_appends:
  assumes "WriteAll ws p f = Some (ok, f', ws')" "at_end f"
  shows "\<exists>n \<le> length p. content f' = content f @ take n p \<and> at_end f' \<and> (ok \<longrightarrow> n = length p)"
  using assms
proof (induction ws p f rule: WriteAll.induct)
  case (5 k ws b p f)
  let ?p = "b # p"
  from "5.IH" [of] "5.prems" obtain n where n: "n \<le> length (drop k ?p)"
    "content f' = content (file_write f (take k ?p)) @ take n (drop k ?p)" "at_end f'"
    "ok \<longrightarrow> n = length (drop k ?p)"
    by (auto simp: at_end_file_write)
  have "content f' = content f @ take (min k (length ?p) + n) ?p"
    using n(2) "5.prems"(2) by (simp add: take_add min_def)
  with n show ?case
    by (intro exI [of _ "min k (length ?p) + n"]) (auto simp: min_def)
qed auto

text \<open>Enough written bytes without an error make the loop return with success.\<close>

fun bytes_granted :: "wres list \<Rightarrow> nat" where
  "bytes_granted [] = 0"
| "bytes_granted (Wrote k # ws) = k + bytes_granted ws"
| "bytes_granted (r # ws) = bytes_granted ws"

lemma WriteAll_returns:
  "WErr \<notin> set ws \<Longrightarrow> length p \<le> bytes_granted ws \<Longrightarrow> \<exists>f' ws'. WriteAll ws p f = Some (True, f', ws')"
proof (induction ws p f rule: WriteAll.induct)
  case (5 k ws b p f)
  then have "length (drop k (b # p)) \<le> bytes_granted ws" by auto
  with 5 show ?case by auto
qed auto

subsection \<open>Appending a batch\<close>

text \<open>The log replays, to its last byte, to the store's map.\<close>

definition replays_to :: "bytes \<Rightarrow> store \<Rightarrow> bool" where
  "replays_to d s \<longleftrightarrow>
     (\<exists>s'. ReplayLoop d 0 (empty_store (compact_min_bytes s)) = Inr (length d, s') \<and>
        smap s' = smap s \<and> live_bytes s' = live_bytes s)"

definition small_entries :: "(bytes, bytes) stdmap \<Rightarrow> bool" where
  "small_entries m \<longleftrightarrow> (\<forall>e \<in> set m. entry_bytes e < 2 ^ 31)"

definition small_batch :: "mutation list \<Rightarrow> bool" where
  "small_batch b \<longleftrightarrow> (\<forall>m \<in> set b. length (mkey m) + length (mvalue m) < 2 ^ 31)"

definition log_inv :: "store \<Rightarrow> bool" where
  "log_inv s \<longleftrightarrow>
     (case sfd s of None \<Rightarrow> True
      | Some f \<Rightarrow> at_end f \<and> log_bytes s = length (content f) \<and> replays_to (content f) s)"

definition store_inv :: "store \<Rightarrow> bool" where
  "store_inv s \<longleftrightarrow> mem_inv s \<and> small_entries (smap s) \<and> log_inv s"

lemma replays_to_append:
  assumes "replays_to d s" "record_fits b"
  shows "replays_to (d @ EncodeRecord b) (ApplyToMapLocked b s)"
proof -
  from assms(1) obtain s' where s': "ReplayLoop d 0 (empty_store (compact_min_bytes s)) = Inr (length d, s')"
    "smap s' = smap s" "live_bytes s' = live_bytes s" by (auto simp: replays_to_def)
  with ols_log.consumed_append [OF s'(1) assms(2)] ApplyToMapLocked_cong [of s' s b] show ?thesis
    by (simp add: replays_to_def)
qed

lemma replays_to_cong:
  "smap s = smap t \<Longrightarrow> live_bytes s = live_bytes t \<Longrightarrow> compact_min_bytes s = compact_min_bytes t \<Longrightarrow>
     replays_to d s = replays_to d t"
  by (simp add: replays_to_def)

lemma AppendLocked_ok:
  assumes "AppendLocked e b s = Some (True, s')" "log_inv s" "record_fits b"
  shows "log_inv (ApplyToMapLocked b s')" "smap s' = smap s" "live_bytes s' = live_bytes s"
    "compact_min_bytes s' = compact_min_bytes s" "(sfd s' = None) = (sfd s = None)"
proof -
  show "smap s' = smap s" "live_bytes s' = live_bytes s" "compact_min_bytes s' = compact_min_bytes s"
    "(sfd s' = None) = (sfd s = None)"
    using assms(1) by (auto simp: AppendLocked_def Let_def split: option.splits if_splits)
  show "log_inv (ApplyToMapLocked b s')"
  proof (cases "sfd s")
    case None
    with assms(1) show ?thesis by (simp add: AppendLocked_def log_inv_def)
  next
    case (Some f)
    with assms(1) obtain f' ws where w: "WriteAll (ae_writes e) (EncodeRecord b) f = Some (True, f', ws)"
      and s': "s' = s\<lparr>sfd := Some f', log_bytes := log_bytes s + length (EncodeRecord b)\<rparr>"
      by (auto simp: AppendLocked_def Let_def split: option.splits if_splits)
    from assms(2) Some have f: "at_end f" "log_bytes s = length (content f)" "replays_to (content f) s"
      by (simp_all add: log_inv_def)
    from WriteAll_appends [OF w f(1)] have f': "content f' = content f @ EncodeRecord b" "at_end f'"
      by auto
    have "replays_to (content f') (ApplyToMapLocked b s)"
      unfolding f' by (rule replays_to_append [OF f(3) assms(3)])
    moreover have "smap (ApplyToMapLocked b s') = smap (ApplyToMapLocked b s) \<and>
        live_bytes (ApplyToMapLocked b s') = live_bytes (ApplyToMapLocked b s)"
      by (rule ApplyToMapLocked_cong) (simp_all add: s')
    ultimately show ?thesis
      using f f' by (auto simp: log_inv_def s' intro: replays_to_cong [THEN iffD1, rotated -1])
  qed
qed

lemma AppendLocked_failed:
  assumes "AppendLocked e b s = Some (False, s')" "log_inv s" "ae_ftruncate e"
  shows "s' = s"
proof -
  from assms(1) obtain f f' ok ws where f: "sfd s = Some f"
    and w: "WriteAll (ae_writes e) (EncodeRecord b) f = Some (ok, f', ws)"
    and s': "s' = s\<lparr>sfd := Some (lseek_set (log_bytes s) (ftruncate (log_bytes s) f'))\<rparr>"
    using assms(3) by (auto simp: AppendLocked_def Let_def split: option.splits if_splits)
  from assms(2) f have inv: "at_end f" "log_bytes s = length (content f)" by (simp_all add: log_inv_def)
  from WriteAll_appends [OF w inv(1)] obtain n where "content f' = content f @ take n (EncodeRecord b)"
    by auto
  then have "lseek_set (log_bytes s) (ftruncate (log_bytes s) f') = f"
    using inv by (simp add: lseek_set_def at_end_def ftruncate_append)
  with s' f show ?thesis by simp
qed

lemma AppendLocked_returns:
  assumes "WErr \<notin> set (ae_writes e)" "length (EncodeRecord b) \<le> bytes_granted (ae_writes e)"
  shows "\<exists>s'. AppendLocked e b s = Some (sfd s = None \<or> ae_fsync e, s')"
proof (cases "sfd s")
  case (Some f)
  from WriteAll_returns [OF assms] obtain f' ws' where "WriteAll (ae_writes e) (EncodeRecord b) f = Some (True, f', ws')"
    by blast
  with Some show ?thesis by (simp add: AppendLocked_def)
qed (simp add: AppendLocked_def)

subsection \<open>Compaction\<close>

definition batch_bytes :: "mutation list \<Rightarrow> nat" where
  "batch_bytes b = (\<Sum>m\<leftarrow>b. length (mkey m) + length (mvalue m))"

lemma length_EncodeRecord_le: "length (EncodeRecord b) \<le> 12 + 9 * length b + batch_bytes b"
proof -
  have "(\<Sum>m\<leftarrow>b. length (EncodeMutation m)) \<le> 9 * length b + batch_bytes b"
    by (induction b) (auto simp: length_EncodeMutation batch_bytes_def norm_mutation_def)
  then show ?thesis by (simp add: length_EncodeRecord length_record_body)
qed

text \<open>The rewrite of a map: the file is the records of consecutive chunks of its entries.\<close>

definition rewritten :: "mutation list \<Rightarrow> posix_file \<Rightarrow> posix_file \<Rightarrow> bool" where
  "rewritten ms tf tf' \<longleftrightarrow> at_end tf' \<and>
     (\<exists>rs. content tf' = content tf @ concat (map EncodeRecord rs) \<and> concat rs = ms \<and> list_all record_fits rs)"

lemma rewritten_trans:
  assumes "rewritten a f g" "rewritten b g h"
  shows "rewritten (a @ b) f h"
proof -
  from assms obtain rs rs' where "content g = content f @ concat (map EncodeRecord rs)" "concat rs = a" "list_all record_fits rs"
    "content h = content g @ concat (map EncodeRecord rs')" "concat rs' = b" "list_all record_fits rs'" "at_end h"
    by (auto simp: rewritten_def)
  then show ?thesis unfolding rewritten_def by (intro conjI exI [of _ "rs @ rs'"]) simp_all
qed

lemma flush_ok:
  assumes "flush ms (ok, tf, w, ws) = Some (True, tf', w', ws')"
    and "at_end tf" "ok \<longrightarrow> w = length (content tf)" "record_fits ms"
  shows "ok \<and> rewritten ms tf tf' \<and> w' = length (content tf')"
proof (cases "ms = []")
  case True
  with assms show ?thesis by (auto simp: flush_def rewritten_def intro: exI [of _ "[]"])
next
  case False
  with assms(1) have ok: ok and w: "WriteAll ws (EncodeRecord ms) tf = Some (True, tf', ws')"
    and w': "w' = w + length (EncodeRecord ms)"
    by (auto simp: flush_def Let_def split: if_splits option.splits)
  from WriteAll_appends [OF w assms(2)] have "content tf' = content tf @ EncodeRecord ms" "at_end tf'"
    by auto
  with ok w' assms(3,4) show ?thesis
    unfolding rewritten_def by (intro conjI exI [of _ "[ms]"]) simp_all
qed

lemma flush_at_end:
  assumes "flush ms (ok, tf, w, ws) = Some (ok', tf', w', ws')" "at_end tf"
  shows "at_end tf'"
  using assms WriteAll_appends [of ws "EncodeRecord ms" tf]
  by (auto simp: flush_def Let_def split: if_splits option.splits)

lemma CompactLoop_ok:
  assumes "CompactLoop m ms cb (ok, tf, w, ws) = Some (True, tf', w', ws')"
    and "at_end tf" "ok \<longrightarrow> w = length (content tf)" "map_ok m" "small_entries m"
    and "cb = batch_bytes ms" "cb < 2 ^ 20" "length ms \<le> cb + 1" "ms \<noteq> [] \<longrightarrow> (\<forall>e \<in> set m. fst e \<noteq> [])"
  shows "ok \<and> rewritten (ms @ map put_entry m) tf tf' \<and> w' = length (content tf')"
  using assms
proof (induction m arbitrary: ms cb ok tf w ws)
  case Nil
  then have "record_fits ms" using length_EncodeRecord_le [of ms] by (simp add: record_fits_def)
  with Nil flush_ok [of ms ok tf w ws tf' w' ws'] show ?case by simp
next
  case (Cons e m)
  obtain k v where e: "e = (k, v)" by (cases e)
  let ?ms = "ms @ [put_entry e]" and ?cb = "cb + (length k + length v)"
  have cb: "?cb = batch_bytes ?ms" using Cons.prems(6) by (simp add: batch_bytes_def e)
  have tail: "map_ok m" "small_entries m" "\<forall>x \<in> set m. fst x \<noteq> []"
    using Cons.prems(4,5) by (auto simp: map_ok_Cons small_entries_def)
  have small: "length k + length v < 2 ^ 31" using Cons.prems(5) by (simp add: small_entries_def e entry_bytes_def)
  have len: "length ?ms \<le> ?cb + 1"
    using Cons.prems(8,9) by (cases "ms = []"; cases k) (auto simp: e)
  show ?case
  proof (cases "2 ^ 20 \<le> ?cb")
    case True
    have "record_fits ?ms"
      using length_EncodeRecord_le [of ?ms] Cons.prems(7,8) small cb by (simp add: record_fits_def)
    from True Cons.prems(1) obtain ok1 tf1 w1 ws1 where f: "flush ?ms (ok, tf, w, ws) = Some (ok1, tf1, w1, ws1)"
      and c: "CompactLoop m [] 0 (ok1, tf1, w1, ws1) = Some (True, tf', w', ws')"
      by (auto simp: e split: option.splits)
    have f1: "ok1 \<Longrightarrow> ok \<and> rewritten ?ms tf tf1 \<and> w1 = length (content tf1)"
      using flush_ok [of ?ms ok tf w ws tf1 w1 ws1] f Cons.prems(2,3) \<open>record_fits ?ms\<close> by simp
    have "ok1 \<and> rewritten ([] @ map put_entry m) tf1 tf' \<and> w' = length (content tf')"
      using Cons.IH [OF c flush_at_end [OF f Cons.prems(2)]] f1 tail by (simp add: batch_bytes_def)
    with f1 rewritten_trans [of ?ms tf tf1 "map put_entry m" tf'] show ?thesis by simp
  next
    case False
    then have "CompactLoop m ?ms ?cb (ok, tf, w, ws) = Some (True, tf', w', ws')"
      using Cons.prems(1) by (simp add: e)
    from Cons.IH [OF this Cons.prems(2,3) tail(1,2) cb] False len tail(3) show ?thesis by simp
  qed
qed

lemma fold_batches: "fold ApplyToMapLocked rs s = ApplyToMapLocked (concat rs) s"
  by (induction rs arbitrary: s) (simp_all add: ApplyToMapLocked_append)

lemma MaybeCompactLocked_keeps:
  assumes "MaybeCompactLocked e s = Some (ok, s')" "store_inv s"
  shows "store_inv s'" "smap s' = smap s" "live_bytes s' = live_bytes s"
    "compact_min_bytes s' = compact_min_bytes s" "(sfd s' = None) = (sfd s = None)"
proof -
  show frame: "smap s' = smap s" "live_bytes s' = live_bytes s"
    "compact_min_bytes s' = compact_min_bytes s" "(sfd s' = None) = (sfd s = None)"
    using assms(1) by (auto simp: MaybeCompactLocked_def split: option.splits if_splits)
  from assms(2) have inv: "map_ok (smap s)" "small_entries (smap s)"
    "live_bytes s = sum_list (map entry_bytes (smap s))"
    by (simp_all add: store_inv_def mem_inv_def)
  show "store_inv s'"
  proof (cases "s' = s")
    case False
    then obtain tf w ws where c: "CompactLoop (smap s) [] 0 (True, \<lparr>content = [], pos = 0\<rparr>, 0, ce_writes e) = Some (True, tf, w, ws)"
      and s': "s' = s\<lparr>sfd := Some (lseek_set w tf), log_bytes := w\<rparr>"
      using assms(1) by (auto simp: MaybeCompactLocked_def split: option.splits if_splits)
    have "rewritten ([] @ map put_entry (smap s)) \<lparr>content = [], pos = 0\<rparr> tf \<and> w = length (content tf)"
      using CompactLoop_ok [OF c] inv by (simp add: batch_bytes_def)
    then obtain rs where rs: "content tf = concat (map EncodeRecord rs)" "concat rs = map put_entry (smap s)"
      "list_all record_fits rs" and w: "w = length (content tf)"
      by (auto simp: rewritten_def)
    have "ReplayLoop (content tf) 0 (empty_store (compact_min_bytes s)) =
        Inr (length (content tf), ApplyToMapLocked (map put_entry (smap s)) (empty_store (compact_min_bytes s)))"
      using ols_log.replay_log [OF rs(3), of 0] by (simp add: rs(1,2) fold_batches)
    moreover have "smap (ApplyToMapLocked (map put_entry (smap s)) (empty_store (compact_min_bytes s))) = smap s \<and>
        live_bytes (ApplyToMapLocked (map put_entry (smap s)) (empty_store (compact_min_bytes s))) = live_bytes s"
      using apply_put_entries [of "empty_store (compact_min_bytes s)" "smap s"] inv by (simp add: empty_store_def)
    ultimately have "replays_to (content tf) s" by (simp add: replays_to_def)
    then have "log_inv s'"
      using w frame replays_to_cong [of s' s "content tf"]
      by (simp add: log_inv_def s' lseek_set_def at_end_def)
    with assms(2) frame show ?thesis by (simp add: store_inv_def mem_inv_def)
  qed (use assms in simp)
qed

subsection \<open>Scans\<close>

text \<open>What a scan is asked for: the entries under the prefix strictly between the two bounds, in
  scan order, cut where the limits refuse the next entry.\<close>

definition in_range :: "scan_options \<Rightarrow> bytes \<Rightarrow> bool" where
  "in_range opt k \<longleftrightarrow> prefix (so_prefix opt) k \<and> (start_after opt \<noteq> [] \<longrightarrow> start_after opt < k) \<and>
     (end_before opt \<noteq> [] \<longrightarrow> k < end_before opt)"

definition candidates :: "scan_options \<Rightarrow> (bytes, bytes) stdmap \<Rightarrow> (bytes \<times> bytes) list" where
  "candidates opt m =
     (let c = filter (\<lambda>e. in_range opt (fst e)) m in if so_reverse opt then rev c else c)"

fun page :: "scan_options \<Rightarrow> (bytes \<times> bytes) list \<Rightarrow> (bytes \<times> bytes) list \<Rightarrow> nat \<Rightarrow> (bytes \<times> bytes) list \<times> bool" where
  "page opt [] out n = (out, False)"
| "page opt (e # c) out n = (if scan_full opt out n e then (out, True) else page opt c (out @ [e]) (n + entry_bytes e))"

lemma PrefixMatches_prefix: "PrefixMatches k p \<longleftrightarrow> prefix p k"
  by (auto simp: PrefixMatches_def prefix_def) (metis append_take_drop_id)

lemma ScanForward_page:
  "ScanForward opt m out n =
     page opt (takeWhile (\<lambda>e. prefix (so_prefix opt) (fst e) \<and> (end_before opt \<noteq> [] \<longrightarrow> fst e < end_before opt)) m) out n"
  by (induction m arbitrary: out n) (auto simp: PrefixMatches_prefix entry_bytes_def not_less)

lemma ScanBackward_page:
  "ScanBackward opt m out n =
     page opt (takeWhile (\<lambda>e. prefix (so_prefix opt) (fst e) \<and> (start_after opt \<noteq> [] \<longrightarrow> start_after opt < fst e)) m) out n"
  by (induction m arbitrary: out n) (auto simp: PrefixMatches_prefix entry_bytes_def not_le)

lemma takeWhile_filter_down:
  assumes "map_ok xs" "\<And>a b. a \<in> set xs \<Longrightarrow> b \<in> set xs \<Longrightarrow> fst a < fst b \<Longrightarrow> P b \<Longrightarrow> P a"
  shows "takeWhile P xs = filter P xs"
  using assms
proof (induction xs)
  case (Cons x xs)
  show ?case
  proof (cases "P x")
    case True
    with Cons show ?thesis by (auto simp: map_ok_Cons)
  next
    case False
    then have "\<forall>y \<in> set xs. \<not> P y" using Cons.prems by (fastforce simp: map_ok_Cons)
    with False show ?thesis by simp
  qed
qed simp

lemma takeWhile_rev_filter_up:
  assumes "map_ok xs" "\<And>a b. a \<in> set xs \<Longrightarrow> b \<in> set xs \<Longrightarrow> fst a < fst b \<Longrightarrow> P a \<Longrightarrow> P b"
  shows "takeWhile P (rev xs) = rev (filter P xs)"
  using assms
proof (induction xs rule: rev_induct)
  case (snoc x xs)
  have ok: "map_ok xs" and lt: "\<forall>y \<in> set xs. fst y < fst x"
    using snoc.prems(1) by (auto simp: map_ok_def sorted_wrt_append)
  show ?case
  proof (cases "P x")
    case True
    have "takeWhile P (rev xs) = rev (filter P xs)"
      by (rule snoc.IH [OF ok], rule snoc.prems(2)) auto
    with True show ?thesis by simp
  next
    case False
    then have "\<forall>y \<in> set xs. \<not> P y" using snoc.prems(2) lt by fastforce
    with False show ?thesis by simp
  qed
qed simp

lemma Scan_forward:
  assumes "map_ok m" "\<not> so_reverse opt"
  shows "takeWhile (\<lambda>e. prefix (so_prefix opt) (fst e) \<and> (end_before opt \<noteq> [] \<longrightarrow> fst e < end_before opt))
     (drop (if start_after opt = [] \<or> start_after opt < so_prefix opt
            then lower_bound (so_prefix opt) m else upper_bound (start_after opt) m) m) = candidates opt m"
proof (cases "start_after opt = [] \<or> start_after opt < so_prefix opt")
  case True
  let ?xs = "filter (\<lambda>e. so_prefix opt \<le> fst e) m"
  have "takeWhile (\<lambda>e. prefix (so_prefix opt) (fst e) \<and> (end_before opt \<noteq> [] \<longrightarrow> fst e < end_before opt)) ?xs =
      filter (\<lambda>e. prefix (so_prefix opt) (fst e) \<and> (end_before opt \<noteq> [] \<longrightarrow> fst e < end_before opt)) ?xs"
    using assms(1) by (intro takeWhile_filter_down) (auto simp: map_ok_filter dest: prefix_between [rotated 2])
  with True assms show ?thesis
    by (auto simp: drop_lower_bound candidates_def in_range_def intro!: filter_cong dest: prefix_le)
next
  case False
  let ?xs = "filter (\<lambda>e. start_after opt < fst e) m"
  have "takeWhile (\<lambda>e. prefix (so_prefix opt) (fst e) \<and> (end_before opt \<noteq> [] \<longrightarrow> fst e < end_before opt)) ?xs =
      filter (\<lambda>e. prefix (so_prefix opt) (fst e) \<and> (end_before opt \<noteq> [] \<longrightarrow> fst e < end_before opt)) ?xs"
    using assms(1) False
    by (intro takeWhile_filter_down)
      (auto simp: map_ok_filter not_less, (meson order.strict_implies_order order.trans prefix_between)+)
  with False assms show ?thesis
    by (auto simp: drop_upper_bound candidates_def in_range_def intro!: filter_cong)
qed

lemma length_takeWhile_conj:
  "length (takeWhile (\<lambda>x. P x \<and> Q x) xs) = min (length (takeWhile P xs)) (length (takeWhile Q xs))"
  by (induction xs) auto

lemma prefix_end_takeWhile: "prefix_end p m i = i + length (takeWhile (\<lambda>e. prefix p (fst e)) m)"
  by (induction m arbitrary: i) (auto simp: PrefixMatches_prefix)

lemma prefix_end_eq:
  assumes "map_ok m"
  shows "prefix_end p (drop (lower_bound p m) m) (lower_bound p m) =
    length (takeWhile (\<lambda>e. fst e < p \<or> prefix p (fst e)) m)"
proof -
  have "takeWhile (\<lambda>e. fst e < p \<or> prefix p (fst e)) m =
      takeWhile (\<lambda>e. fst e < p) m @ takeWhile (\<lambda>e. prefix p (fst e)) (dropWhile (\<lambda>e. fst e < p) m)"
    using assms
  proof (induction m)
    case (Cons e m)
    show ?case
    proof (cases "fst e < p")
      case False
      then have "\<forall>x \<in> set (e # m). \<not> fst x < p" using Cons.prems by (auto simp: map_ok_Cons)
      then have "takeWhile (\<lambda>e. fst e < p \<or> prefix p (fst e)) (e # m) = takeWhile (\<lambda>e. prefix p (fst e)) (e # m)"
        by (intro takeWhile_cong) auto
      with False show ?thesis by simp
    qed (use Cons in \<open>simp add: map_ok_Cons\<close>)
  qed simp
  then show ?thesis
    by (simp add: prefix_end_takeWhile lower_bound_def dropWhile_eq_drop [symmetric])
qed

lemma Scan_backward:
  assumes "map_ok m" "so_reverse opt"
  shows "takeWhile (\<lambda>e. prefix (so_prefix opt) (fst e) \<and> (start_after opt \<noteq> [] \<longrightarrow> start_after opt < fst e))
     (rev (takeWhile (\<lambda>e. (fst e < so_prefix opt \<or> prefix (so_prefix opt) (fst e)) \<and>
        (end_before opt \<noteq> [] \<longrightarrow> fst e < end_before opt)) m)) = candidates opt m"
proof -
  let ?D = "\<lambda>e. (fst e < so_prefix opt \<or> prefix (so_prefix opt) (fst e)) \<and>
        (end_before opt \<noteq> [] \<longrightarrow> fst e < end_before opt)"
  let ?U = "\<lambda>e. prefix (so_prefix opt) (fst e) \<and> (start_after opt \<noteq> [] \<longrightarrow> start_after opt < fst e)"
  have D: "takeWhile ?D m = filter ?D m"
    using assms(1)
    by (intro takeWhile_filter_down) (auto simp: not_less dest: prefix_between [rotated 2])
  have "takeWhile ?U (rev (filter ?D m)) = rev (filter ?U (filter ?D m))"
    using assms(1)
    by (intro takeWhile_rev_filter_up) (auto simp: map_ok_filter dest: prefix_le)
  with D assms(2) show ?thesis
    by (auto simp: candidates_def in_range_def intro!: filter_cong)
qed

lemma cut_position:
  assumes "map_ok m" "i \<le> length m" "eb \<le> length m"
  shows "(if i = length m \<or> eb \<noteq> length m \<and> fst (m ! eb) < fst (m ! i) then eb else i) = min i eb"
proof -
  have mono: "fst (m ! a) < fst (m ! b)" if "a < b" "b < length m" for a b
    using assms(1) that by (auto simp: map_ok_def sorted_wrt_iff_nth_less)
  show ?thesis
    using assms(2,3) mono [of eb i] mono [of i eb] by (cases i eb rule: linorder_cases) (auto simp: min_def order_le_less)
qed

lemma Scan_page:
  assumes "map_ok (smap s)"
  shows "Scan s opt = page opt (candidates opt (smap s)) [] 0"
proof (cases "so_reverse opt")
  case False
  then show ?thesis
    using Scan_forward [OF assms False] by (simp add: Scan_def ScanForward_page Let_def)
next
  case True
  let ?m = "smap s"
  let ?D1 = "\<lambda>e. fst e < so_prefix opt \<or> prefix (so_prefix opt) (fst e)"
  let ?D2 = "\<lambda>e. fst e < end_before opt"
  let ?i = "length (takeWhile ?D1 ?m)"
  have i: "prefix_end (so_prefix opt) (drop (lower_bound (so_prefix opt) ?m) ?m) (lower_bound (so_prefix opt) ?m) = ?i"
    by (rule prefix_end_eq [OF assms])
  have eb: "lower_bound (end_before opt) ?m = length (takeWhile ?D2 ?m)" by (simp add: lower_bound_def)
  define j where "j = (if end_before opt \<noteq> [] \<and> (?i = length ?m \<or>
      lower_bound (end_before opt) ?m \<noteq> length ?m \<and> fst (?m ! lower_bound (end_before opt) ?m) < fst (?m ! ?i))
      then lower_bound (end_before opt) ?m else ?i)"
  have "j = length (takeWhile (\<lambda>e. ?D1 e \<and> (end_before opt \<noteq> [] \<longrightarrow> ?D2 e)) ?m)"
  proof (cases "end_before opt = []")
    case False
    then have "j = min ?i (length (takeWhile ?D2 ?m))"
      using cut_position [OF assms length_takeWhile_le length_takeWhile_le, of ?D1 ?D2]
      by (simp only: j_def eb simp_thms if_True)
    with False show ?thesis by (simp add: length_takeWhile_conj)
  qed (simp add: j_def)
  then have "take j ?m = takeWhile (\<lambda>e. ?D1 e \<and> (end_before opt \<noteq> [] \<longrightarrow> ?D2 e)) ?m"
    by (simp only: takeWhile_eq_take [symmetric])
  moreover have "Scan s opt = ScanBackward opt (rev (take j ?m)) [] 0"
    using True by (simp only: Scan_def Let_def i j_def if_False not_True_eq_False)
  ultimately show ?thesis
    using Scan_backward [OF assms True] by (simp only: ScanBackward_page)
qed

subsection \<open>Mutating operations\<close>

lemma set_map_put_subset: "set (map_put k v m) \<subseteq> insert (k, v) (set m)"
  by (induction k v m rule: map_put.induct) (auto split: if_splits)

lemma set_map_erase_subset: "set (map_erase k m) \<subseteq> set m"
  by (auto simp: map_erase_def)

lemma small_entries_apply_mutation:
  "small_entries (smap s) \<Longrightarrow> length (mkey m) + length (mvalue m) < 2 ^ 31 \<Longrightarrow>
     small_entries (smap (apply_mutation m s))"
  using set_map_put_subset [of "mkey m" "mvalue m" "smap s"] set_map_erase_subset [of "mkey m" "smap s"]
  by (cases "map_find (smap s) (mkey m)")
    (auto simp: apply_mutation_def small_entries_def entry_bytes_def Let_def)

lemma small_entries_ApplyToMapLocked:
  "small_entries (smap s) \<Longrightarrow> small_batch b \<Longrightarrow> small_entries (smap (ApplyToMapLocked b s))"
  by (induction b arbitrary: s) (simp_all add: small_batch_def small_entries_apply_mutation)

text \<open>What \<open>Apply\<close> and \<open>DeletePrefix\<close> share: append, update the map, maybe compact.\<close>

lemma append_apply_compact:
  assumes "AppendLocked (append_io e) b s = Some (True, s1)"
    "MaybeCompactLocked (compact_io e) (ApplyToMapLocked b s1) = Some (ok, s2)"
    "store_inv s" "record_fits b" "small_batch b"
  shows "store_inv s2" "map_find (smap s2) = fold mutate b (map_find (smap s))"
    "(sfd s2 = None) = (sfd s = None)"
proof -
  from assms(3) have inv: "log_inv s" "mem_inv s" "small_entries (smap s)" by (simp_all add: store_inv_def)
  note a = AppendLocked_ok [OF assms(1) inv(1) assms(4)]
  have "mem_inv s1" using inv(2) a(2,3) by (simp add: mem_inv_def)
  moreover have "small_entries (smap (ApplyToMapLocked b s1))"
    by (rule small_entries_ApplyToMapLocked) (simp_all add: a(2) inv(3) assms(5))
  ultimately have "store_inv (ApplyToMapLocked b s1)"
    using a(1) by (simp add: store_inv_def ApplyToMapLocked_mem_inv)
  note c = MaybeCompactLocked_keeps [OF assms(2) this]
  show "store_inv s2" by (rule c(1))
  show "map_find (smap s2) = fold mutate b (map_find (smap s))"
    by (simp add: c(2) ApplyToMapLocked_find a(2))
  show "(sfd s2 = None) = (sfd s = None)" using c(5) a(5) by simp
qed

lemma Apply_effect:
  assumes "store_inv s" "record_fits b" "small_batch b" "Apply e b s = Some (ok, s')"
    "ok \<or> ae_ftruncate (append_io e)"
  shows "store_inv s'" "map_find (smap s') = (if ok then fold mutate b else id) (map_find (smap s))"
    "(sfd s' = None) = (sfd s = None)" "\<not> ok \<Longrightarrow> s' = s"
proof -
  have "store_inv s' \<and> map_find (smap s') = (if ok then fold mutate b else id) (map_find (smap s)) \<and>
      (sfd s' = None) = (sfd s = None) \<and> (\<not> ok \<longrightarrow> s' = s)"
  proof (cases "b = []")
    case True
    with assms(1,4) show ?thesis by (simp add: Apply_def)
  next
    case False
    with assms(4) obtain ok1 s1 where a: "AppendLocked (append_io e) b s = Some (ok1, s1)"
      by (auto simp: Apply_def split: option.splits)
    show ?thesis
    proof (cases ok1)
      case True
      with False a assms(4) obtain c where
        m: "MaybeCompactLocked (compact_io e) (ApplyToMapLocked b s1) = Some (c, s')" and ok: "ok"
        by (auto simp: Apply_def split: option.splits)
      from append_apply_compact [OF _ m assms(1,2,3)] a True ok show ?thesis by simp
    next
      case no: False
      with False a assms(4) have *: "\<not> ok" "s' = s1" by (simp_all add: Apply_def)
      with AppendLocked_failed [of "append_io e" b s s1] a no assms(1,5) show ?thesis
        by (simp add: store_inv_def)
    qed
  qed
  then show "store_inv s'" "map_find (smap s') = (if ok then fold mutate b else id) (map_find (smap s))"
    "(sfd s' = None) = (sfd s = None)" "\<not> ok \<Longrightarrow> s' = s" by simp_all
qed

abbreviation del_entry :: "bytes \<times> bytes \<Rightarrow> mutation" where
  "del_entry e \<equiv> \<lparr>mop = kDel, mkey = fst e, mvalue = []\<rparr>"

lemma prefix_dels_takeWhile: "prefix_dels p m = map del_entry (takeWhile (\<lambda>e. prefix p (fst e)) m)"
  by (induction m) (simp_all add: PrefixMatches_prefix)

lemma prefix_dels_filter:
  assumes "map_ok m"
  shows "prefix_dels p (drop (lower_bound p m) m) = map del_entry (filter (\<lambda>e. prefix p (fst e)) m)"
proof -
  have "takeWhile (\<lambda>e. prefix p (fst e)) (filter (\<lambda>e. p \<le> fst e) m) =
      filter (\<lambda>e. prefix p (fst e)) (filter (\<lambda>e. p \<le> fst e) m)"
    using assms by (intro takeWhile_filter_down) (auto simp: map_ok_filter dest: prefix_between [rotated 2])
  also have "\<dots> = filter (\<lambda>e. prefix p (fst e)) m" by (auto intro!: filter_cong dest: prefix_le)
  finally show ?thesis
    using assms by (simp add: prefix_dels_takeWhile drop_lower_bound)
qed

lemma fold_mutate_del: "fold mutate (map del_entry es) t = t |` (- fst ` set es)"
  by (induction es arbitrary: t) (auto simp: mutate_def fun_eq_iff restrict_map_def)

lemma DeletePrefix_effect:
  assumes "store_inv s" "record_fits (map del_entry (filter (\<lambda>e. prefix p (fst e)) (smap s)))"
    "DeletePrefix e p s = Some (r, s')" "isl r \<longrightarrow> ae_ftruncate (append_io e)"
  shows "store_inv s'"
    "isl r \<Longrightarrow> s' = s"
    "\<not> isl r \<Longrightarrow> projr r = length (filter (\<lambda>e. prefix p (fst e)) (smap s))"
    "\<not> isl r \<Longrightarrow> Get s' k = (if prefix p k then None else Get s k)"
proof -
  let ?f = "filter (\<lambda>e. prefix p (fst e)) (smap s)"
  let ?b = "map del_entry ?f"
  have ok: "map_ok (smap s)" using assms(1) by (simp add: store_inv_def mem_inv_def)
  have b: "prefix_dels p (drop (lower_bound p (smap s)) (smap s)) = ?b" by (rule prefix_dels_filter [OF ok])
  have small: "small_batch ?b"
    using assms(1) by (auto simp: store_inv_def small_batch_def small_entries_def entry_bytes_def)
  have find: "fold mutate ?b (map_find (smap s)) k = (if prefix p k then None else Get s k)"
  proof (cases "map_find (smap s) k")
    case (Some v)
    then have "k \<in> fst ` set ?f \<longleftrightarrow> prefix p k" by (force dest: map_of_SomeD)
    with Some show ?thesis by (simp add: fold_mutate_del Get_def restrict_map_def)
  qed (simp add: fold_mutate_del Get_def restrict_map_def)
  have "store_inv s' \<and> (isl r \<longrightarrow> s' = s) \<and> (\<not> isl r \<longrightarrow> projr r = length ?f \<and>
      map_find (smap s') = fold mutate ?b (map_find (smap s)))"
  proof (cases "?b = []")
    case True
    with assms(1,3) b show ?thesis by (auto simp: DeletePrefix_def Let_def)
  next
    case False
    with assms(3) b obtain ok1 s1 where a: "AppendLocked (append_io e) ?b s = Some (ok1, s1)"
      by (auto simp: DeletePrefix_def Let_def split: option.splits)
    show ?thesis
    proof (cases ok1)
      case True
      with False a assms(3) b obtain c where
        m: "MaybeCompactLocked (compact_io e) (ApplyToMapLocked ?b s1) = Some (c, s')" and r: "r = Inr (length ?f)"
        by (auto simp: DeletePrefix_def Let_def split: option.splits)
      from append_apply_compact [OF _ m assms(1,2) small] True a r show ?thesis by simp
    next
      case no: False
      with False a assms(3) b have *: "r = Inl ()" "s' = s1" by (auto simp: DeletePrefix_def Let_def)
      with AppendLocked_failed [of "append_io e" ?b s s1] a no assms(1,4) show ?thesis
        by (simp add: store_inv_def)
    qed
  qed
  with find show "store_inv s'" "isl r \<Longrightarrow> s' = s" "\<not> isl r \<Longrightarrow> projr r = length ?f"
    "\<not> isl r \<Longrightarrow> Get s' k = (if prefix p k then None else Get s k)"
    by (simp_all add: Get_def)
qed

subsection \<open>Opening after a crash\<close>

definition opens_fully :: "open_env \<Rightarrow> bytes \<Rightarrow> bool" where
  "opens_fully e disk \<longleftrightarrow> oe_open e \<and> oe_flock e = FlockOk \<and> oe_fstat e \<and> oe_ftruncate e \<and> oe_lseek e \<and>
     ReadLoop (oe_reads e) (length disk) 0 = Some (length disk)"

lemma ReplayLoop_cong:
  assumes "ReplayLoop d off s = Inr (n, s')" "smap s = smap t" "live_bytes s = live_bytes t"
  shows "\<exists>t'. ReplayLoop d off t = Inr (n, t') \<and> smap t' = smap s' \<and> live_bytes t' = live_bytes s' \<and>
    compact_min_bytes t' = compact_min_bytes t"
  using assms
proof (induction d arbitrary: off s t rule: length_induct)
  case (1 rest)
  show ?case
  proof (cases "length rest < 12")
    case True
    with 1 show ?thesis by (simp add: ReplayLoop_short)
  next
    case len: False
    show ?thesis
    proof (cases "DecodeAt rest")
      case (Parsed batch)
      note cong = ApplyToMapLocked_cong [OF 1(3,4), of batch]
      from DecodeAt_Parsed [OF Parsed] have "length (drop (unat (GetU32 rest)) rest) < length rest" by auto
      moreover have "ReplayLoop (drop (unat (GetU32 rest)) rest) (off + unat (GetU32 rest)) (ApplyToMapLocked batch s) = Inr (n, s')"
        using 1(2) len Parsed by (simp add: ReplayLoop_step [of rest])
      ultimately have "\<exists>t'. ReplayLoop (drop (unat (GetU32 rest)) rest) (off + unat (GetU32 rest)) (ApplyToMapLocked batch t) = Inr (n, t') \<and>
          smap t' = smap s' \<and> live_bytes t' = live_bytes s' \<and> compact_min_bytes t' = compact_min_bytes (ApplyToMapLocked batch t)"
        using 1(1) cong by blast
      with len Parsed show ?thesis by (simp add: ReplayLoop_step [of rest])
    qed (use 1 len in \<open>auto simp: ReplayLoop_step [of rest] split: if_splits\<close>)
  qed
qed

lemma OpenLog_replayed:
  assumes "ReplayLoop (d @ t) 0 (empty_store c) = Inr (length d, s0)" "opens_fully e (d @ t)"
  shows "OpenLog e c (d @ t) =
    Some (Inr (s0\<lparr>sfd := Some \<lparr>content = d, pos = length d\<rparr>, log_bytes := length d\<rparr>), d)"
  using assms by (cases "t = []") (auto simp: OpenLog_def opens_fully_def lseek_set_def Let_def)

text \<open>Opening a file whose valid part replays to a store gives that store back.\<close>

lemma OpenLog_recovers:
  assumes "ReplayLoop (d @ t) 0 (empty_store (compact_min_bytes s)) = Inr (length d, s0)"
    "replays_to d s" "smap s0 = smap s" "live_bytes s0 = live_bytes s"
    "opens_fully e (d @ t)" "mem_inv s" "small_entries (smap s)"
  shows "\<exists>s'. OpenLog e c (d @ t) = Some (Inr s', d) \<and> smap s' = smap s \<and> store_inv s'"
proof -
  from ReplayLoop_cong [OF assms(1), of "empty_store c"] obtain s1 where
    s1: "ReplayLoop (d @ t) 0 (empty_store c) = Inr (length d, s1)"
      "smap s1 = smap s" "live_bytes s1 = live_bytes s" "compact_min_bytes s1 = c"
    using assms(3,4) by (auto simp: empty_store_def)
  from assms(2) obtain s2 where
    s2: "ReplayLoop d 0 (empty_store (compact_min_bytes s)) = Inr (length d, s2)"
      "smap s2 = smap s" "live_bytes s2 = live_bytes s"
    by (auto simp: replays_to_def)
  from ReplayLoop_cong [OF s2(1), of "empty_store c"] s2 s1 have
    "replays_to d (s1\<lparr>sfd := Some \<lparr>content = d, pos = length d\<rparr>, log_bytes := length d\<rparr>)"
    by (auto simp: replays_to_def empty_store_def)
  then have "store_inv (s1\<lparr>sfd := Some \<lparr>content = d, pos = length d\<rparr>, log_bytes := length d\<rparr>)"
    using s1 assms(6,7) by (simp add: store_inv_def mem_inv_def log_inv_def at_end_def)
  with OpenLog_replayed [OF s1(1) assms(5)] s1(2) show ?thesis by auto
qed

lemma OpenLog_torn_or_whole:
  assumes "store_inv s" "sfd s = Some f" "record_fits b" "small_batch b"
    and "opens_fully e (content f @ take n (EncodeRecord b))"
  defines "whole \<equiv> length (EncodeRecord b) \<le> n"
  shows "\<exists>s'. OpenLog e c (content f @ take n (EncodeRecord b)) =
      Some (Inr s', content f @ (if whole then EncodeRecord b else [])) \<and>
    smap s' = smap (if whole then ApplyToMapLocked b s else s) \<and> store_inv s'"
proof -
  from assms(1,2) have inv: "mem_inv s" "small_entries (smap s)" "replays_to (content f) s"
    by (simp_all add: store_inv_def log_inv_def)
  then obtain s0 where s0: "ReplayLoop (content f) 0 (empty_store (compact_min_bytes s)) = Inr (length (content f), s0)"
    "smap s0 = smap s" "live_bytes s0 = live_bytes s" by (auto simp: replays_to_def)
  show ?thesis
  proof (cases whole)
    case False
    then have "n < length (EncodeRecord b)" by (simp add: whole_def)
    from OpenLog_recovers [OF ols_log.consumed_torn [OF s0(1) assms(3) this] inv(3) s0(2,3) assms(5) inv(1,2), of c]
      False show ?thesis by simp
  next
    case True
    let ?d = "content f @ EncodeRecord b" and ?s = "ApplyToMapLocked b s"
    from True have tk: "take n (EncodeRecord b) = EncodeRecord b" by (simp add: whole_def)
    note r = replays_to_append [OF inv(3) assms(3)]
    then obtain s1 where s1: "ReplayLoop (?d @ []) 0 (empty_store (compact_min_bytes ?s)) = Inr (length ?d, s1)"
      "smap s1 = smap ?s" "live_bytes s1 = live_bytes ?s" by (auto simp: replays_to_def)
    from OpenLog_recovers [OF s1(1) r s1(2,3) _ ApplyToMapLocked_mem_inv [OF inv(1)]
        small_entries_ApplyToMapLocked [OF inv(2) assms(4)], of e c] assms(5) True tk
    show ?thesis by simp
  qed
qed


text \<open>A log cut at any byte opens with the batches that are whole in what is left, and no others.\<close>

lemma OpenLog_cut:
  assumes "list_all record_fits bs" "opens_fully e (take n (concat (map EncodeRecord bs)))"
  shows "\<exists>k \<le> length bs. length (concat (map EncodeRecord (take k bs))) \<le> n \<and>
    (k < length bs \<longrightarrow> n < length (concat (map EncodeRecord (take (Suc k) bs)))) \<and>
    (\<exists>s. OpenLog e c (take n (concat (map EncodeRecord bs))) = Some (Inr s, concat (map EncodeRecord (take k bs))) \<and>
       map_find (smap s) = fold mutate (concat (take k bs)) Map.empty)"
proof -
  let ?log = "concat (map EncodeRecord bs)"
  from ols_log.replay_log_cut [OF assms(1), of n "empty_store c"] obtain k where
    k: "k \<le> length bs" "length (concat (map EncodeRecord (take k bs))) \<le> n"
      "k < length bs \<longrightarrow> n < length (concat (map EncodeRecord (take (Suc k) bs)))"
    and r: "ReplayLoop (take n ?log) 0 (empty_store c) =
      Inr (length (concat (map EncodeRecord (take k bs))), fold ApplyToMapLocked (take k bs) (empty_store c))"
    by blast
  let ?d = "concat (map EncodeRecord (take k bs))" and ?t = "take (n - length (concat (map EncodeRecord (take k bs)))) (concat (map EncodeRecord (drop k bs)))"
  have "?log = ?d @ concat (map EncodeRecord (drop k bs))"
    by (simp flip: concat_append map_append)
  then have dt: "take n ?log = ?d @ ?t" using k(2) by simp
  from OpenLog_replayed [OF r [unfolded dt] assms(2) [unfolded dt]] dt
  have "OpenLog e c (take n ?log) = Some (Inr ((fold ApplyToMapLocked (take k bs) (empty_store c))
      \<lparr>sfd := Some \<lparr>content = ?d, pos = length ?d\<rparr>, log_bytes := length ?d\<rparr>), ?d)" by simp
  moreover have "map_find (smap (fold ApplyToMapLocked (take k bs) (empty_store c))) = fold mutate (concat (take k bs)) Map.empty"
    by (simp add: fold_batches ApplyToMapLocked_find empty_store_def)
  ultimately show ?thesis using k by (intro exI [of _ k]) simp
qed

subsection \<open>The operations return\<close>

fun grants :: "wres list \<Rightarrow> nat" where
  "grants [] = 0"
| "grants (Wrote k # ws) = (if k = 0 then 0 else 1) + grants ws"
| "grants (r # ws) = grants ws"

lemma WriteAll_grants:
  "length p + m \<le> grants ws \<Longrightarrow> \<exists>ok f' ws'. WriteAll ws p f = Some (ok, f', ws') \<and> (ok \<longrightarrow> m \<le> grants ws')"
proof (induction ws p f rule: WriteAll.induct)
  case (5 k ws b p f)
  then have "length (drop k (b # p)) + m \<le> grants ws" by (cases k) auto
  with 5 show ?case by auto
qed auto

definition rewrite_bytes :: "(bytes, bytes) stdmap \<Rightarrow> nat" where
  "rewrite_bytes m = (\<Sum>e\<leftarrow>m. entry_bytes e + 21)"

lemma flush_returns:
  assumes "batch_bytes ms + 21 * length ms + n \<le> grants ws \<or> \<not> ok"
  shows "\<exists>ok' tf' w' ws'. flush ms (ok, tf, w, ws) = Some (ok', tf', w', ws') \<and> (n \<le> grants ws' \<or> \<not> ok')"
proof (cases "ms = [] \<or> \<not> ok")
  case True
  with assms show ?thesis by (auto simp: flush_def Let_def)
next
  case False
  then have "length (EncodeRecord ms) \<le> batch_bytes ms + 21 * length ms"
    using length_EncodeRecord_le [of ms] by (cases ms) auto
  with False assms have "length (EncodeRecord ms) + n \<le> grants ws" by auto
  from WriteAll_grants [OF this, of tf] False show ?thesis by (auto simp: flush_def Let_def)
qed

lemma CompactLoop_returns:
  assumes "batch_bytes ms + 21 * length ms + rewrite_bytes m \<le> grants ws \<or> \<not> ok"
  shows "\<exists>r. CompactLoop m ms cb (ok, tf, w, ws) = Some r"
  using assms
proof (induction m arbitrary: ms cb ok tf w ws)
  case Nil
  then show ?case using flush_returns [of ms 0 ws ok tf w] by (auto simp: rewrite_bytes_def)
next
  case (Cons e m)
  obtain k v where e: "e = (k, v)" by (cases e)
  let ?ms = "ms @ [put_entry e]"
  have b: "batch_bytes ?ms + 21 * length ?ms + rewrite_bytes m \<le> grants ws \<or> \<not> ok"
    using Cons.prems by (auto simp: batch_bytes_def rewrite_bytes_def entry_bytes_def)
  from flush_returns [OF b, of tf w] obtain ok' tf' w' ws' where
    "flush ?ms (ok, tf, w, ws) = Some (ok', tf', w', ws')" "rewrite_bytes m \<le> grants ws' \<or> \<not> ok'"
    by blast
  moreover from this Cons.IH [of "[]" ws' ok' 0 tf' w'] have
    "\<exists>r. CompactLoop m [] 0 (ok', tf', w', ws') = Some r" by (simp add: batch_bytes_def)
  ultimately show ?case using Cons.IH [OF b] by (auto simp: e Let_def)
qed

lemma MaybeCompactLocked_returns:
  assumes "rewrite_bytes (smap s) \<le> grants (ce_writes e)"
  shows "MaybeCompactLocked e s \<noteq> None"
proof -
  from CompactLoop_returns [of "[]" "smap s" "ce_writes e" True 0 "\<lparr>content = [], pos = 0\<rparr>" 0] assms
  obtain r where "CompactLoop (smap s) [] 0 (True, \<lparr>content = [], pos = 0\<rparr>, 0, ce_writes e) = Some r"
    by (auto simp: batch_bytes_def)
  then show ?thesis by (cases r) (auto simp: MaybeCompactLocked_def split: option.splits)
qed

lemma AppendLocked_some:
  assumes "length (EncodeRecord b) \<le> grants (ae_writes e)"
  shows "\<exists>ok s'. AppendLocked e b s = Some (ok, s') \<and> smap s' = smap s \<and> live_bytes s' = live_bytes s"
proof (cases "sfd s")
  case (Some f)
  from WriteAll_grants [of "EncodeRecord b" 0 "ae_writes e" f] assms obtain ok f' ws' where
    "WriteAll (ae_writes e) (EncodeRecord b) f = Some (ok, f', ws')" by auto
  with Some show ?thesis by (auto simp: AppendLocked_def Let_def)
qed (auto simp: AppendLocked_def)

lemma Apply_total:
  assumes "length (EncodeRecord b) \<le> grants (ae_writes (append_io e))"
    "rewrite_bytes (smap (ApplyToMapLocked b s)) \<le> grants (ce_writes (compact_io e))"
  shows "Apply e b s \<noteq> None"
proof -
  from AppendLocked_some [OF assms(1)] obtain ok s1 where a: "AppendLocked (append_io e) b s = Some (ok, s1)"
    and m: "smap s1 = smap s" and l: "live_bytes s1 = live_bytes s" by blast
  from ApplyToMapLocked_cong [OF m l, of b] assms(2) MaybeCompactLocked_returns [of "ApplyToMapLocked b s1" "compact_io e"]
  have "MaybeCompactLocked (compact_io e) (ApplyToMapLocked b s1) \<noteq> None" by simp
  with a show ?thesis by (cases ok) (auto simp: Apply_def)
qed

subsection \<open>Acknowledged and failed batches\<close>

lemma WriteAll_no_error:
  "WErr \<notin> set ws \<Longrightarrow> WriteAll ws p f = Some (ok, f', ws') \<Longrightarrow> ok"
  by (induction ws p f rule: WriteAll.induct) auto

lemma Apply_acknowledges:
  assumes "length (EncodeRecord b) \<le> grants (ae_writes (append_io e))"
    "rewrite_bytes (smap (ApplyToMapLocked b s)) \<le> grants (ce_writes (compact_io e))"
    "WErr \<notin> set (ae_writes (append_io e))" "ae_fsync (append_io e)"
  shows "\<exists>s'. Apply e b s = Some (True, s')"
proof (cases "b = []")
  case False
  from Apply_total [OF assms(1,2)] obtain ok s' where r: "Apply e b s = Some (ok, s')" by auto
  have "AppendLocked (append_io e) b s \<noteq> Some (False, t)" for t
    using assms(3,4) by (auto simp: AppendLocked_def Let_def dest: WriteAll_no_error split: option.splits if_splits)
  with r False show ?thesis by (auto simp: Apply_def split: option.splits bool.splits)
qed (simp add: Apply_def)

text \<open>A disk-backed store over a new file, and a kernel that grants every write; both are used to
  instantiate the properties below.\<close>

definition fresh_store :: store where
  "fresh_store = \<lparr>smap = [], sfd = Some \<lparr>content = [], pos = 0\<rparr>, log_bytes = 0, live_bytes = 0,
     compact_min_bytes = 4096\<rparr>"

definition granting :: io_env where
  "granting = \<lparr>append_io = \<lparr>ae_writes = replicate 100 (Wrote 7), ae_fsync = True, ae_ftruncate = True\<rparr>,
     compact_io = \<lparr>ce_open = True, ce_flock = True, ce_writes = replicate 100 (Wrote 7), ce_fsync = True,
       ce_rename = True\<rparr>\<rparr>"

definition reading :: "nat \<Rightarrow> open_env" where
  "reading n = \<lparr>oe_open = True, oe_flock = FlockOk, oe_fstat = True, oe_reads = [REintr, RGot n],
     oe_ftruncate = True, oe_lseek = True\<rparr>"

lemma store_inv_fresh: "store_inv fresh_store"
  by (simp add: fresh_store_def store_inv_def mem_inv_def map_ok_def small_entries_def log_inv_def
      at_end_def replays_to_def ReplayLoop_short empty_store_def)

lemma grants_granting [simp]:
  "grants (replicate n (Wrote (Suc k))) = n"
  by (induction n) simp_all

lemma opens_fully_reading: "opens_fully (reading (length d)) d"
  by (cases "d = []") (simp_all add: opens_fully_def reading_def ReadLoop.simps)

lemma Apply_granting:
  assumes "batch_bytes b + 12 + 9 * length b \<le> 100" "rewrite_bytes (smap (ApplyToMapLocked b s)) \<le> 100"
  shows "\<exists>s'. Apply granting b s = Some (True, s')"
  using length_EncodeRecord_le [of b] assms
  by (intro Apply_acknowledges) (simp_all add: granting_def numeral_eq_Suc)

lemma record_fits_small: "batch_bytes b + 12 + 9 * length b < 2 ^ 32 \<Longrightarrow> record_fits b"
  using length_EncodeRecord_le [of b] by (simp add: record_fits_def)

subsection \<open>Properties\<close>

text \<open>C1: \<open>Apply\<close> is atomic and durable-or-undone. If it reports success, the map is the old one with
  the whole batch applied in order; if it reports failure (and the kernel let it roll the file
  back) the store is the old one. Either way the invariant holds: the map is ordered, \<open>live_bytes\<close> is
  the sum of the entries' sizes, and the log file replays to its last byte to exactly this map.\<close>

theorem Apply_correct:
  assumes "store_inv s" "record_fits b" "small_batch b" "Apply e b s = Some (ok, s')"
    and "ok \<or> ae_ftruncate (append_io e)"
  shows "store_inv s' \<and> Get s' = (if ok then fold mutate b (Get s) else Get s) \<and> (\<not> ok \<longrightarrow> s' = s)"
  using Apply_effect [OF assms] by (auto simp: Get_def [abs_def])

theorem Apply_correct_witness:
  "\<exists>s'. Apply granting [\<lparr>mop = kPut, mkey = [97], mvalue = [120]\<rparr>, \<lparr>mop = kDel, mkey = [98], mvalue = []\<rparr>] fresh_store =
      Some (True, s') \<and> store_inv s' \<and> Get s' [97] = Some [120] \<and> Get s' [98] = None"
proof -
  let ?b = "[\<lparr>mop = kPut, mkey = [97], mvalue = [120]\<rparr>, \<lparr>mop = kDel, mkey = [98], mvalue = []\<rparr>] :: mutation list"
  have "batch_bytes ?b + 12 + 9 * length ?b \<le> 100" by (simp add: batch_bytes_def)
  moreover have "rewrite_bytes (smap (ApplyToMapLocked ?b fresh_store)) \<le> 100"
    by (simp add: fresh_store_def apply_mutation_def rewrite_bytes_def entry_bytes_def)
  ultimately obtain s' where r: "Apply granting ?b fresh_store = Some (True, s')"
    using Apply_granting by blast
  have "record_fits ?b" by (rule record_fits_small) (simp add: batch_bytes_def)
  from Apply_correct [OF store_inv_fresh this _ r] r show ?thesis
    by (simp add: small_batch_def mutate_def)
qed

text \<open>C33: \<open>Apply\<close> returns: once the kernel has granted as many non-empty writes as the record (and, when
  the log is compacted, the rewritten log) has bytes, however it interleaves short writes and
  interruptions, the call is over; and with no write error and a working fsync it reports success.\<close>

theorem Apply_returns:
  assumes "length (EncodeRecord b) \<le> grants (ae_writes (append_io e))"
    "rewrite_bytes (smap (ApplyToMapLocked b s)) \<le> grants (ce_writes (compact_io e))"
  shows "\<exists>ok s'. Apply e b s = Some (ok, s') \<and>
    (WErr \<notin> set (ae_writes (append_io e)) \<and> ae_fsync (append_io e) \<longrightarrow> ok)"
proof -
  from Apply_total [OF assms] obtain ok s' where r: "Apply e b s = Some (ok, s')" by auto
  with Apply_acknowledges [OF assms] show ?thesis by auto
qed

theorem Apply_returns_witness:
  "\<exists>s'. Apply granting [\<lparr>mop = kPut, mkey = [97], mvalue = [120]\<rparr>] fresh_store = Some (True, s')"
proof -
  let ?b = "[\<lparr>mop = kPut, mkey = [97], mvalue = [120]\<rparr>] :: mutation list"
  have "length (EncodeRecord ?b) \<le> grants (ae_writes (append_io granting))"
    using length_EncodeRecord_le [of ?b] by (simp add: granting_def numeral_eq_Suc batch_bytes_def)
  moreover have "rewrite_bytes (smap (ApplyToMapLocked ?b fresh_store)) \<le> grants (ce_writes (compact_io granting))"
    by (simp add: fresh_store_def apply_mutation_def rewrite_bytes_def entry_bytes_def granting_def numeral_eq_Suc)
  ultimately show ?thesis
    using Apply_returns [of ?b granting fresh_store] by (auto simp: granting_def)
qed


text \<open>Crash atomicity. If the machine stops while a batch is being appended, leaving any prefix of the
  batch's record after the log of a store, then opening the file gives back the store with the whole
  batch when the whole record reached the disk and without any of it otherwise. The file is cut
  back to whole records, and the invariant holds for the recovered store.\<close>

theorem OpenLog_after_crash:
  assumes "store_inv s" "sfd s = Some f" "record_fits b" "small_batch b"
    and "opens_fully e (content f @ take n (EncodeRecord b))"
  shows "\<exists>s'. OpenLog e c (content f @ take n (EncodeRecord b)) =
      Some (Inr s', content f @ (if length (EncodeRecord b) \<le> n then EncodeRecord b else [])) \<and>
    Get s' = (if length (EncodeRecord b) \<le> n then fold mutate b (Get s) else Get s) \<and> store_inv s'"
  using OpenLog_torn_or_whole [OF assms, of c] by (auto simp: Get_def [abs_def] ApplyToMapLocked_find)

theorem OpenLog_after_crash_witness:
  "\<exists>s'. OpenLog (reading 5) 0 (take 5 (EncodeRecord [\<lparr>mop = kPut, mkey = [97], mvalue = [120]\<rparr>])) = Some (Inr s', []) \<and>
     Get s' [97] = None \<and> store_inv s'"
proof -
  let ?b = "[\<lparr>mop = kPut, mkey = [97], mvalue = [120]\<rparr>] :: mutation list"
  have len: "length (EncodeRecord ?b) = 23"
    by (simp add: length_EncodeRecord record_body_def length_EncodeMutation norm_mutation_def)
  have "sfd fresh_store = Some \<lparr>content = [], pos = 0\<rparr>" "small_batch ?b" "record_fits ?b" "Get fresh_store [97] = None"
    using len by (simp_all add: fresh_store_def small_batch_def record_fits_def Get_def)
  with OpenLog_after_crash [OF store_inv_fresh, of "\<lparr>content = [], pos = 0\<rparr>" ?b "reading 5" 5 0] len
    opens_fully_reading [of "take 5 (EncodeRecord ?b)"]
  show ?thesis by auto
qed

text \<open>C24: A log of any number of batches that is cut at any byte opens with exactly the batches whose
  records are whole in the part that is left: none is lost, none is half applied.\<close>

theorem OpenLog_any_cut:
  assumes "list_all record_fits bs" "opens_fully e (take n (concat (map EncodeRecord bs)))"
  shows "\<exists>k \<le> length bs. length (concat (map EncodeRecord (take k bs))) \<le> n \<and>
    (k < length bs \<longrightarrow> n < length (concat (map EncodeRecord (take (Suc k) bs)))) \<and>
    (\<exists>s. OpenLog e c (take n (concat (map EncodeRecord bs))) = Some (Inr s, concat (map EncodeRecord (take k bs))) \<and>
       Get s = fold mutate (concat (take k bs)) Map.empty)"
  using OpenLog_cut [OF assms, of c] by (simp add: Get_def [abs_def])

theorem OpenLog_any_cut_witness:
  "\<exists>s. OpenLog (reading 30) 0 (take 30 (concat (map EncodeRecord
        [[\<lparr>mop = kPut, mkey = [97], mvalue = [120]\<rparr>], [\<lparr>mop = kPut, mkey = [98], mvalue = [121]\<rparr>]]))) =
      Some (Inr s, EncodeRecord [\<lparr>mop = kPut, mkey = [97], mvalue = [120]\<rparr>]) \<and> Get s [97] = Some [120] \<and> Get s [98] = None"
proof -
  let ?a = "[\<lparr>mop = kPut, mkey = [97], mvalue = [120]\<rparr>] :: mutation list"
  let ?b = "[\<lparr>mop = kPut, mkey = [98], mvalue = [121]\<rparr>] :: mutation list"
  have len: "length (EncodeRecord ?a) = 23" "length (EncodeRecord ?b) = 23"
    by (simp_all add: length_EncodeRecord record_body_def length_EncodeMutation norm_mutation_def)
  then have "list_all record_fits [?a, ?b]" by (simp add: record_fits_def)
  moreover have "opens_fully (reading 30) (take 30 (concat (map EncodeRecord [?a, ?b])))"
    using opens_fully_reading [of "take 30 (concat (map EncodeRecord [?a, ?b]))"] len by simp
  ultimately obtain k s where k: "k \<le> length [?a, ?b]" "length (concat (map EncodeRecord (take k [?a, ?b]))) \<le> 30"
    "k < length [?a, ?b] \<longrightarrow> 30 < length (concat (map EncodeRecord (take (Suc k) [?a, ?b])))"
    and s: "OpenLog (reading 30) 0 (take 30 (concat (map EncodeRecord [?a, ?b]))) =
        Some (Inr s, concat (map EncodeRecord (take k [?a, ?b])))"
      "Get s = fold mutate (concat (take k [?a, ?b])) Map.empty"
    using OpenLog_any_cut [of "[?a, ?b]" "reading 30" 30 0] by blast
  consider "k = 0" | "k = 1" | "k = 2" using k(1) by force
  then have "k = 1" using k(2,3) len by cases simp_all
  with s show ?thesis by (simp add: mutate_def)
qed

subsection \<open>Reading and deleting\<close>

text \<open>Where a page ends.\<close>

definition page_ends :: "scan_options \<Rightarrow> (bytes \<times> bytes) list \<Rightarrow> (bytes \<times> bytes) list \<Rightarrow> nat \<Rightarrow> nat \<Rightarrow> bool" where
  "page_ends opt c out n k \<longleftrightarrow> k \<le> length c \<and> page opt c out n = (out @ take k c, k < length c) \<and>
     (so_limit opt \<noteq> 0 \<and> length out \<le> so_limit opt \<longrightarrow> length out + k \<le> so_limit opt) \<and>
     (max_bytes opt \<noteq> 0 \<and> k \<noteq> 0 \<and> length out + k > 1 \<longrightarrow>
        n + (\<Sum>e\<leftarrow>take k c. entry_bytes e) \<le> max_bytes opt) \<and>
     (k < length c \<longrightarrow> scan_full opt (out @ take k c) (n + (\<Sum>e\<leftarrow>take k c. entry_bytes e)) (c ! k))"

lemma page_cut: "\<exists>k. page_ends opt c out n k"
proof (induction c arbitrary: out n)
  case Nil
  then show ?case by (intro exI [of _ 0]) (simp add: page_ends_def)
next
  case (Cons e c)
  show ?case
  proof (cases "scan_full opt out n e")
    case True
    then show ?thesis by (intro exI [of _ 0]) (simp add: page_ends_def)
  next
    case False
    from Cons.IH obtain k where k: "page_ends opt c (out @ [e]) (n + entry_bytes e) k" by blast
    have "max_bytes opt \<noteq> 0 \<and> out \<noteq> [] \<longrightarrow> n + entry_bytes e \<le> max_bytes opt"
      "so_limit opt \<noteq> 0 \<longrightarrow> length out + 1 \<le> so_limit opt"
      using False by (auto simp: scan_full_def entry_bytes_def)
    with False k have "page_ends opt (e # c) out n (Suc k)"
      unfolding page_ends_def by (cases "k = 0"; cases "out = []") (simp_all add: add.assoc)
    then show ?thesis by blast
  qed
qed

lemma scan_full_nonempty: "scan_full opt [] n e \<Longrightarrow> False"
  by (auto simp: scan_full_def)

text \<open>C6: \<open>Scan\<close> returns what it is asked for. With the candidates being the entries under the prefix
  strictly between \<open>start_after\<close> and \<open>end_before\<close>, in key order or in reverse, the answer is their first
  \<open>k\<close>, and \<open>has_more\<close> says whether any are left. At most \<open>limit\<close> entries are returned, their bytes
  stay within \<open>max_bytes\<close> unless a single entry exceeds it, at least one entry is returned when there
  is one, and the page ends early only where the next entry would break a limit.\<close>

theorem Scan_correct:
  fixes s :: store and opt :: scan_options
  assumes "map_ok (smap s)"
  defines "c \<equiv> candidates opt (smap s)"
  shows "\<exists>k \<le> length c. Scan s opt = (take k c, k < length c) \<and>
    (so_limit opt \<noteq> 0 \<longrightarrow> k \<le> so_limit opt) \<and>
    (max_bytes opt \<noteq> 0 \<and> 1 < k \<longrightarrow> (\<Sum>e\<leftarrow>take k c. entry_bytes e) \<le> max_bytes opt) \<and>
    (c \<noteq> [] \<longrightarrow> 0 < k) \<and>
    (k < length c \<longrightarrow> so_limit opt \<noteq> 0 \<and> k = so_limit opt \<or>
       max_bytes opt \<noteq> 0 \<and> max_bytes opt < (\<Sum>e\<leftarrow>take (Suc k) c. entry_bytes e))"
proof -
  from page_cut obtain k where "page_ends opt c [] 0 k" by blast
  then have k: "k \<le> length c" "page opt c [] 0 = (take k c, k < length c)"
    "so_limit opt \<noteq> 0 \<longrightarrow> k \<le> so_limit opt"
    "max_bytes opt \<noteq> 0 \<and> 1 < k \<longrightarrow> (\<Sum>e\<leftarrow>take k c. entry_bytes e) \<le> max_bytes opt"
    and full: "k < length c \<longrightarrow> scan_full opt (take k c) (\<Sum>e\<leftarrow>take k c. entry_bytes e) (c ! k)"
    by (simp_all add: page_ends_def)
  have "c \<noteq> [] \<longrightarrow> 0 < k" using full scan_full_nonempty [of opt 0 "c ! 0"] by (cases k) auto
  moreover have "k < length c \<longrightarrow> so_limit opt \<noteq> 0 \<and> k = so_limit opt \<or>
       max_bytes opt \<noteq> 0 \<and> max_bytes opt < (\<Sum>e\<leftarrow>take (Suc k) c. entry_bytes e)"
    using full k(1,3) by (auto simp: scan_full_def take_Suc_conv_app_nth entry_bytes_def min_def split: if_splits)
  ultimately show ?thesis using k Scan_page [OF assms(1), of opt] by (intro exI [of _ k]) (simp add: c_def)
qed

theorem Scan_correct_witness:
  "Scan \<lparr>smap = [([97], [1]), ([97, 1], [2]), ([97, 2], [3]), ([98], [4])], sfd = None, log_bytes = 0, live_bytes = 8,
       compact_min_bytes = 0\<rparr>
     \<lparr>so_prefix = [97], start_after = [], end_before = [], so_limit = 2, max_bytes = 0, so_reverse = True\<rparr> =
     ([([97, 2], [3]), ([97, 1], [2])], True)"
proof -
  let ?m = "[([97], [1]), ([97, 1], [2]), ([97, 2], [3]), ([98], [4])] :: (bytes, bytes) stdmap"
  let ?opt = "\<lparr>so_prefix = [97], start_after = [], end_before = [], so_limit = 2, max_bytes = 0, so_reverse = True\<rparr>"
  let ?s = "\<lparr>smap = ?m, sfd = None, log_bytes = 0, live_bytes = 8, compact_min_bytes = 0\<rparr>"
  have "map_ok (smap ?s)" by (simp add: map_ok_def)
  moreover have "candidates ?opt ?m = [([97, 2], [3]), ([97, 1], [2]), ([97], [1])]"
    by (simp add: candidates_def in_range_def)
  ultimately obtain k where k: "k \<le> 3" "k < 3 \<longrightarrow> k = 2" "k \<le> 2"
    and s: "Scan ?s ?opt = (take k [([97, 2], [3]), ([97, 1], [2]), ([97], [1])], k < 3)"
    using Scan_correct [of ?s ?opt] by auto
  from k have "k = 2" by auto
  with s show ?thesis by simp
qed


lemma drop_sorted_filter:
  assumes "map_ok xs" "0 < k" "k \<le> length xs"
  shows "drop k xs = filter (\<lambda>e. fst (xs ! (k - 1)) < fst e) xs"
proof -
  from assms(2,3) have xs: "xs = take (k - 1) xs @ xs ! (k - 1) # drop k xs"
    by (metis Suc_pred' id_take_nth_drop less_eq_Suc_le)
  have "map_ok (take (k - 1) xs @ xs ! (k - 1) # drop k xs)" using assms(1) xs by simp
  then have "\<forall>e \<in> set (take (k - 1) xs). \<not> fst (xs ! (k - 1)) < fst e" "\<forall>e \<in> set (drop k xs). fst (xs ! (k - 1)) < fst e"
    by (auto simp: map_ok_def sorted_wrt_append)
  then have "filter (\<lambda>e. fst (xs ! (k - 1)) < fst e) (take (k - 1) xs @ xs ! (k - 1) # drop k xs) = drop k xs"
    by simp
  with xs show ?thesis by simp
qed

text \<open>Paging by the last key loses nothing and repeats nothing: the candidates of a forward scan
  resumed strictly after the \<open>k\<close>-th candidate are the candidates from there on, as long as that key is
  not the empty string (which \<open>start_after\<close> cannot express).\<close>

theorem Scan_resume:
  assumes "map_ok m" "\<not> so_reverse opt" "0 < k" "k \<le> length (candidates opt m)"
    and "fst (candidates opt m ! (k - 1)) \<noteq> []"
  shows "candidates (opt\<lparr>start_after := fst (candidates opt m ! (k - 1))\<rparr>) m = drop k (candidates opt m)"
proof -
  let ?c = "candidates opt m"
  have c: "?c = filter (\<lambda>e. in_range opt (fst e)) m" using assms(2) by (simp add: candidates_def)
  have "in_range opt (fst (?c ! (k - 1)))" using assms(3,4) nth_mem [of "k - 1" ?c] by (auto simp: c)
  then have "in_range (opt\<lparr>start_after := fst (?c ! (k - 1))\<rparr>) x \<longleftrightarrow> in_range opt x \<and> fst (?c ! (k - 1)) < x" for x
    using assms(5) by (auto simp: in_range_def)
  then have "candidates (opt\<lparr>start_after := fst (?c ! (k - 1))\<rparr>) m = filter (\<lambda>e. fst (?c ! (k - 1)) < fst e) ?c"
    using assms(2) by (simp add: candidates_def conj_commute)
  with drop_sorted_filter [of ?c k] assms(1,3,4) c show ?thesis by (simp add: map_ok_filter)
qed

theorem Scan_resume_witness:
  "candidates \<lparr>so_prefix = [97], start_after = [97, 1], end_before = [], so_limit = 2, max_bytes = 0, so_reverse = False\<rparr>
     [([97], [1]), ([97, 1], [2]), ([97, 2], [3]), ([98], [4])] = [([97, 2], [3])]"
proof -
  let ?m = "[([97], [1]), ([97, 1], [2]), ([97, 2], [3]), ([98], [4])] :: (bytes, bytes) stdmap"
  let ?opt = "\<lparr>so_prefix = [97], start_after = [], end_before = [], so_limit = 2, max_bytes = 0, so_reverse = False\<rparr>"
  have c: "candidates ?opt ?m = [([97], [1]), ([97, 1], [2]), ([97, 2], [3])]"
    by (simp add: candidates_def in_range_def)
  have "map_ok ?m" by (simp add: map_ok_def)
  from Scan_resume [OF this, of ?opt 2] show ?thesis unfolding c by simp
qed

text \<open>C32: \<open>DeletePrefix\<close> removes exactly the keys under the prefix. When it succeeds it returns their
  number, every key under the prefix is gone and every other key keeps its value; when the append
  fails the store is unchanged. The invariant holds in both cases.\<close>

theorem DeletePrefix_correct:
  assumes "store_inv s" "record_fits (map del_entry (filter (\<lambda>e. prefix p (fst e)) (smap s)))"
    and "DeletePrefix e p s = Some (r, s')" "isl r \<longrightarrow> ae_ftruncate (append_io e)"
  shows "store_inv s' \<and>
    (case r of Inl u \<Rightarrow> s' = s
     | Inr n \<Rightarrow> n = length (filter (\<lambda>e. prefix p (fst e)) (smap s)) \<and>
         (\<forall>k. Get s' k = (if prefix p k then None else Get s k)))"
  using DeletePrefix_effect [OF assms] by (cases r) auto

theorem DeletePrefix_correct_witness:
  "\<exists>s'. DeletePrefix granting [97] \<lparr>smap = [([97, 1], [2]), ([98], [4])], sfd = None, log_bytes = 0, live_bytes = 5,
       compact_min_bytes = 0\<rparr> = Some (Inr 1, s') \<and> Get s' [97, 1] = None \<and> Get s' [98] = Some [4]"
proof -
  let ?s = "\<lparr>smap = [([97, 1], [2]), ([98], [4])], sfd = None, log_bytes = 0, live_bytes = 5, compact_min_bytes = 0\<rparr> :: store"
  have inv: "store_inv ?s" by (simp add: store_inv_def mem_inv_def map_ok_def entry_bytes_def small_entries_def log_inv_def)
  have fits: "record_fits (map del_entry (filter (\<lambda>e. prefix [97] (fst e)) (smap ?s)))"
    by (rule record_fits_small) (simp add: batch_bytes_def)
  obtain s' where d: "DeletePrefix granting [97] ?s = Some (Inr 1, s')"
    by (simp add: DeletePrefix_def prefix_dels_filter map_ok_def AppendLocked_def MaybeCompactLocked_def Let_def)
  with DeletePrefix_correct [OF inv fits d] show ?thesis by (auto simp: Get_def)
qed

text \<open>Decoding a record body that was read back gives the batch that was encoded (a deletion's value,
  which is not written, comes back empty).\<close>

theorem DecodeBody_roundtrip:
  assumes "record_fits b"
  shows "DecodeBody (take (length (EncodeRecord b) - 8) (drop 4 (EncodeRecord b))) = Parsed (map norm_mutation b)"
proof -
  have "take (length (EncodeRecord b) - 8) (drop 4 (EncodeRecord b)) = record_body b"
    by (simp add: length_EncodeRecord EncodeRecord_frame drop_exact)
  with DecodeBody_record_body [OF assms] show ?thesis by simp
qed

theorem DecodeBody_roundtrip_witness:
  "DecodeBody (take (length (EncodeRecord [\<lparr>mop = kDel, mkey = [7, 8], mvalue = [9]\<rparr>]) - 8)
     (drop 4 (EncodeRecord [\<lparr>mop = kDel, mkey = [7, 8], mvalue = [9]\<rparr>]))) = Parsed [\<lparr>mop = kDel, mkey = [7, 8], mvalue = []\<rparr>]"
  using DecodeBody_roundtrip [of "[\<lparr>mop = kDel, mkey = [7, 8], mvalue = [9]\<rparr>]"]
    record_fits_small [of "[\<lparr>mop = kDel, mkey = [7, 8], mvalue = [9]\<rparr>]"]
  by (simp add: batch_bytes_def norm_mutation_def)

text \<open>\<open>DecodeBody\<close> never reads outside its buffer, whatever the bytes are.\<close>

theorem DecodeBody_memory_safe: "DecodeBody p \<noteq> OutOfBounds"
  by (rule DecodeBody_in_bounds)

text \<open>A read error while opening destroys acknowledged batches. The read loop stops at the first
  error and the code goes on with the bytes it has; if they end inside a record, that record looks like
  a torn tail, and the file, intact on disk, is truncated to the records before it.\<close>

theorem OpenLog_read_error_truncates:
  assumes "record_fits a" "record_fits b" "0 < n" "n < length (EncodeRecord b)"
    and "e = \<lparr>oe_open = True, oe_flock = FlockOk, oe_fstat = True,
           oe_reads = [RGot (length (EncodeRecord a) + n), RStop], oe_ftruncate = True, oe_lseek = True\<rparr>"
  shows "\<exists>s. OpenLog e c (EncodeRecord a @ EncodeRecord b) = Some (Inr s, EncodeRecord a) \<and>
    Get s = fold mutate a Map.empty"
proof -
  let ?a = "EncodeRecord a" and ?b = "EncodeRecord b"
  let ?s = "ApplyToMapLocked a (empty_store c)"
  have read: "ReadLoop (oe_reads e) (length (?a @ ?b)) 0 = Some (length ?a + n)"
    using assms(3,4) by (auto simp: assms(5) ReadLoop.simps min_def)
  have "ReplayLoop (?a @ take n ?b) 0 (empty_store c) = Inr (length ?a, ?s)"
    using assms(1,2,4) by (simp add: ReplayLoop_record ReplayLoop_torn)
  with read assms(3,4) have "OpenLog e c (?a @ ?b) =
      Some (Inr (?s\<lparr>sfd := Some \<lparr>content = ?a, pos = length ?a\<rparr>, log_bytes := length ?a\<rparr>), ?a)"
    by (simp add: OpenLog_def Let_def lseek_set_def assms(5))
  then show ?thesis by (simp add: Get_def [abs_def] ApplyToMapLocked_find empty_store_def)
qed

theorem OpenLog_read_error_truncates_witness:
  "\<exists>s. OpenLog \<lparr>oe_open = True, oe_flock = FlockOk, oe_fstat = True, oe_reads = [RGot 24, RStop], oe_ftruncate = True,
        oe_lseek = True\<rparr> 0 (EncodeRecord [\<lparr>mop = kPut, mkey = [97], mvalue = [120]\<rparr>] @
          EncodeRecord [\<lparr>mop = kPut, mkey = [98], mvalue = [121]\<rparr>]) =
      Some (Inr s, EncodeRecord [\<lparr>mop = kPut, mkey = [97], mvalue = [120]\<rparr>]) \<and> Get s [98] = None"
proof -
  let ?a = "[\<lparr>mop = kPut, mkey = [97], mvalue = [120]\<rparr>] :: mutation list"
  let ?b = "[\<lparr>mop = kPut, mkey = [98], mvalue = [121]\<rparr>] :: mutation list"
  have len: "length (EncodeRecord ?a) = 23" "length (EncodeRecord ?b) = 23"
    by (simp_all add: length_EncodeRecord record_body_def length_EncodeMutation norm_mutation_def)
  from OpenLog_read_error_truncates [OF _ _ _ _ refl, of ?a ?b 1 0] len show ?thesis
    by (auto simp: record_fits_def mutate_def)
qed

end
