(* ===== verification/KvStore.thy ===== *)
theory KvStore
  imports OrderedLogStore
begin

section \<open>The ordered key-value interface\<close>

text \<open>
  What the session service relies on in its store: an ordered map whose batches are atomic, whose
  prefix deletion removes exactly the prefix, and whose scans are pages of the map. The client's
  lemmas are proved from these laws; the interpretation at the end discharges them for the ordered
  log store.
\<close>

subsection \<open>Entries under a prefix\<close>

definition underp :: "bytes \<Rightarrow> (bytes, bytes) stdmap \<Rightarrow> (bytes, bytes) stdmap" where
  "underp p m = filter (\<lambda>e. prefix p (fst e)) m"

definition run_mutation :: "mutation \<Rightarrow> (bytes, bytes) stdmap \<Rightarrow> (bytes, bytes) stdmap" where
  "run_mutation m t = (if mop m = kPut then map_put (mkey m) (mvalue m) t else map_erase (mkey m) t)"

definition run :: "mutation list \<Rightarrow> (bytes, bytes) stdmap \<Rightarrow> (bytes, bytes) stdmap" where
  "run b t = fold run_mutation b t"

lemma run_simps [simp]: "run [] t = t" "run (m # b) t = run b (run_mutation m t)"
  by (simp_all add: run_def)

lemma map_ok_run [simp]: "map_ok t \<Longrightarrow> map_ok (run b t)"
  by (induction b arbitrary: t) (simp_all add: run_mutation_def map_ok_erase)

lemma map_find_run: "map_find (run b t) = fold mutate b (map_find t)"
  by (induction b arbitrary: t) (simp_all add: run_mutation_def mutate_def)

lemma map_ok_underp [simp]: "map_ok m \<Longrightarrow> map_ok (underp p m)"
  by (simp add: underp_def map_ok_filter)

lemma underp_put:
  assumes "map_ok m"
  shows "underp p (map_put k v m) = (if prefix p k then map_put k v (underp p m) else underp p m)"
  using assms
  by (intro map_ok_ext) (auto simp: underp_def map_ok_filter map_find_filter fun_eq_iff)

lemma underp_erase:
  assumes "map_ok m"
  shows "underp p (map_erase k m) = (if prefix p k then map_erase k (underp p m) else underp p m)"
  using assms
  by (intro map_ok_ext) (auto simp: underp_def map_ok_filter map_find_filter map_ok_erase fun_eq_iff)

lemma underp_run_frame:
  "map_ok t \<Longrightarrow> \<forall>m \<in> set b. \<not> prefix p (mkey m) \<Longrightarrow> underp p (run b t) = underp p t"
  by (induction b arbitrary: t) (simp_all add: run_mutation_def underp_put underp_erase map_ok_erase)

text \<open>Puts under the prefix, in increasing key order and above what is there, extend the run.\<close>

lemma underp_run_append:
  assumes "map_ok t" "\<forall>e \<in> set es. prefix p (fst e)" "sorted_wrt (\<lambda>a b. fst a < fst b) (underp p t @ es)"
  shows "underp p (run (map put_entry es) t) = underp p t @ es"
  using assms
proof (induction es arbitrary: t)
  case (Cons e es)
  have "\<forall>x \<in> set (underp p t). fst x < fst e" using Cons.prems(3) by (simp add: sorted_wrt_append)
  then have "map_put (fst e) (snd e) (underp p t) = underp p t @ [e]"
    using map_put_last [of "underp p t" "fst e" "snd e"] by simp
  with Cons.prems have u: "underp p (map_put (fst e) (snd e) t) = underp p t @ [e]" by (simp add: underp_put)
  have "underp p (run (map put_entry es) (map_put (fst e) (snd e) t)) = underp p (map_put (fst e) (snd e) t) @ es"
    by (rule Cons.IH) (use Cons.prems u in simp_all)
  with u show ?case by (simp add: run_mutation_def)
qed simp

lemma map_find_underp: "map_ok m \<Longrightarrow> prefix p k \<Longrightarrow> map_find (underp p m) k = map_find m k"
  by (simp add: underp_def map_find_filter)

subsection \<open>The contract\<close>

abbreviation prefix_scan :: "bytes \<Rightarrow> nat \<Rightarrow> bool \<Rightarrow> scan_options" where
  "prefix_scan p n r \<equiv> \<lparr>so_prefix = p, start_after = [], end_before = [], so_limit = n, max_bytes = 0, so_reverse = r\<rparr>"

locale ordered_kv =
  fixes kv_inv :: "'s \<Rightarrow> bool"
    and view :: "'s \<Rightarrow> (bytes, bytes) stdmap"
    and apply_batch :: "'e \<Rightarrow> mutation list \<Rightarrow> 's \<Rightarrow> (bool \<times> 's) option"
    and delete_prefix :: "'e \<Rightarrow> bytes \<Rightarrow> 's \<Rightarrow> ((unit + nat) \<times> 's) option"
    and scan :: "'s \<Rightarrow> scan_options \<Rightarrow> (bytes \<times> bytes) list \<times> bool"
    and fits :: "mutation list \<Rightarrow> bool"
    and rolls_back :: "'e \<Rightarrow> bool"
  assumes view_ok: "kv_inv s \<Longrightarrow> map_ok (view s)"
    and apply_law: "kv_inv s \<Longrightarrow> fits b \<Longrightarrow> rolls_back e \<Longrightarrow> apply_batch e b s = Some (ok, s') \<Longrightarrow>
      kv_inv s' \<and> view s' = (if ok then run b (view s) else view s)"
    and delete_law: "kv_inv s \<Longrightarrow> fits (map del_entry (underp p (view s))) \<Longrightarrow> rolls_back e \<Longrightarrow>
      delete_prefix e p s = Some (r, s') \<Longrightarrow>
      kv_inv s' \<and> (case r of Inl u \<Rightarrow> view s' = view s
         | Inr n \<Rightarrow> n = length (underp p (view s)) \<and> view s' = filter (\<lambda>e. \<not> prefix p (fst e)) (view s))"
    and scan_law: "kv_inv s \<Longrightarrow> scan s opt = page opt (candidates opt (view s)) [] 0"
begin

lemma page_limit_reached:
  "so_limit opt \<noteq> 0 \<Longrightarrow> so_limit opt \<le> length out \<Longrightarrow> fst (page opt c out n) = out"
  by (cases c) (simp_all add: scan_full_def)

lemma scan_last:
  assumes "kv_inv s"
  shows "fst (scan s (prefix_scan p 1 True)) = (if underp p (view s) = [] then [] else [last (underp p (view s))])"
proof -
  have c: "candidates (prefix_scan p n True) (view s) = rev (underp p (view s))" for n
    by (simp add: candidates_def in_range_def underp_def)
  show ?thesis
    by (cases "underp p (view s)" rule: rev_cases)
      (auto simp: scan_law [OF assms] c scan_full_def page_limit_reached)
qed

lemma scan_first:
  assumes "kv_inv s"
  shows "fst (scan s (prefix_scan p 1 False)) = take 1 (underp p (view s))"
proof -
  have c: "candidates (prefix_scan p n False) (view s) = underp p (view s)" for n
    by (simp add: candidates_def in_range_def underp_def)
  show ?thesis
    by (cases "underp p (view s)"; cases "tl (underp p (view s))") (auto simp: scan_law [OF assms] c scan_full_def)
qed

lemma page_unlimited: "so_limit opt = 0 \<Longrightarrow> max_bytes opt = 0 \<Longrightarrow> page opt c out n = (out @ c, False)"
  by (induction c arbitrary: out n) (simp_all add: scan_full_def)

lemma scan_all:
  assumes "kv_inv s"
  shows "scan s (prefix_scan p 0 False) = (underp p (view s), False)"
  by (simp add: scan_law [OF assms] page_unlimited candidates_def in_range_def underp_def)

lemma apply_under_frame:
  assumes "kv_inv s" "fits b" "rolls_back e" "apply_batch e b s = Some (ok, s')" "\<forall>m \<in> set b. \<not> prefix p (mkey m)"
  shows "underp p (view s') = underp p (view s)"
  using apply_law [OF assms(1-4)] view_ok [OF assms(1)] underp_run_frame [OF _ assms(5)] by (simp split: if_splits)

lemma delete_under:
  assumes "kv_inv s" "fits (map del_entry (underp p (view s)))" "rolls_back e" "delete_prefix e p s = Some (Inr n, s')"
  shows "underp p (view s') = []" "\<forall>x. \<not> (prefix p x \<and> prefix q x) \<Longrightarrow> underp q (view s') = underp q (view s)"
proof -
  from delete_law [OF assms] have v: "view s' = filter (\<lambda>e. \<not> prefix p (fst e)) (view s)" by simp
  then show "underp p (view s') = []" by (auto simp: underp_def filter_empty_conv)
  from v show "underp q (view s') = underp q (view s)" if "\<forall>x. \<not> (prefix p x \<and> prefix q x)"
    using that by (auto simp: underp_def intro!: filter_cong)
qed

end

subsection \<open>The ordered log store keeps it\<close>

definition batch_fits :: "mutation list \<Rightarrow> bool" where
  "batch_fits b \<longleftrightarrow> record_fits b \<and> small_batch b"

definition rolls_back :: "io_env \<Rightarrow> bool" where
  "rolls_back e \<longleftrightarrow> ae_ftruncate (append_io e)"

interpretation ols_kv: ordered_kv store_inv smap Apply DeletePrefix Scan batch_fits rolls_back
proof
  fix s :: store assume "store_inv s"
  then show "map_ok (smap s)" by (simp add: store_inv_def mem_inv_def)
next
  fix s b e ok s'
  assume a: "store_inv s" "batch_fits b" "rolls_back e" "Apply e b s = Some (ok, s')"
  then have "store_inv s'" "map_find (smap s') = (if ok then fold mutate b else id) (map_find (smap s))" "\<not> ok \<Longrightarrow> s' = s"
    using Apply_effect [of s b e ok s'] by (simp_all add: batch_fits_def rolls_back_def)
  moreover from this a(1) have "map_ok (smap s')" "map_ok (smap s)" by (simp_all add: store_inv_def mem_inv_def)
  ultimately show "store_inv s' \<and> smap s' = (if ok then run b (smap s) else smap s)"
    by (auto intro!: map_ok_ext simp: map_find_run)
next
  fix s p e r s'
  assume a: "store_inv s" "batch_fits (map del_entry (underp p (smap s)))" "rolls_back e" "DeletePrefix e p s = Some (r, s')"
  then have d: "store_inv s'" "isl r \<Longrightarrow> s' = s" "\<not> isl r \<Longrightarrow> projr r = length (underp p (smap s))"
    "\<And>k. \<not> isl r \<Longrightarrow> Get s' k = (if prefix p k then None else Get s k)"
    using DeletePrefix_effect [of s p e r s'] by (simp_all add: batch_fits_def rolls_back_def underp_def)
  moreover from d(1) a(1) have "map_ok (smap s')" "map_ok (smap s)" by (simp_all add: store_inv_def mem_inv_def)
  ultimately show "store_inv s' \<and> (case r of Inl u \<Rightarrow> smap s' = smap s
      | Inr n \<Rightarrow> n = length (underp p (smap s)) \<and> smap s' = filter (\<lambda>e. \<not> prefix p (fst e)) (smap s))"
    using map_find_filter [of "smap s" "\<lambda>k. \<not> prefix p k"]
    by (cases r) (auto intro!: map_ok_ext simp: map_ok_filter Get_def fun_eq_iff)
next
  fix s opt assume "store_inv s"
  then show "Scan s opt = page opt (candidates opt (smap s)) [] 0"
    by (intro Scan_page) (simp add: store_inv_def mem_inv_def)
qed

end
