(* ===== verification/StdString.thy ===== *)
theory StdString
  imports Prelude
begin

section \<open>Operations of \<open>std::string\<close>\<close>

text \<open>
  Strings of the code are byte lists. \<open>lit\<close> is a string literal; \<open>find_char\<close> and \<open>find_sub\<close> are
  \<open>std::string::find\<close> of a character from a position and of a substring from the start, with \<open>None\<close>
  for \<open>npos\<close>; \<open>substr\<close> and \<open>substr_len\<close> are the one- and two-argument \<open>substr\<close>.
\<close>

definition lit :: "string \<Rightarrow> bytes" where
  "lit s = map of_char s"

fun find_char_from :: "byte \<Rightarrow> bytes \<Rightarrow> nat \<Rightarrow> nat option" where
  "find_char_from c [] i = None"
| "find_char_from c (x # xs) i = (if x = c then Some i else find_char_from c xs (Suc i))"

definition find_char :: "bytes \<Rightarrow> byte \<Rightarrow> nat \<Rightarrow> nat option" where
  "find_char s c start = find_char_from c (drop start s) start"

fun find_sub_from :: "bytes \<Rightarrow> bytes \<Rightarrow> nat \<Rightarrow> nat option" where
  "find_sub_from pat [] i = (if pat = [] then Some i else None)"
| "find_sub_from pat (x # xs) i =
     (if take (length pat) (x # xs) = pat then Some i else find_sub_from pat xs (Suc i))"

definition find_sub :: "bytes \<Rightarrow> bytes \<Rightarrow> nat option" where
  "find_sub s pat = find_sub_from pat s 0"

definition substr :: "bytes \<Rightarrow> nat \<Rightarrow> bytes" where
  "substr s start = drop start s"

definition substr_len :: "bytes \<Rightarrow> nat \<Rightarrow> nat \<Rightarrow> bytes" where
  "substr_len s start n = take n (drop start s)"

definition starts_with :: "bytes \<Rightarrow> bytes \<Rightarrow> bool" where
  "starts_with s p \<longleftrightarrow> take (length p) s = p"

lemma starts_with_prefix: "starts_with s p \<longleftrightarrow> prefix p s"
  by (metis append_eq_conv_conj prefix_def starts_with_def take_is_prefix)

lemma lit_simps [simp]: "lit [] = []" "lit (c # s) = of_char c # lit s" "length (lit s) = length s"
  by (simp_all add: lit_def)

lemma find_char_from_None: "find_char_from c xs i = None \<longleftrightarrow> c \<notin> set xs"
  by (induction c xs i rule: find_char_from.induct) auto

lemma find_char_from_Some:
  "find_char_from c xs i = Some j \<Longrightarrow> \<exists>ys zs. xs = ys @ c # zs \<and> c \<notin> set ys \<and> j = i + length ys"
proof (induction c xs i rule: find_char_from.induct)
  case (2 c x xs i)
  show ?case
  proof (cases "x = c")
    case True
    with 2 show ?thesis by (auto intro: exI [of _ "[]"])
  next
    case False
    with 2 obtain ys zs where "xs = ys @ c # zs" "c \<notin> set ys" "j = Suc i + length ys" by auto
    with False show ?thesis by (intro exI [of _ "x # ys"] exI [of _ zs]) auto
  qed
qed simp

lemma find_char_from_append [simp]:
  "c \<notin> set ys \<Longrightarrow> find_char_from c (ys @ c # zs) i = Some (i + length ys)"
  by (induction ys arbitrary: i) auto

lemma find_sub_from_Some:
  "find_sub_from pat xs i = Some j \<Longrightarrow> \<exists>ys zs. xs = ys @ pat @ zs \<and> j = i + length ys"
proof (induction pat xs i rule: find_sub_from.induct)
  case (1 pat i)
  then show ?case by (auto split: if_splits)
next
  case (2 pat x xs i)
  show ?case
  proof (cases "take (length pat) (x # xs) = pat")
    case True
    then have "x # xs = [] @ pat @ drop (length pat) (x # xs)"
      by (metis append_Nil append_take_drop_id)
    moreover have "j = i + length []" using True 2 by simp
    ultimately show ?thesis by blast
  next
    case False
    with 2 obtain ys zs where "xs = ys @ pat @ zs" "j = Suc i + length ys" by auto
    then show ?thesis by (intro exI [of _ "x # ys"] exI [of _ zs]) auto
  qed
qed

lemma find_sub_from_None: "find_sub_from pat xs i = None \<Longrightarrow> xs \<noteq> ys @ pat @ zs"
proof (induction pat xs i arbitrary: ys rule: find_sub_from.induct)
  case (2 pat x xs i)
  then show ?case by (cases ys) (auto split: if_splits)
qed (auto split: if_splits)

end
