(* ===== verification/BlobStore.thy ===== *)
theory BlobStore
  imports ByteCodec StdString StdMap PosixFile
begin

section \<open>The blob store\<close>

text \<open>
  \<open>session/blob_store.{h,cpp}\<close>: named byte streams, one file per blob in a directory or one map entry
  when the store has no directory. The directory is a map from file names to contents. BLAKE3 is
  third-party code: \<open>b3\<close>, the 256-bit hash, is a parameter of \<open>PathFor\<close> and of everything that uses
  it. A writer's destructor is \<open>DiskDestroy\<close>. The random part of a temporary file's name and the
  kernel's answers are inputs.
\<close>

unbundle bit_operations_syntax

subsection \<open>Data\<close>

record blob_store =
  bs_dir :: bool
  bs_mem :: "(bytes, bytes) stdmap"
  bs_files :: "(bytes, bytes) stdmap"

record disk_writer =
  dw_fd :: "posix_file option"
  dw_tmp :: bytes
  dw_final :: bytes
  dw_size :: nat
  dw_committed :: bool

record mem_writer =
  mw_key :: bytes
  mw_buf :: bytes
  mw_done :: bool

datatype blob_writer = DiskWriter disk_writer | MemWriter mem_writer

definition kMaxBlobBytes :: nat where
  "kMaxBlobBytes = 4 * 2 ^ 30"

definition kTmpPrefix :: bytes where
  "kTmpPrefix = lit ''.tmp-''"

subsection \<open>The writer of a file\<close>

fun DiskWriteLoop :: "wres list \<Rightarrow> bytes \<Rightarrow> posix_file \<Rightarrow> nat \<Rightarrow> (bool \<times> posix_file \<times> nat \<times> wres list) option" where
  "DiskWriteLoop ws [] f sz = Some (True, f, sz, ws)"
| "DiskWriteLoop [] (b # p) f sz = None"
| "DiskWriteLoop (WEintr # ws) (b # p) f sz = DiskWriteLoop ws (b # p) f sz"
| "DiskWriteLoop (WErr # ws) (b # p) f sz = Some (False, f, sz, ws)"
| "DiskWriteLoop (Wrote k # ws) (b # p) f sz =
     DiskWriteLoop ws (drop k (b # p)) (file_write f (take k (b # p))) (sz + length (take k (b # p)))"

definition DiskWrite :: "wres list \<Rightarrow> bytes \<Rightarrow> disk_writer \<Rightarrow> blob_store \<Rightarrow> (bool \<times> disk_writer \<times> blob_store \<times> wres list) option" where
  "DiskWrite ws data w s =
     (case dw_fd w of None \<Rightarrow> Some (False, w, s, ws) | Some f \<Rightarrow>
        if dw_size w + length data > kMaxBlobBytes then Some (False, w\<lparr>dw_fd := None\<rparr>, s, ws)
        else case DiskWriteLoop ws data f (dw_size w) of None \<Rightarrow> None | Some (ok, f', sz, ws') \<Rightarrow>
          Some (ok, w\<lparr>dw_fd := (if ok then Some f' else None), dw_size := sz\<rparr>,
                s\<lparr>bs_files := map_put (dw_tmp w) (content f') (bs_files s)\<rparr>, ws'))"

definition rename :: "bytes \<Rightarrow> bytes \<Rightarrow> (bytes, bytes) stdmap \<Rightarrow> (bytes, bytes) stdmap" where
  "rename a b files = (case map_find files a of None \<Rightarrow> files | Some c \<Rightarrow> map_put b c (map_erase a files))"

text \<open>The answers to \<open>fsync\<close> and \<open>rename\<close>; a failing \<open>rename\<close> leaves the directory as it is.\<close>

record commit_env =
  cm_fsync :: bool
  cm_rename :: bool

definition DiskCommit :: "commit_env \<Rightarrow> disk_writer \<Rightarrow> blob_store \<Rightarrow> bool \<times> disk_writer \<times> blob_store" where
  "DiskCommit e w s =
     (case dw_fd w of None \<Rightarrow> (False, w, s) | Some f \<Rightarrow>
        if \<not> cm_fsync e then (False, w\<lparr>dw_fd := None\<rparr>, s)
        else if \<not> cm_rename e then (False, w\<lparr>dw_fd := None\<rparr>, s)
        else (True, w\<lparr>dw_fd := None, dw_committed := True\<rparr>,
              s\<lparr>bs_files := rename (dw_tmp w) (dw_final w) (bs_files s)\<rparr>))"

definition DiskDestroy :: "disk_writer \<Rightarrow> blob_store \<Rightarrow> blob_store" where
  "DiskDestroy w s =
     (if \<not> dw_committed w then s\<lparr>bs_files := map_erase (dw_tmp w) (bs_files s)\<rparr> else s)"

subsection \<open>The writer of a map entry\<close>

definition MemWrite :: "bytes \<Rightarrow> mem_writer \<Rightarrow> bool \<times> mem_writer" where
  "MemWrite data w =
     (if mw_done w then (False, w)
      else if length (mw_buf w) + length data > kMaxBlobBytes then (False, w\<lparr>mw_done := True\<rparr>)
      else (True, w\<lparr>mw_buf := mw_buf w @ data\<rparr>))"

definition MemCommit :: "mem_writer \<Rightarrow> blob_store \<Rightarrow> bool \<times> mem_writer \<times> blob_store" where
  "MemCommit w s =
     (if mw_done w then (False, w, s)
      else (True, w\<lparr>mw_done := True\<rparr>, s\<lparr>bs_mem := map_put (mw_key w) (mw_buf w) (bs_mem s)\<rparr>))"

subsection \<open>Either writer\<close>

definition WriterWrite :: "wres list \<Rightarrow> bytes \<Rightarrow> blob_writer \<Rightarrow> blob_store \<Rightarrow> (bool \<times> blob_writer \<times> blob_store \<times> wres list) option" where
  "WriterWrite ws data w s =
     (case w of
        DiskWriter d \<Rightarrow>
          (case DiskWrite ws data d s of None \<Rightarrow> None
           | Some (ok, d', s', ws') \<Rightarrow> Some (ok, DiskWriter d', s', ws'))
      | MemWriter m \<Rightarrow> (case MemWrite data m of (ok, m') \<Rightarrow> Some (ok, MemWriter m', s, ws)))"

definition WriterCommit :: "commit_env \<Rightarrow> blob_writer \<Rightarrow> blob_store \<Rightarrow> bool \<times> blob_writer \<times> blob_store" where
  "WriterCommit e w s =
     (case w of
        DiskWriter d \<Rightarrow> (case DiskCommit e d s of (ok, d', s') \<Rightarrow> (ok, DiskWriter d', s'))
      | MemWriter m \<Rightarrow> (case MemCommit m s of (ok, m', s') \<Rightarrow> (ok, MemWriter m', s')))"

definition WriterDestroy :: "blob_writer \<Rightarrow> blob_store \<Rightarrow> blob_store" where
  "WriterDestroy w s = (case w of DiskWriter d \<Rightarrow> DiskDestroy d s | MemWriter m \<Rightarrow> s)"

subsection \<open>The store\<close>

text \<open>\<open>Open\<close>: with a directory, the files a crash left behind are removed; \<open>created\<close> is whether the
  directory could be created.\<close>

definition BlobOpen :: "bool \<Rightarrow> bool \<Rightarrow> (bytes, bytes) stdmap \<Rightarrow> blob_store option" where
  "BlobOpen has_dir created files =
     (if \<not> has_dir then Some \<lparr>bs_dir = False, bs_mem = [], bs_files = files\<rparr>
      else if \<not> created then None
      else Some \<lparr>bs_dir = True, bs_mem = [], bs_files = filter (\<lambda>e. \<not> starts_with (fst e) kTmpPrefix) files\<rparr>)"

definition MemKey :: "bytes \<Rightarrow> bytes \<Rightarrow> bytes" where
  "MemKey tenant name = PutU32 (of_nat (length tenant)) @ tenant @ name"

definition kHex :: bytes where
  "kHex = lit ''0123456789abcdef''"

definition hex :: "bytes \<Rightarrow> bytes" where
  "hex d = concat (map (\<lambda>b. [kHex ! unat (drop_bit 4 b), kHex ! unat (b AND 15)]) d)"

definition PathFor :: "(bytes \<Rightarrow> bytes) \<Rightarrow> bytes \<Rightarrow> bytes \<Rightarrow> bytes" where
  "PathFor b3 tenant name = hex (b3 (MemKey tenant name))"

text \<open>\<open>suffix\<close> is the counter and the random number of the temporary name; the file is opened
  exclusively, so an existing name is a failure.\<close>

record create_env =
  cr_suffix :: bytes
  cr_open :: bool

definition BlobCreate :: "(bytes \<Rightarrow> bytes) \<Rightarrow> create_env \<Rightarrow> bytes \<Rightarrow> bytes \<Rightarrow> blob_store \<Rightarrow> (blob_writer \<times> blob_store) option" where
  "BlobCreate b3 e tenant name s =
     (if \<not> bs_dir s then Some (MemWriter \<lparr>mw_key = MemKey tenant name, mw_buf = [], mw_done = False\<rparr>, s)
      else
        let tmp = kTmpPrefix @ cr_suffix e
        in if \<not> cr_open e \<or> map_find (bs_files s) tmp \<noteq> None then None
           else Some (DiskWriter \<lparr>dw_fd = Some \<lparr>content = [], pos = 0\<rparr>, dw_tmp = tmp,
                          dw_final = PathFor b3 tenant name, dw_size = 0, dw_committed = False\<rparr>,
                      s\<lparr>bs_files := map_put tmp [] (bs_files s)\<rparr>))"

subsection \<open>Reading\<close>

definition kChunk :: nat where
  "kChunk = 2 ^ 20"

text \<open>The outcome of a read: whether it succeeded, whether an error message was set, and the chunks
  given to the sink. The sink's answers are inputs.\<close>

datatype read_result = ReadResult bool bool "bytes list"

function MemReadLoop :: "bool list \<Rightarrow> bytes \<Rightarrow> nat \<Rightarrow> bytes list \<Rightarrow> read_result option" where
  "MemReadLoop oks blob off out =
     (if \<not> (off < length blob \<or> off = 0) then Some (ReadResult True False out)
      else
        let n = min kChunk (length blob - off)
        in if n = 0 then Some (ReadResult True False out)
           else case oks of
                  [] \<Rightarrow> None
                | ok # oks' \<Rightarrow>
                    if \<not> ok then Some (ReadResult False True (out @ [take n (drop off blob)]))
                    else MemReadLoop oks' blob (off + kChunk) (out @ [take n (drop off blob)]))"
  by pat_completeness auto
termination
  by (relation "measure (\<lambda>(oks, blob, off, out). length oks)") auto

declare MemReadLoop.simps [simp del]

fun DiskReadLoop :: "rres list \<Rightarrow> bool list \<Rightarrow> bytes \<Rightarrow> nat \<Rightarrow> bytes list \<Rightarrow> read_result option" where
  "DiskReadLoop rs oks blob off out =
     (if off \<ge> length blob then Some (ReadResult True False out)
      else case rs of
             [] \<Rightarrow> None
           | REintr # rs' \<Rightarrow> DiskReadLoop rs' oks blob off out
           | RStop # rs' \<Rightarrow> Some (ReadResult False True out)
           | RGot k # rs' \<Rightarrow>
               let n = min (min k kChunk) (length blob - off)
               in if n = 0 then Some (ReadResult True False out)
                  else case oks of
                         [] \<Rightarrow> None
                       | ok # oks' \<Rightarrow>
                           if \<not> ok then Some (ReadResult False True (out @ [take n (drop off blob)]))
                           else DiskReadLoop rs' oks' blob (off + n) (out @ [take n (drop off blob)]))"

declare DiskReadLoop.simps [simp del]

record read_env =
  rd_open :: bool
  rd_reads :: "rres list"
  rd_sink :: "bool list"

definition BlobRead :: "(bytes \<Rightarrow> bytes) \<Rightarrow> read_env \<Rightarrow> bytes \<Rightarrow> bytes \<Rightarrow> blob_store \<Rightarrow> read_result option" where
  "BlobRead b3 e tenant name s =
     (if \<not> bs_dir s
      then (case map_find (bs_mem s) (MemKey tenant name) of
              None \<Rightarrow> Some (ReadResult False False [])
            | Some blob \<Rightarrow> MemReadLoop (rd_sink e) blob 0 [])
      else case map_find (bs_files s) (PathFor b3 tenant name) of
             None \<Rightarrow> Some (ReadResult False False [])
           | Some blob \<Rightarrow>
               if \<not> rd_open e then Some (ReadResult False True [])
               else DiskReadLoop (rd_reads e) (rd_sink e) blob 0 [])"

definition BlobSize :: "(bytes \<Rightarrow> bytes) \<Rightarrow> bool \<Rightarrow> bytes \<Rightarrow> bytes \<Rightarrow> blob_store \<Rightarrow> nat option" where
  "BlobSize b3 stat_ok tenant name s =
     (if \<not> bs_dir s then map_option length (map_find (bs_mem s) (MemKey tenant name))
      else if stat_ok then map_option length (map_find (bs_files s) (PathFor b3 tenant name))
      else None)"

definition BlobDelete :: "(bytes \<Rightarrow> bytes) \<Rightarrow> bool \<Rightarrow> bytes \<Rightarrow> bytes \<Rightarrow> blob_store \<Rightarrow> bool \<times> blob_store" where
  "BlobDelete b3 unlink_ok tenant name s =
     (if \<not> bs_dir s
      then (map_find (bs_mem s) (MemKey tenant name) \<noteq> None,
            s\<lparr>bs_mem := map_erase (MemKey tenant name) (bs_mem s)\<rparr>)
      else if unlink_ok \<and> map_find (bs_files s) (PathFor b3 tenant name) \<noteq> None
      then (True, s\<lparr>bs_files := map_erase (PathFor b3 tenant name) (bs_files s)\<rparr>)
      else (False, s))"

subsection \<open>Names\<close>

lemma MemKey_inject:
  assumes "length t < 2 ^ 32" "length t' < 2 ^ 32"
  shows "MemKey t n = MemKey t' n' \<longleftrightarrow> t = t' \<and> n = n'"
proof
  assume k: "MemKey t n = MemKey t' n'"
  then have "GetU32 (MemKey t n) = GetU32 (MemKey t' n')" by simp
  then have "(of_nat (length t) :: u32) = of_nat (length t')" by (simp add: MemKey_def)
  with assms have "length t = length t'" by (metis unat_u32_of_nat)
  with k show "t = t' \<and> n = n'" by (simp add: MemKey_def)
qed simp

lemma nibbles_inject:
  assumes "drop_bit 4 a = drop_bit 4 (b :: byte)" "a AND 15 = b AND 15"
  shows "a = b"
proof (rule bit_word_eqI)
  fix i assume "i < LENGTH(8)"
  have m: "x AND 15 = take_bit 4 x" for x :: byte by (simp add: take_bit_eq_mask mask_eq_exp_minus_1)
  show "bit a i \<longleftrightarrow> bit b i"
  proof (cases "i < 4")
    case True
    with assms(2) show ?thesis unfolding m by (metis bit_take_bit_iff)
  next
    case False
    then have "bit a i = bit (drop_bit 4 a) (i - 4)" "bit b i = bit (drop_bit 4 b) (i - 4)"
      by (simp_all add: bit_drop_bit_eq)
    with assms(1) show ?thesis by simp
  qed
qed

lemma nibble_less: "unat (drop_bit 4 (b :: byte)) < 16" "unat (b AND 15) < 16"
proof -
  have "unat b < 256" using unsigned_less [of b] by simp
  then show "unat (drop_bit 4 b) < 16" by (simp add: drop_bit_eq_div unat_div)
  have "b AND 15 \<le> 15" by (rule word_and_le1)
  then show "unat (b AND 15) < 16" by (simp add: word_le_nat_alt)
qed

lemma kHex_inject: "i < 16 \<Longrightarrow> j < 16 \<Longrightarrow> kHex ! i = kHex ! j \<longleftrightarrow> i = j"
proof -
  have "distinct kHex" "length kHex = 16" by (simp_all add: kHex_def of_char_def)
  then show "i < 16 \<Longrightarrow> j < 16 \<Longrightarrow> kHex ! i = kHex ! j \<longleftrightarrow> i = j" by (simp add: nth_eq_iff_index_eq)
qed

lemma hex_inject: "hex a = hex b \<longleftrightarrow> a = b"
proof
  show "hex a = hex b \<Longrightarrow> a = b"
  proof (induction a arbitrary: b)
    case Nil
    then show ?case by (cases b) (simp_all add: hex_def)
  next
    case (Cons x a)
    then obtain y c where b: "b = y # c" by (cases b) (simp_all add: hex_def)
    with Cons.prems have u: "unat (drop_bit 4 x) = unat (drop_bit 4 y)" "unat (x AND 15) = unat (y AND 15)"
      and "hex a = hex c"
      by (simp_all add: hex_def kHex_inject nibble_less)
    from nibbles_inject [OF unsigned_word_eqI [OF u(1)] unsigned_word_eqI [OF u(2)]] have "x = y" .
    with Cons.IH [OF \<open>hex a = hex c\<close>] b show ?case by simp
  qed
qed simp

lemma PathFor_not_tmp: "starts_with f kTmpPrefix \<Longrightarrow> PathFor b3 t n \<noteq> f"
proof -
  have "46 \<notin> set kHex" "length kHex = 16" by (simp_all add: kHex_def of_char_def)
  then have "kHex ! i \<noteq> 46" if "i < 16" for i using that by (metis nth_mem)
  then have "46 \<notin> set (hex d)" for d
    using nibble_less by (auto simp: hex_def)
  moreover have "starts_with f kTmpPrefix \<Longrightarrow> 46 \<in> set f"
    by (auto simp: starts_with_prefix kTmpPrefix_def of_char_def prefix_def)
  ultimately show "starts_with f kTmpPrefix \<Longrightarrow> PathFor b3 t n \<noteq> f" by (auto simp: PathFor_def)
qed

subsection \<open>Writing and reading\<close>

lemma DiskWriteLoop_appends:
  assumes "DiskWriteLoop ws p f sz = Some (ok, f', sz', ws')" "at_end f"
  shows "\<exists>k \<le> length p. content f' = content f @ take k p \<and> sz' = sz + k \<and> at_end f' \<and> (ok \<longrightarrow> k = length p)"
  using assms
proof (induction ws p f sz rule: DiskWriteLoop.induct)
  case (5 k ws b p f sz)
  let ?d = "take k (b # p)"
  from 5 have "DiskWriteLoop ws (drop k (b # p)) (file_write f ?d) (sz + length ?d) = Some (ok, f', sz', ws')"
    "at_end (file_write f ?d)" by (simp_all add: at_end_file_write)
  with "5.IH" obtain j where j: "j \<le> length (drop k (b # p))"
    "content f' = content (file_write f ?d) @ take j (drop k (b # p))" "sz' = sz + length ?d + j" "at_end f'"
    "ok \<longrightarrow> j = length (drop k (b # p))" by blast
  have "?d @ take j (drop k (b # p)) = take (length ?d + j) (b # p)"
  proof (cases "k \<le> length (b # p)")
    case True
    then have "length ?d = k" by simp
    then show ?thesis by (simp only: take_add)
  qed (use j(1) in simp)
  with j(2) "5.prems"(2) have "content f' = content f @ take (length ?d + j) (b # p)"
    by (simp only: content_file_write_at_end append_assoc)
  moreover have "length ?d + j \<le> length (b # p)" using j(1) by (cases "k \<le> length (b # p)") auto
  moreover have "ok \<longrightarrow> length ?d + j = length (b # p)" using j(5) by (cases "k \<le> length (b # p)") auto
  ultimately show ?case using j(3,4) by (intro exI [of _ "length ?d + j"]) (simp only: simp_thms add.assoc)
qed auto

lemma MemReadLoop_done: "length blob \<le> off \<Longrightarrow> MemReadLoop oks blob off out = Some (ReadResult True False out)"
  by (subst MemReadLoop.simps) (auto simp: Let_def)

lemma MemReadLoop_Nil: "off < length blob \<Longrightarrow> MemReadLoop [] blob off out = None"
  by (subst MemReadLoop.simps) (simp add: Let_def kChunk_def)

lemma MemReadLoop_Cons:
  "off < length blob \<Longrightarrow> MemReadLoop (k # oks) blob off out =
     (if k then MemReadLoop oks blob (off + kChunk) (out @ [take kChunk (drop off blob)])
      else Some (ReadResult False True (out @ [take kChunk (drop off blob)])))"
  by (subst MemReadLoop.simps) (simp add: Let_def kChunk_def min_def)

lemma MemReadLoop_result:
  assumes "MemReadLoop oks blob off out = Some (ReadResult ok err chunks)" "concat out = take off blob"
  shows "prefix (concat chunks) blob \<and> (ok \<longrightarrow> concat chunks = blob) \<and> err = (\<not> ok)"
  using assms
proof (induction oks arbitrary: off out)
  case Nil
  then show ?case by (cases "off < length blob") (auto simp: MemReadLoop_done MemReadLoop_Nil)
next
  case (Cons k oks)
  show ?case
  proof (cases "off < length blob")
    case True
    have app: "concat (out @ [take kChunk (drop off blob)]) = take (off + kChunk) blob"
      using Cons.prems(2) by (simp add: take_add)
    show ?thesis
    proof (cases k)
      case True
      with Cons.prems(1) \<open>off < length blob\<close> show ?thesis by (intro Cons.IH [OF _ app]) (simp add: MemReadLoop_Cons)
    next
      case False
      with Cons.prems(1) \<open>off < length blob\<close> have "chunks = out @ [take kChunk (drop off blob)]" "\<not> ok" "err"
        by (simp_all add: MemReadLoop_Cons)
      with app show ?thesis by (simp only: take_is_prefix simp_thms)
    qed
  qed (use Cons.prems in \<open>auto simp: MemReadLoop_done\<close>)
qed

lemma DiskReadLoop_result:
  assumes "DiskReadLoop rs oks blob off out = Some (ReadResult ok err chunks)" "concat out = take off blob"
    "RGot 0 \<notin> set rs"
  shows "prefix (concat chunks) blob \<and> (ok \<longrightarrow> concat chunks = blob) \<and> err = (\<not> ok)"
  using assms
proof (induction rs arbitrary: oks off out)
  case Nil
  then show ?case by (cases "off < length blob") (auto simp: DiskReadLoop.simps [of "[]"])
next
  case (Cons r rs)
  show ?case
  proof (cases "off < length blob")
    case off: True
    show ?thesis
    proof (cases r)
      case (RGot k)
      define n where "n = min (min k kChunk) (length blob - off)"
      have n: "n \<noteq> 0" using RGot Cons.prems(3) off by (auto simp: n_def kChunk_def)
      from Cons.prems(1) off RGot n obtain q oks' where q: "oks = q # oks'"
        by (cases oks) (auto simp: DiskReadLoop.simps [of "RGot k # rs" "[]"] n_def [symmetric] Let_def)
      have app: "concat (out @ [take n (drop off blob)]) = take (off + n) blob"
        using Cons.prems(2) by (simp add: take_add)
      have step: "DiskReadLoop (r # rs) oks blob off out =
          (if q then DiskReadLoop rs oks' blob (off + n) (out @ [take n (drop off blob)])
           else Some (ReadResult False True (out @ [take n (drop off blob)])))"
        using off RGot q n by (subst DiskReadLoop.simps) (simp add: Let_def n_def [symmetric])
      show ?thesis
      proof (cases q)
        case True
        with Cons.prems(1,3) step show ?thesis by (intro Cons.IH [OF _ app]) simp_all
      next
        case False
        with Cons.prems(1) step have "chunks = out @ [take n (drop off blob)]" "\<not> ok" "err" by simp_all
        with app show ?thesis by (simp only: take_is_prefix simp_thms)
      qed
    next
      case REintr
      with Cons.prems off show ?thesis
        by (intro Cons.IH [of oks off out]) (simp_all add: DiskReadLoop.simps [of "REintr # rs"])
    next
      case RStop
      with Cons.prems off show ?thesis by (auto simp: DiskReadLoop.simps [of "RStop # rs"] take_is_prefix)
    qed
  qed (use Cons.prems in \<open>auto simp: DiskReadLoop.simps [of "r # rs"]\<close>)
qed


subsection \<open>Blobs as a map\<close>

text \<open>The blob of a name; what an unfinished upload leaves alone; and the state of an upload that has
  written \<open>data\<close>.\<close>

definition blob :: "(bytes \<Rightarrow> bytes) \<Rightarrow> bytes \<Rightarrow> bytes \<Rightarrow> blob_store \<Rightarrow> bytes option" where
  "blob b3 t n s = (if bs_dir s then map_find (bs_files s) (PathFor b3 t n) else map_find (bs_mem s) (MemKey t n))"

definition same_but :: "bytes set \<Rightarrow> blob_store \<Rightarrow> blob_store \<Rightarrow> bool" where
  "same_but fs s s' \<longleftrightarrow> bs_dir s' = bs_dir s \<and> bs_mem s' = bs_mem s \<and>
     (\<forall>f. f \<notin> fs \<longrightarrow> map_find (bs_files s') f = map_find (bs_files s) f)"

definition tmp_of :: "blob_writer \<Rightarrow> bytes set" where
  "tmp_of w = (case w of DiskWriter d \<Rightarrow> {dw_tmp d} | MemWriter m \<Rightarrow> {})"

definition uploading :: "(bytes \<Rightarrow> bytes) \<Rightarrow> bytes \<Rightarrow> bytes \<Rightarrow> blob_writer \<Rightarrow> blob_store \<Rightarrow> bool" where
  "uploading b3 t n w s =
     (case w of
        DiskWriter d \<Rightarrow> bs_dir s \<and> dw_final d = PathFor b3 t n \<and> starts_with (dw_tmp d) kTmpPrefix \<and> \<not> dw_committed d
      | MemWriter m \<Rightarrow> \<not> bs_dir s \<and> mw_key m = MemKey t n)"

definition written :: "bytes \<Rightarrow> blob_writer \<Rightarrow> blob_store \<Rightarrow> bool" where
  "written data w s =
     (case w of
        DiskWriter d \<Rightarrow> (\<exists>f. dw_fd d = Some f \<and> at_end f \<and> content f = data) \<and> dw_size d = length data \<and>
          map_find (bs_files s) (dw_tmp d) = Some data
      | MemWriter m \<Rightarrow> mw_buf m = data \<and> \<not> mw_done m)"

lemma same_but_trans: "same_but fs r s \<Longrightarrow> same_but fs s t \<Longrightarrow> same_but fs r t"
  by (simp add: same_but_def)

lemma same_but_blob:
  assumes "same_but fs s s'" "\<forall>f \<in> fs. starts_with f kTmpPrefix"
  shows "blob b3 t n s' = blob b3 t n s"
  using assms PathFor_not_tmp [of "PathFor b3 t n" b3 t n] by (auto simp: same_but_def blob_def)

lemma uploading_tmp: "uploading b3 t n w s \<Longrightarrow> \<forall>f \<in> tmp_of w. starts_with f kTmpPrefix"
  by (cases w) (simp_all add: uploading_def tmp_of_def)

lemma BlobCreate_starts:
  assumes "BlobCreate b3 e t n s = Some (w, s')"
  shows "uploading b3 t n w s'" "written [] w s'" "same_but (tmp_of w) s s'"
    "\<forall>f \<in> tmp_of w. map_find (bs_files s) f = None"
  using assms
  by (auto simp: BlobCreate_def uploading_def written_def same_but_def tmp_of_def Let_def starts_with_def at_end_def
      map_find_put split: if_splits)

lemma WriterWrite_effect:
  assumes "WriterWrite ws d w s = Some (ok, w', s', ws')" "uploading b3 t n w s" "written data w s"
  shows "uploading b3 t n w' s'" "same_but (tmp_of w) s s'" "tmp_of w' = tmp_of w" "ok \<Longrightarrow> written (data @ d) w' s'"
proof -
  have "uploading b3 t n w' s' \<and> same_but (tmp_of w) s s' \<and> tmp_of w' = tmp_of w \<and> (ok \<longrightarrow> written (data @ d) w' s')"
  proof (cases w)
    case (MemWriter m)
    with assms show ?thesis
      by (auto simp: WriterWrite_def MemWrite_def uploading_def written_def same_but_def tmp_of_def split: if_splits)
  next
    case (DiskWriter x)
    from assms(3) DiskWriter obtain f where f: "dw_fd x = Some f" "at_end f" "content f = data" "dw_size x = length data"
      by (auto simp: written_def)
    show ?thesis
    proof (cases "dw_size x + length d > kMaxBlobBytes")
      case True
      with assms DiskWriter f show ?thesis
        by (auto simp: WriterWrite_def DiskWrite_def uploading_def same_but_def tmp_of_def)
    next
      case False
      with assms(1) DiskWriter f obtain f' sz where l: "DiskWriteLoop ws d f (dw_size x) = Some (ok, f', sz, ws')"
        and w': "w' = DiskWriter (x\<lparr>dw_fd := (if ok then Some f' else None), dw_size := sz\<rparr>)"
        and s': "s' = s\<lparr>bs_files := map_put (dw_tmp x) (content f') (bs_files s)\<rparr>"
        by (auto simp: WriterWrite_def DiskWrite_def split: option.splits)
      from DiskWriteLoop_appends [OF l f(2)] obtain k where "content f' = content f @ take k d" "sz = dw_size x + k"
        "at_end f'" "ok \<longrightarrow> k = length d" by blast
      with assms(2) DiskWriter f w' s' show ?thesis
        by (auto simp: uploading_def same_but_def tmp_of_def written_def map_find_put)
    qed
  qed
  then show "uploading b3 t n w' s'" "same_but (tmp_of w) s s'" "tmp_of w' = tmp_of w" "ok \<Longrightarrow> written (data @ d) w' s'"
    by simp_all
qed


text \<open>What a finished upload changes: the blob of its name, and nothing else.\<close>

definition replaced :: "(bytes \<Rightarrow> bytes) \<Rightarrow> bytes \<Rightarrow> bytes \<Rightarrow> bytes \<Rightarrow> blob_store \<Rightarrow> blob_store \<Rightarrow> bool" where
  "replaced b3 t n data s s' \<longleftrightarrow> bs_dir s' = bs_dir s \<and>
     map_find (bs_files s') = (if bs_dir s then (map_find (bs_files s))(PathFor b3 t n \<mapsto> data) else map_find (bs_files s)) \<and>
     map_find (bs_mem s') = (if bs_dir s then map_find (bs_mem s) else (map_find (bs_mem s))(MemKey t n \<mapsto> data))"

lemma WriterDestroy_effect:
  assumes "uploading b3 t n w s"
  shows "same_but (tmp_of w) s (WriterDestroy w s)" "\<forall>f \<in> tmp_of w. map_find (bs_files (WriterDestroy w s)) f = None"
  using assms by (cases w; auto simp: WriterDestroy_def DiskDestroy_def uploading_def same_but_def tmp_of_def)+

text \<open>The end of an upload that started from \<open>r\<close>.\<close>

lemma WriterCommit_effect:
  assumes "WriterCommit e w s = (ok, w', s')" "uploading b3 t n w s" "written data w s"
    "same_but (tmp_of w) r s" "\<forall>f \<in> tmp_of w. map_find (bs_files r) f = None"
  shows "if ok then replaced b3 t n data r (WriterDestroy w' s') else uploading b3 t n w' s' \<and> s' = s \<and> tmp_of w' = tmp_of w"
proof (cases w)
  case (MemWriter m)
  with assms show ?thesis
    by (auto simp: WriterCommit_def MemCommit_def uploading_def written_def same_but_def tmp_of_def replaced_def
        WriterDestroy_def split: if_splits)
next
  case (DiskWriter d)
  with assms(3) obtain f where f: "dw_fd d = Some f" "map_find (bs_files s) (dw_tmp d) = Some data"
    by (auto simp: written_def)
  have tmp: "PathFor b3 t n \<noteq> dw_tmp d" using assms(2) DiskWriter PathFor_not_tmp by (simp add: uploading_def)
  show ?thesis
  proof (cases ok)
    case False
    with assms DiskWriter f show ?thesis
      by (auto simp: WriterCommit_def DiskCommit_def uploading_def tmp_of_def split: if_splits)
  next
    case True
    with assms(1) DiskWriter f have w': "w' = DiskWriter (d\<lparr>dw_fd := None, dw_committed := True\<rparr>)"
      and s': "s' = s\<lparr>bs_files := rename (dw_tmp d) (dw_final d) (bs_files s)\<rparr>"
      by (auto simp: WriterCommit_def DiskCommit_def split: if_splits)
    have "map_find (bs_files s') x = ((map_find (bs_files r))(PathFor b3 t n \<mapsto> data)) x" for x
      using assms(2,4,5) DiskWriter f tmp s'
      by (cases "x = dw_tmp d") (auto simp: rename_def uploading_def same_but_def tmp_of_def)
    then have "map_find (bs_files s') = (map_find (bs_files r))(PathFor b3 t n \<mapsto> data)" by blast
    with True w' s' assms(2,4) DiskWriter show ?thesis
      by (simp add: replaced_def WriterDestroy_def DiskDestroy_def uploading_def same_but_def)
  qed
qed

lemma same_but_gone:
  assumes "same_but fs r s" "\<forall>f \<in> fs. map_find (bs_files r) f = None \<and> map_find (bs_files s) f = None"
  shows "same_but {} r s"
  unfolding same_but_def
proof (intro conjI allI impI)
  fix f show "map_find (bs_files s) f = map_find (bs_files r) f"
    using assms by (cases "f \<in> fs") (simp_all add: same_but_def)
qed (use assms in \<open>simp_all add: same_but_def\<close>)

lemma replaced_blob:
  assumes "replaced b3 t n data r s"
  shows "blob b3 t n s = Some data"
    and "(if bs_dir r then b3 (MemKey t' n') \<noteq> b3 (MemKey t n) else MemKey t' n' \<noteq> MemKey t n) \<Longrightarrow>
      blob b3 t' n' s = blob b3 t' n' r"
  using assms by (auto simp: replaced_def blob_def PathFor_def hex_inject split: if_splits)

lemma BlobOpen_clean:
  assumes "BlobOpen True True files = Some s" "map_ok files"
  shows "blob b3 t n s = map_find files (PathFor b3 t n)" "starts_with f kTmpPrefix \<Longrightarrow> map_find (bs_files s) f = None"
  using assms PathFor_not_tmp [of "PathFor b3 t n" b3 t n] map_find_filter [OF assms(2), of "\<lambda>f. \<not> starts_with f kTmpPrefix"]
  by (auto simp: BlobOpen_def blob_def)

end
