(* ===== verification/Mtls.thy ===== *)
theory Mtls
  imports StdString StdMap
begin

section \<open>Certificate identities\<close>

text \<open>
  \<open>security/mtls.{h,cpp}\<close>: the tables that map certificate names and SPIFFE ids to identities, the
  SPIFFE id parser, the resolution of a client certificate to a tenant, and the gate for internal
  peers. The registry's two hash maps are finite maps; \<open>ParsePem\<close> is the fallback of builds without
  OpenSSL, the OpenSSL decoding being third-party code.
\<close>

subsection \<open>Data\<close>

datatype identity_kind = kUnknown | kTenant | kInternal | kAdmin

record identity =
  id_kind :: identity_kind
  id_cn :: bytes
  id_tenant_id :: bytes
  id_display_name :: bytes
  id_tenant :: bytes

record cert_info =
  cn :: bytes
  dns_sans :: "bytes list"
  uri_sans :: "bytes list"
  spiffe_id :: "bytes option"

record mtls_registry =
  by_cn :: "(bytes, identity) stdmap"
  by_spiffe :: "(bytes, identity) stdmap"
  required_trust_domain :: bytes

record spiffe =
  trust_domain :: bytes
  path :: bytes

datatype workload_kind = kUnknownWorkload | kNode | kControlPlane | kAgent

record workload_identity =
  wi_kind :: workload_kind
  wi_id :: bytes
  wi_trust_domain :: bytes

definition IdentityKindName :: "identity_kind \<Rightarrow> bytes" where
  "IdentityKindName k =
     (case k of kUnknown \<Rightarrow> lit ''unknown'' | kTenant \<Rightarrow> lit ''tenant''
      | kInternal \<Rightarrow> lit ''internal'' | kAdmin \<Rightarrow> lit ''admin'')"

subsection \<open>The tables\<close>

definition UpsertMapping :: "bytes \<Rightarrow> identity \<Rightarrow> mtls_registry \<Rightarrow> bool \<times> mtls_registry" where
  "UpsertMapping k i r = (map_find (by_cn r) k = None, r\<lparr>by_cn := map_put k i (by_cn r)\<rparr>)"

definition RemoveMapping :: "bytes \<Rightarrow> mtls_registry \<Rightarrow> bool \<times> mtls_registry" where
  "RemoveMapping k r = (map_find (by_cn r) k \<noteq> None, r\<lparr>by_cn := map_erase k (by_cn r)\<rparr>)"

definition Resolve :: "mtls_registry \<Rightarrow> bytes \<Rightarrow> identity option" where
  "Resolve r k = map_find (by_cn r) k"

definition Size :: "mtls_registry \<Rightarrow> nat" where
  "Size r = length (by_cn r)"

definition UpsertSpiffeMapping :: "bytes \<Rightarrow> identity \<Rightarrow> mtls_registry \<Rightarrow> bool \<times> mtls_registry" where
  "UpsertSpiffeMapping k i r = (map_find (by_spiffe r) k = None, r\<lparr>by_spiffe := map_put k i (by_spiffe r)\<rparr>)"

definition RemoveSpiffeMapping :: "bytes \<Rightarrow> mtls_registry \<Rightarrow> bool \<times> mtls_registry" where
  "RemoveSpiffeMapping k r = (map_find (by_spiffe r) k \<noteq> None, r\<lparr>by_spiffe := map_erase k (by_spiffe r)\<rparr>)"

definition ResolveBySpiffe :: "mtls_registry \<Rightarrow> bytes \<Rightarrow> identity option" where
  "ResolveBySpiffe r k = map_find (by_spiffe r) k"

definition SpiffeSize :: "mtls_registry \<Rightarrow> nat" where
  "SpiffeSize r = length (by_spiffe r)"

definition SetRequiredTrustDomain :: "bytes \<Rightarrow> mtls_registry \<Rightarrow> mtls_registry" where
  "SetRequiredTrustDomain td r = r\<lparr>required_trust_domain := td\<rparr>"

subsection \<open>SPIFFE ids\<close>

definition slash :: byte where
  "slash = 47"

definition kScheme :: bytes where
  "kScheme = lit ''spiffe://''"

definition ParseSpiffeId :: "bytes \<Rightarrow> spiffe option" where
  "ParseSpiffeId uri =
     (if length uri \<le> length kScheme \<or> take (length kScheme) uri \<noteq> kScheme then None
      else
        let after = length kScheme;
            out = (case find_char uri slash after of
                     None \<Rightarrow> \<lparr>trust_domain = substr uri after, path = []\<rparr>
                   | Some sl \<Rightarrow> \<lparr>trust_domain = substr_len uri after (sl - after), path = substr uri sl\<rparr>)
        in if trust_domain out = [] then None
           else if path out = [slash] then None
           else Some out)"

definition kMarker :: bytes where
  "kMarker = lit ''/tenant/''"

definition TenantFromSpiffePath :: "bytes \<Rightarrow> bytes option" where
  "TenantFromSpiffePath uri =
     (case ParseSpiffeId uri of None \<Rightarrow> None | Some parsed \<Rightarrow>
        (case find_sub (path parsed) kMarker of None \<Rightarrow> None | Some ix \<Rightarrow>
           let start = ix + length kMarker;
               ident = (case find_char (path parsed) slash start of
                          None \<Rightarrow> substr (path parsed) start
                        | Some e \<Rightarrow> substr_len (path parsed) start (e - start))
           in if ident = [] then None else Some ident))"

subsection \<open>Resolving certificates\<close>

definition cn_lookup :: "mtls_registry \<Rightarrow> cert_info \<Rightarrow> identity option" where
  "cn_lookup r cert = (if cn cert \<noteq> [] then map_find (by_cn r) (cn cert) else None)"

definition ResolveCert :: "mtls_registry \<Rightarrow> cert_info \<Rightarrow> identity option" where
  "ResolveCert r cert =
     (case spiffe_id cert of
        None \<Rightarrow> cn_lookup r cert
      | Some uri \<Rightarrow>
          (case ParseSpiffeId uri of
             None \<Rightarrow> cn_lookup r cert
           | Some parsed \<Rightarrow>
               if required_trust_domain r \<noteq> [] \<and> trust_domain parsed \<noteq> required_trust_domain r then None
               else case map_find (by_spiffe r) uri of
                      Some i \<Rightarrow> Some i
                    | None \<Rightarrow> cn_lookup r cert))"

text \<open>The second and third steps of \<open>ResolveTenant\<close>: the SPIFFE path, then the common name.\<close>

definition path_or_cn :: "cert_info \<Rightarrow> bytes option" where
  "path_or_cn cert =
     (case (case spiffe_id cert of None \<Rightarrow> None | Some uri \<Rightarrow> TenantFromSpiffePath uri) of
        Some t \<Rightarrow> Some t
      | None \<Rightarrow> if cn cert \<noteq> [] then Some (cn cert) else None)"

definition ResolveTenant :: "cert_info \<Rightarrow> mtls_registry option \<Rightarrow> bytes option" where
  "ResolveTenant cert registry =
     (case registry of
        None \<Rightarrow> path_or_cn cert
      | Some r \<Rightarrow>
          (case ResolveCert r cert of
             Some i \<Rightarrow> if id_tenant i \<noteq> [] then Some (id_tenant i) else path_or_cn cert
           | None \<Rightarrow> path_or_cn cert))"

subsection \<open>Internal peers\<close>

definition kind_of_token :: "bytes \<Rightarrow> workload_kind option" where
  "kind_of_token tok =
     (if tok = lit ''node'' then Some kNode
      else if tok = lit ''cp'' then Some kControlPlane
      else if tok = lit ''kvagent'' then Some kAgent
      else None)"

definition ParseWorkloadIdentity :: "bytes \<Rightarrow> workload_identity option" where
  "ParseWorkloadIdentity uri =
     (case ParseSpiffeId uri of None \<Rightarrow> None | Some parsed \<Rightarrow>
        let p = path parsed
        in if length p < 2 \<or> hd p \<noteq> slash then None
           else
             let seg_end = find_char p slash 1;
                 kind_tok = (case seg_end of None \<Rightarrow> substr p 1 | Some e \<Rightarrow> substr_len p 1 (e - 1));
                 ident = (case seg_end of None \<Rightarrow> [] | Some e \<Rightarrow> substr p (e + 1))
             in case kind_of_token kind_tok of None \<Rightarrow> None | Some k \<Rightarrow>
                  if (k = kNode \<or> k = kAgent) \<and> ident = [] then None
                  else Some \<lparr>wi_kind = k, wi_id = ident, wi_trust_domain = trust_domain parsed\<rparr>)"

definition VerifyInternalPeer :: "cert_info \<Rightarrow> bytes \<Rightarrow> workload_identity option" where
  "VerifyInternalPeer cert required =
     (case spiffe_id cert of None \<Rightarrow> None | Some uri \<Rightarrow>
        (case ParseWorkloadIdentity uri of None \<Rightarrow> None | Some wi \<Rightarrow>
           if required \<noteq> [] \<and> wi_trust_domain wi \<noteq> required then None else Some wi))"

subsection \<open>The fallback certificate parser\<close>

fun find_first_of :: "byte list \<Rightarrow> bytes \<Rightarrow> nat option" where
  "find_first_of cs [] = None"
| "find_first_of cs (x # xs) =
     (if x \<in> set cs then Some 0 else map_option Suc (find_first_of cs xs))"

definition ParsePem :: "bytes \<Rightarrow> cert_info option" where
  "ParsePem pem =
     (case find_sub pem (lit ''CN='') of None \<Rightarrow> None | Some ix \<Rightarrow>
        let start = ix + 3;
            c = (case find_first_of [44, 47, 10, 13] (drop start pem) of
                   None \<Rightarrow> substr pem start
                 | Some n \<Rightarrow> substr_len pem start n)
        in if c = [] then None
           else Some \<lparr>cn = c, dns_sans = [], uri_sans = [], spiffe_id = None\<rparr>)"

definition ExtractCnFromPem :: "bytes \<Rightarrow> bytes option" where
  "ExtractCnFromPem pem =
     (case ParsePem pem of None \<Rightarrow> None | Some info \<Rightarrow> if cn info = [] then None else Some (cn info))"

subsection \<open>What the parsers accept\<close>

lemma find_char_from_takeWhile:
  "find_char_from c xs i = (if c \<in> set xs then Some (i + length (takeWhile (\<lambda>x. x \<noteq> c) xs)) else None)"
  by (induction c xs i rule: find_char_from.induct) auto

lemma span_neq [simp]:
  "c \<notin> set xs \<Longrightarrow> takeWhile (\<lambda>x. x \<noteq> c) xs = xs"
  "c \<notin> set xs \<Longrightarrow> dropWhile (\<lambda>x. x \<noteq> c) xs = []"
  by (induction xs) auto

lemma split_at_char:
  "(case find_char s c start of None \<Rightarrow> substr s start | Some e \<Rightarrow> substr_len s start (e - start)) =
     takeWhile (\<lambda>x. x \<noteq> c) (drop start s)"
  by (auto simp: find_char_def find_char_from_takeWhile substr_def substr_len_def takeWhile_eq_take [symmetric])

lemma ParseSpiffeId_rest:
  "ParseSpiffeId (kScheme @ rest) =
     (let td = takeWhile (\<lambda>x. x \<noteq> slash) rest; p = dropWhile (\<lambda>x. x \<noteq> slash) rest
      in if td = [] \<or> p = [slash] then None else Some \<lparr>trust_domain = td, path = p\<rparr>)"
proof (cases "slash \<in> set rest")
  case True
  then have "find_char (kScheme @ rest) slash (length kScheme) =
      Some (length kScheme + length (takeWhile (\<lambda>x. x \<noteq> slash) rest))"
    by (simp add: find_char_def find_char_from_takeWhile)
  moreover from True have "rest \<noteq> []" by auto
  ultimately show ?thesis
    by (simp add: ParseSpiffeId_def Let_def substr_def substr_len_def takeWhile_eq_take [symmetric]
        dropWhile_eq_drop [symmetric])
next
  case False
  then show ?thesis
    by (simp add: ParseSpiffeId_def Let_def find_char_def find_char_from_takeWhile substr_def)
qed

lemma ParseSpiffeId_scheme:
  assumes "ParseSpiffeId uri = Some p"
  shows "\<exists>rest. uri = kScheme @ rest"
proof -
  have "take (length kScheme) uri = kScheme"
    using assms by (auto simp: ParseSpiffeId_def simp del: take_eq_Nil split: if_splits)
  then show ?thesis by (metis append_take_drop_id)
qed

lemma takeWhile_dropWhile_split:
  "takeWhile (\<lambda>x. x \<noteq> c) (a @ b) = a \<and> dropWhile (\<lambda>x. x \<noteq> c) (a @ b) = b"
  if "c \<notin> set a" "b = [] \<or> hd b = c"
  using that by (induction a) (cases b; auto)+

lemma ParseSpiffeId_Some_iff:
  "ParseSpiffeId uri = Some p \<longleftrightarrow>
     uri = kScheme @ trust_domain p @ path p \<and> trust_domain p \<noteq> [] \<and> slash \<notin> set (trust_domain p) \<and>
     (path p = [] \<or> hd (path p) = slash) \<and> path p \<noteq> [slash]"
  (is "?l \<longleftrightarrow> ?r")
proof
  assume l: ?l
  then obtain rest where u: "uri = kScheme @ rest" using ParseSpiffeId_scheme by blast
  let ?td = "takeWhile (\<lambda>x. x \<noteq> slash) rest" and ?p = "dropWhile (\<lambda>x. x \<noteq> slash) rest"
  from l u have p: "p = \<lparr>trust_domain = ?td, path = ?p\<rparr>" "?td \<noteq> []" "?p \<noteq> [slash]"
    by (auto simp: ParseSpiffeId_rest Let_def split: if_splits)
  have "slash \<notin> set ?td" using set_takeWhileD [of slash "\<lambda>x. x \<noteq> slash" rest] by blast
  moreover have "?p = [] \<or> hd ?p = slash" using hd_dropWhile [of "\<lambda>x. x \<noteq> slash" rest] by auto
  moreover have "uri = kScheme @ ?td @ ?p" using u by simp
  ultimately show ?r unfolding p(1) using p(2,3) by simp
next
  assume r: ?r
  then have "takeWhile (\<lambda>x. x \<noteq> slash) (trust_domain p @ path p) = trust_domain p"
    "dropWhile (\<lambda>x. x \<noteq> slash) (trust_domain p @ path p) = path p"
    using takeWhile_dropWhile_split [of slash "trust_domain p" "path p"] by simp_all
  then have "ParseSpiffeId (kScheme @ (trust_domain p @ path p)) = Some p"
    using r unfolding ParseSpiffeId_rest Let_def by (simp only: if_False simp_thms) simp
  with r show ?l by simp
qed

lemma TenantFromSpiffePath_Some:
  assumes "TenantFromSpiffePath uri = Some t"
  shows "\<exists>p a b. ParseSpiffeId uri = Some p \<and> path p = a @ kMarker @ t @ b \<and> t \<noteq> [] \<and> slash \<notin> set t \<and>
    (b = [] \<or> hd b = slash)"
proof -
  from assms obtain p ix where p: "ParseSpiffeId uri = Some p" and ix: "find_sub (path p) kMarker = Some ix"
    and t: "t = takeWhile (\<lambda>x. x \<noteq> slash) (drop (ix + length kMarker) (path p))" "t \<noteq> []"
    by (auto simp: TenantFromSpiffePath_def Let_def split_at_char split: option.splits if_splits)
  from find_sub_from_Some [OF ix [unfolded find_sub_def]] obtain a zs where
    a: "path p = a @ kMarker @ zs" "ix = length a" by auto
  then have t': "t = takeWhile (\<lambda>x. x \<noteq> slash) zs" using t(1) by simp
  let ?b = "dropWhile (\<lambda>x. x \<noteq> slash) zs"
  have "path p = a @ kMarker @ t @ ?b" using a t' by simp
  moreover have "slash \<notin> set t" using t' set_takeWhileD [of slash "\<lambda>x. x \<noteq> slash" zs] by blast
  moreover have "?b = [] \<or> hd ?b = slash" using hd_dropWhile [of "\<lambda>x. x \<noteq> slash" zs] by auto
  ultimately show ?thesis using p t(2) by blast
qed


lemma TenantFromSpiffePath_simple:
  assumes "td \<noteq> []" "slash \<notin> set td" "t \<noteq> []" "slash \<notin> set t"
  shows "TenantFromSpiffePath (kScheme @ td @ kMarker @ t) = Some t"
proof -
  have m: "kMarker = slash # lit ''tenant/''" by (simp add: kMarker_def slash_def of_char_def)
  have "ParseSpiffeId (kScheme @ td @ kMarker @ t) = Some \<lparr>trust_domain = td, path = kMarker @ t\<rparr>"
    using assms by (simp add: ParseSpiffeId_Some_iff m)
  moreover have "find_sub (kMarker @ t) kMarker = Some 0" by (simp add: find_sub_def m)
  ultimately show ?thesis
    using assms split_at_char [of "kMarker @ t" "length kMarker" slash]
    by (simp add: TenantFromSpiffePath_def Let_def cong: option.case_cong)
qed

lemma ParseWorkloadIdentity_Some:
  assumes "ParseWorkloadIdentity uri = Some wi"
  shows "\<exists>tok rest. uri = kScheme @ wi_trust_domain wi @ [slash] @ tok @ rest \<and> kind_of_token tok = Some (wi_kind wi) \<and>
    (rest = [] \<and> wi_id wi = [] \<or> rest = slash # wi_id wi) \<and> (wi_kind wi \<noteq> kControlPlane \<longrightarrow> wi_id wi \<noteq> [])"
proof -
  from assms obtain p where p: "ParseSpiffeId uri = Some p" and len: "\<not> length (path p) < 2" and h: "hd (path p) = slash"
    by (auto simp: ParseWorkloadIdentity_def Let_def split: option.splits if_splits)
  from len h obtain q where q: "path p = slash # q" by (cases "path p") auto
  define tok where "tok = takeWhile (\<lambda>x. x \<noteq> slash) q"
  define ident where "ident = (case find_char (path p) slash 1 of None \<Rightarrow> [] | Some e \<Rightarrow> substr (path p) (e + 1))"
  have tok: "(case find_char (path p) slash 1 of None \<Rightarrow> substr (path p) 1 | Some e \<Rightarrow> substr_len (path p) 1 (e - 1)) = tok"
    using split_at_char [of "path p" 1 slash] q by (simp add: tok_def)
  have split: "q = tok \<and> ident = [] \<or> q = tok @ slash # ident"
  proof (cases "slash \<in> set q")
    case True
    then obtain a b where ab: "q = a @ slash # b" "slash \<notin> set a" by (meson split_list_first)
    then show ?thesis by (simp add: tok_def ident_def q find_char_def substr_def takeWhile_append)
  qed (simp add: tok_def ident_def q find_char_def find_char_from_takeWhile)
  have u: "uri = kScheme @ trust_domain p @ slash # q" using p q by (simp add: ParseSpiffeId_Some_iff)
  have "(length (path p) < 2 \<or> hd (path p) \<noteq> slash) = False" using len h by simp
  then have "ParseWorkloadIdentity uri = (case kind_of_token tok of None \<Rightarrow> None | Some k \<Rightarrow>
      if (k = kNode \<or> k = kAgent) \<and> ident = [] then None
      else Some \<lparr>wi_kind = k, wi_id = ident, wi_trust_domain = trust_domain p\<rparr>)"
    by (simp only: ParseWorkloadIdentity_def Let_def p option.case if_False tok ident_def [symmetric])
  with assms obtain k where k: "kind_of_token tok = Some k"
      "wi = \<lparr>wi_kind = k, wi_id = ident, wi_trust_domain = trust_domain p\<rparr>" "\<not> ((k = kNode \<or> k = kAgent) \<and> ident = [])"
    by (auto split: option.splits if_splits)
  then have "wi_kind wi \<noteq> kControlPlane \<longrightarrow> wi_id wi \<noteq> []"
    by (cases k) (auto simp: kind_of_token_def split: if_splits)
  with split k(1,2) u show ?thesis
    by (intro exI [of _ tok] exI [of _ "if q = tok \<and> ident = [] then [] else slash # ident"]) auto
qed


subsection \<open>Properties\<close>

text \<open>\<open>ParseSpiffeId\<close> accepts exactly the ids of the form scheme, non-empty trust domain without a
  slash, and a path that is empty or starts with a slash and is not a lone slash; and it returns
  these two parts.\<close>

theorem ParseSpiffeId_exact:
  "ParseSpiffeId uri = Some p \<longleftrightarrow>
     uri = kScheme @ trust_domain p @ path p \<and> trust_domain p \<noteq> [] \<and> slash \<notin> set (trust_domain p) \<and>
     (path p = [] \<or> hd (path p) = slash) \<and> path p \<noteq> [slash]"
  by (rule ParseSpiffeId_Some_iff)

text \<open>C34: A peer that passes the internal gate carries a SPIFFE id of the form
  trust domain, slash, one of the three workload kinds, and an instance id (which only the control
  plane may omit), and the trust domain is the required one whenever one is required. A certificate
  without a SPIFFE id never passes.\<close>

theorem VerifyInternalPeer_sound:
  assumes "VerifyInternalPeer cert required = Some wi"
  shows "\<exists>uri tok rest. spiffe_id cert = Some uri \<and> uri = kScheme @ wi_trust_domain wi @ [slash] @ tok @ rest \<and>
    kind_of_token tok = Some (wi_kind wi) \<and> (rest = [] \<and> wi_id wi = [] \<or> rest = slash # wi_id wi) \<and>
    (wi_kind wi \<noteq> kControlPlane \<longrightarrow> wi_id wi \<noteq> []) \<and> (required = [] \<or> wi_trust_domain wi = required)"
proof -
  from assms obtain uri where u: "spiffe_id cert = Some uri" "ParseWorkloadIdentity uri = Some wi"
    "required = [] \<or> wi_trust_domain wi = required"
    by (auto simp: VerifyInternalPeer_def split: option.splits if_splits)
  from ParseWorkloadIdentity_Some [OF u(2)] u(1,3) show ?thesis by blast
qed

theorem VerifyInternalPeer_sound_witness:
  "\<exists>wi tok rest. VerifyInternalPeer \<lparr>cn = [], dns_sans = [], uri_sans = [], spiffe_id = Some (lit ''spiffe://k/node/n1'')\<rparr> (lit ''k'')
      = Some wi \<and> wi_trust_domain wi = lit ''k'' \<and> wi_id wi = lit ''n1'' \<and>
      lit ''spiffe://k/node/n1'' = kScheme @ lit ''k'' @ [slash] @ tok @ rest \<and> kind_of_token tok = Some kNode"
proof -
  let ?c = "\<lparr>cn = [], dns_sans = [], uri_sans = [], spiffe_id = Some (lit ''spiffe://k/node/n1'')\<rparr> :: cert_info"
  let ?wi = "\<lparr>wi_kind = kNode, wi_id = lit ''n1'', wi_trust_domain = lit ''k''\<rparr> :: workload_identity"
  have v: "VerifyInternalPeer ?c (lit ''k'') = Some ?wi" by code_simp
  from VerifyInternalPeer_sound [OF v] obtain uri tok rest where "spiffe_id ?c = Some uri"
    "uri = kScheme @ wi_trust_domain ?wi @ [slash] @ tok @ rest" "kind_of_token tok = Some (wi_kind ?wi)"
    by blast
  then have "lit ''spiffe://k/node/n1'' = kScheme @ lit ''k'' @ [slash] @ tok @ rest" "kind_of_token tok = Some kNode"
    by (simp_all only: cert_info.simps workload_identity.simps option.inject)
  with v show ?thesis by (intro exI [of _ ?wi] exI [of _ tok] exI [of _ rest]) (simp only: workload_identity.simps simp_thms)
qed

text \<open>The required trust domain does not bind the tenant. For every registry that requires a trust
  domain, a certificate minted under any other domain is refused by \<open>ResolveCert\<close>, and yet
  \<open>ResolveTenant\<close> returns whatever tenant the foreign SPIFFE path names.\<close>

theorem ResolveTenant_ignores_trust_domain:
  assumes "required_trust_domain r \<noteq> []" "td \<noteq> required_trust_domain r" "td \<noteq> []" "slash \<notin> set td"
    and "t \<noteq> []" "slash \<notin> set t" "spiffe_id cert = Some (kScheme @ td @ kMarker @ t)"
  shows "ResolveCert r cert = None \<and> ResolveTenant cert (Some r) = Some t"
proof -
  have m: "kMarker = slash # lit ''tenant/''" by (simp add: kMarker_def slash_def of_char_def)
  have "ParseSpiffeId (kScheme @ td @ kMarker @ t) = Some \<lparr>trust_domain = td, path = kMarker @ t\<rparr>"
    using assms by (simp add: ParseSpiffeId_Some_iff m)
  then have "ResolveCert r cert = None" using assms by (simp add: ResolveCert_def)
  then show ?thesis
    using assms TenantFromSpiffePath_simple [OF assms(3-6)] by (simp add: ResolveTenant_def path_or_cn_def)
qed

theorem ResolveTenant_ignores_trust_domain_witness:
  "ResolveTenant \<lparr>cn = [], dns_sans = [], uri_sans = [], spiffe_id = Some (lit ''spiffe://rogue/tenant/acme'')\<rparr>
     (Some \<lparr>by_cn = [], by_spiffe = [], required_trust_domain = lit ''corp''\<rparr>) = Some (lit ''acme'')"
proof -
  let ?c = "\<lparr>cn = [], dns_sans = [], uri_sans = [], spiffe_id = Some (lit ''spiffe://rogue/tenant/acme'')\<rparr> :: cert_info"
  let ?r = "\<lparr>by_cn = [], by_spiffe = [], required_trust_domain = lit ''corp''\<rparr> :: mtls_registry"
  have "required_trust_domain ?r \<noteq> []" "lit ''rogue'' \<noteq> required_trust_domain ?r" "lit ''rogue'' \<noteq> []"
    "slash \<notin> set (lit ''rogue'')" "lit ''acme'' \<noteq> []" "slash \<notin> set (lit ''acme'')"
    "spiffe_id ?c = Some (kScheme @ lit ''rogue'' @ kMarker @ lit ''acme'')"
    by (simp_all add: slash_def kScheme_def kMarker_def of_char_def)
  from ResolveTenant_ignores_trust_domain [OF this] show ?thesis by simp
qed

text \<open>The tenant and the internal identity planes overlap: this id is both a node and a tenant.\<close>

lemma workload_and_tenant_overlap:
  "ParseWorkloadIdentity (lit ''spiffe://k/node/n1/tenant/acme'') \<noteq> None \<and>
   TenantFromSpiffePath (lit ''spiffe://k/node/n1/tenant/acme'') = Some (lit ''acme'')"
  by code_simp

end
