(* ===== verification/AgentStateService.thy ===== *)
theory AgentStateService
  imports KvStore BlobStore Mtls
begin

section \<open>The agent state service\<close>

text \<open>
  \<open>session/agent_state_service.{h,cpp}\<close>: the handlers of the session API. A handler takes what the
  client's certificate says, the request's fields and the kernel's answers, and returns a status or a
  response together with the new state; \<open>None\<close> is a handler still waiting for the kernel. Handlers of
  one session run one at a time (the code's lock stripes) and every store call is atomic, so a
  handler is one step; \<open>StripeFor\<close>, which only chooses the lock, has no counterpart. The hash \<open>b3\<close> is
  the parameter of the blob store.
\<close>

subsection \<open>Data\<close>

datatype status = CANCELLED | INVALID_ARGUMENT | NOT_FOUND | PERMISSION_DENIED | FAILED_PRECONDITION
  | INTERNAL | UNAUTHENTICATED

text \<open>What the transport knows of the client: the values of the two certificate properties, \<open>None\<close>
  without an authentication context.\<close>

record auth =
  x509_common_name :: "bytes list"
  x509_subject_alternative_name :: "bytes list"

record service =
  svc_store :: store
  svc_blobs :: blob_store
  cert_tenant :: bool
  registry :: "mtls_registry option"

definition kMaxValueBytes :: nat where
  "kMaxValueBytes = 4 * 2 ^ 20"

definition kMaxScanPage :: nat where
  "kMaxScanPage = 1000"

definition kMaxPageBytes :: nat where
  "kMaxPageBytes = 4 * 2 ^ 20"

type_synonym 'r reply = "((status + 'r) \<times> service) option"

subsection \<open>Tenants and keys\<close>

fun collect_sans :: "bytes list \<Rightarrow> cert_info \<Rightarrow> cert_info" where
  "collect_sans [] info = info"
| "collect_sans (v # vs) info =
     (if starts_with v kScheme
      then collect_sans vs (info\<lparr>spiffe_id := (if spiffe_id info = None then Some v else spiffe_id info),
                                 uri_sans := uri_sans info @ [v]\<rparr>)
      else collect_sans vs info)"

definition ClientCertInfo :: "auth option \<Rightarrow> cert_info" where
  "ClientCertInfo ctx =
     (let info = \<lparr>cn = [], dns_sans = [], uri_sans = [], spiffe_id = None\<rparr>
      in case ctx of None \<Rightarrow> info
         | Some ac \<Rightarrow>
             collect_sans (x509_subject_alternative_name ac)
               (if x509_common_name ac \<noteq> [] then info\<lparr>cn := hd (x509_common_name ac)\<rparr> else info))"

definition EnableCertTenant :: "mtls_registry option \<Rightarrow> service \<Rightarrow> service" where
  "EnableCertTenant r s = s\<lparr>registry := r, cert_tenant := True\<rparr>"

definition EncodeKey :: "bytes \<Rightarrow> byte \<Rightarrow> bytes \<Rightarrow> bytes" where
  "EncodeKey tenant kind rest = PutU32BE (of_nat (length tenant)) @ tenant @ [kind] @ rest"

definition svc_ResolveTenant :: "auth option \<Rightarrow> bytes \<Rightarrow> service \<Rightarrow> status + bytes" where
  "svc_ResolveTenant ctx requested s =
     (if cert_tenant s
      then (case ResolveTenant (ClientCertInfo ctx) (registry s) of
              None \<Rightarrow> Inl UNAUTHENTICATED
            | Some from_cert \<Rightarrow>
                if from_cert = [] then Inl UNAUTHENTICATED
                else if requested \<noteq> [] \<and> requested \<noteq> from_cert then Inl PERMISSION_DENIED
                else Inr from_cert)
      else if requested = [] then Inl INVALID_ARGUMENT
      else Inr requested)"

definition kItem :: byte where
  "kItem = of_char (CHR ''I'')"

definition kRecord :: byte where
  "kRecord = of_char (CHR ''R'')"

definition ItemPrefix :: "bytes \<Rightarrow> bytes \<Rightarrow> bytes" where
  "ItemPrefix tenant session =
     EncodeKey tenant kItem (PutU32BE (of_nat (length session)) @ session)"

text \<open>The tail of a handler that applies a batch: a failure is \<open>INTERNAL\<close>.\<close>

definition store_apply :: "io_env \<Rightarrow> mutation list \<Rightarrow> 'r \<Rightarrow> service \<Rightarrow> 'r reply" where
  "store_apply e batch resp s =
     (case Apply e batch (svc_store s) of
        None \<Rightarrow> None
      | Some (ok, st) \<Rightarrow> Some (if ok then Inr resp else Inl INTERNAL, s\<lparr>svc_store := st\<rparr>))"

subsection \<open>Items\<close>

definition seq_of :: "bytes \<Rightarrow> bytes \<Rightarrow> u64" where
  "seq_of p key = GetU64BE (substr key (length p))"

fun item_batch :: "bytes \<Rightarrow> u64 \<Rightarrow> bytes list \<Rightarrow> mutation list" where
  "item_batch p seq [] = []"
| "item_batch p seq (item # items) =
     \<lparr>mop = kPut, mkey = p @ PutU64BE seq, mvalue = item\<rparr> # item_batch p (seq + 1) items"

definition AppendItems :: "io_env \<Rightarrow> auth option \<Rightarrow> bytes \<Rightarrow> bytes \<Rightarrow> bytes list \<Rightarrow> service \<Rightarrow> u64 reply" where
  "AppendItems e ctx req_tenant session items s =
     (case svc_ResolveTenant ctx req_tenant s of Inl st \<Rightarrow> Some (Inl st, s) | Inr tenant \<Rightarrow>
        if session = [] then Some (Inl INVALID_ARGUMENT, s)
        else if list_ex (\<lambda>item. length item > kMaxValueBytes) items then Some (Inl INVALID_ARGUMENT, s)
        else
          let p = ItemPrefix tenant session;
              tail = fst (Scan (svc_store s) (prefix_scan p 1 True));
              seq = (case tail of [] \<Rightarrow> 1 | kv # _ \<Rightarrow> seq_of p (fst kv) + 1)
          in store_apply e (item_batch p seq items) (seq + of_nat (length items)) s)"

record get_items_response =
  gi_items :: "bytes list"
  gi_has_more :: bool
  gi_first_seq :: u64

definition GetItems :: "auth option \<Rightarrow> bytes \<Rightarrow> bytes \<Rightarrow> u32 \<Rightarrow> u64 \<Rightarrow> service \<Rightarrow> status + get_items_response" where
  "GetItems ctx req_tenant session limit before_seq s =
     (case svc_ResolveTenant ctx req_tenant s of Inl st \<Rightarrow> Inl st | Inr tenant \<Rightarrow>
        if session = [] then Inl INVALID_ARGUMENT
        else
          let p = ItemPrefix tenant session;
              opt = \<lparr>so_prefix = p, start_after = [],
                     end_before = (if before_seq \<noteq> 0 then p @ PutU64BE before_seq else []),
                     so_limit = unat limit, max_bytes = kMaxPageBytes, so_reverse = True\<rparr>;
              (kvs, more) = Scan (svc_store s) opt;
              kvs = rev kvs
          in Inr \<lparr>gi_items = map snd kvs, gi_has_more = more,
                  gi_first_seq = (if kvs = [] then 0 else seq_of p (fst (hd kvs)))\<rparr>)"

text \<open>The response is the item, \<open>None\<close> when the session is empty.\<close>

definition PopItem :: "io_env \<Rightarrow> auth option \<Rightarrow> bytes \<Rightarrow> bytes \<Rightarrow> service \<Rightarrow> bytes option reply" where
  "PopItem e ctx req_tenant session s =
     (case svc_ResolveTenant ctx req_tenant s of Inl st \<Rightarrow> Some (Inl st, s) | Inr tenant \<Rightarrow>
        if session = [] then Some (Inl INVALID_ARGUMENT, s)
        else case fst (Scan (svc_store s) (prefix_scan (ItemPrefix tenant session) 1 True)) of
               [] \<Rightarrow> Some (Inr None, s)
             | kv # _ \<Rightarrow>
                 store_apply e [\<lparr>mop = kDel, mkey = fst kv, mvalue = []\<rparr>] (Some (snd kv)) s)"

definition store_delete :: "io_env \<Rightarrow> bytes \<Rightarrow> service \<Rightarrow> nat reply" where
  "store_delete e p s =
     (case DeletePrefix e p (svc_store s) of
        None \<Rightarrow> None
      | Some (r, st) \<Rightarrow>
          Some (case r of Inl _ \<Rightarrow> Inl INTERNAL | Inr n \<Rightarrow> Inr n, s\<lparr>svc_store := st\<rparr>))"

definition ClearSession :: "io_env \<Rightarrow> auth option \<Rightarrow> bytes \<Rightarrow> bytes \<Rightarrow> service \<Rightarrow> nat reply" where
  "ClearSession e ctx req_tenant session s =
     (case svc_ResolveTenant ctx req_tenant s of Inl st \<Rightarrow> Some (Inl st, s) | Inr tenant \<Rightarrow>
        if session = [] then Some (Inl INVALID_ARGUMENT, s)
        else store_delete e (ItemPrefix tenant session) s)"

definition fork_batch :: "bytes \<Rightarrow> bytes \<Rightarrow> (bytes \<times> bytes) list \<Rightarrow> mutation list" where
  "fork_batch src dst kvs =
     map (\<lambda>kv. \<lparr>mop = kPut, mkey = dst @ substr (fst kv) (length src), mvalue = snd kv\<rparr>) kvs"

definition ForkSession :: "io_env \<Rightarrow> auth option \<Rightarrow> bytes \<Rightarrow> bytes \<Rightarrow> bytes \<Rightarrow> service \<Rightarrow> nat reply" where
  "ForkSession e ctx req_tenant source target s =
     (case svc_ResolveTenant ctx req_tenant s of Inl st \<Rightarrow> Some (Inl st, s) | Inr tenant \<Rightarrow>
        if source = [] \<or> target = [] then Some (Inl INVALID_ARGUMENT, s)
        else if source = target then Some (Inl INVALID_ARGUMENT, s)
        else
          let src = ItemPrefix tenant source; dst = ItemPrefix tenant target
          in if fst (Scan (svc_store s) (prefix_scan dst 1 False)) \<noteq> [] then Some (Inl FAILED_PRECONDITION, s)
             else
               let batch = fork_batch src dst (fst (Scan (svc_store s) (prefix_scan src 0 False)))
               in store_apply e batch (length batch) s)"

subsection \<open>Records\<close>

text \<open>The two loops that build the batch of \<open>WriteRecords\<close>; a bad put is the value \<open>None\<close>.\<close>

fun put_batch :: "bytes \<Rightarrow> (bytes \<times> bytes) list \<Rightarrow> mutation list option" where
  "put_batch tenant [] = Some []"
| "put_batch tenant ((k, v) # rs) =
     (if k = [] then None
      else if length v > kMaxValueBytes then None
      else map_option (\<lambda>b. \<lparr>mop = kPut, mkey = EncodeKey tenant kRecord k, mvalue = v\<rparr> # b) (put_batch tenant rs))"

definition delete_batch :: "bytes \<Rightarrow> bytes list \<Rightarrow> mutation list" where
  "delete_batch tenant ks = map (\<lambda>k. \<lparr>mop = kDel, mkey = EncodeKey tenant kRecord k, mvalue = []\<rparr>) ks"

definition WriteRecords :: "io_env \<Rightarrow> auth option \<Rightarrow> bytes \<Rightarrow> (bytes \<times> bytes) list \<Rightarrow> bytes list \<Rightarrow> service \<Rightarrow> unit reply" where
  "WriteRecords e ctx req_tenant puts deletes s =
     (case svc_ResolveTenant ctx req_tenant s of Inl st \<Rightarrow> Some (Inl st, s) | Inr tenant \<Rightarrow>
        case put_batch tenant puts of None \<Rightarrow> Some (Inl INVALID_ARGUMENT, s) | Some batch \<Rightarrow>
          store_apply e (batch @ delete_batch tenant deletes) () s)"

fun get_records :: "store \<Rightarrow> bytes \<Rightarrow> bytes list \<Rightarrow> (bytes \<times> bytes) list" where
  "get_records st tenant [] = []"
| "get_records st tenant (k # ks) =
     (case Get st (EncodeKey tenant kRecord k) of
        None \<Rightarrow> get_records st tenant ks
      | Some v \<Rightarrow> (k, v) # get_records st tenant ks)"

definition GetRecords :: "auth option \<Rightarrow> bytes \<Rightarrow> bytes list \<Rightarrow> service \<Rightarrow> status + (bytes \<times> bytes) list" where
  "GetRecords ctx req_tenant ks s =
     (case svc_ResolveTenant ctx req_tenant s of Inl st \<Rightarrow> Inl st | Inr tenant \<Rightarrow>
        Inr (get_records (svc_store s) tenant ks))"

record scan_records_request =
  sr_prefix :: bytes
  sr_start_after :: bytes
  sr_end_before :: bytes
  sr_limit :: u32
  sr_reverse :: bool

definition record_scan :: "bytes \<Rightarrow> scan_records_request \<Rightarrow> scan_options" where
  "record_scan base req =
     \<lparr>so_prefix = base @ sr_prefix req,
      start_after = (if sr_start_after req \<noteq> [] then base @ sr_start_after req else []),
      end_before = (if sr_end_before req \<noteq> [] then base @ sr_end_before req else []),
      so_limit = (if sr_limit req = 0 \<or> unat (sr_limit req) > kMaxScanPage then kMaxScanPage
                  else unat (sr_limit req)),
      max_bytes = kMaxPageBytes, so_reverse = sr_reverse req\<rparr>"

definition ScanRecords :: "auth option \<Rightarrow> bytes \<Rightarrow> scan_records_request \<Rightarrow> service \<Rightarrow> status + (bytes \<times> bytes) list \<times> bool" where
  "ScanRecords ctx req_tenant req s =
     (case svc_ResolveTenant ctx req_tenant s of Inl st \<Rightarrow> Inl st | Inr tenant \<Rightarrow>
        let base = EncodeKey tenant kRecord [];
            (kvs, more) = Scan (svc_store s) (record_scan base req)
        in Inr (map (\<lambda>kv. (substr (fst kv) (length base), snd kv)) kvs, more))"

definition DeleteRecordPrefix :: "io_env \<Rightarrow> auth option \<Rightarrow> bytes \<Rightarrow> bytes \<Rightarrow> service \<Rightarrow> nat reply" where
  "DeleteRecordPrefix e ctx req_tenant p s =
     (case svc_ResolveTenant ctx req_tenant s of Inl st \<Rightarrow> Some (Inl st, s) | Inr tenant \<Rightarrow>
        store_delete e (EncodeKey tenant kRecord p) s)"

subsection \<open>Blobs\<close>

text \<open>A chunk of an upload. The loop returns whether every write succeeded, the size so far and,
  after a failure, whether the chunk would have broken the limit.\<close>

record put_chunk =
  pc_tenant :: bytes
  pc_name :: bytes
  pc_data :: bytes

datatype put_result = PutDone nat | PutTooBig | PutFailed

fun PutLoop :: "wres list \<Rightarrow> put_chunk list \<Rightarrow> nat \<Rightarrow> blob_writer \<Rightarrow> blob_store \<Rightarrow> (put_result \<times> blob_writer \<times> blob_store) option" where
  "PutLoop ws [] sz w bs = Some (PutDone sz, w, bs)"
| "PutLoop ws (c # cs) sz w bs =
     (case WriterWrite ws (pc_data c) w bs of None \<Rightarrow> None | Some (ok, w', bs', ws') \<Rightarrow>
        if \<not> ok
        then Some (if sz + length (pc_data c) > kMaxBlobBytes then PutTooBig else PutFailed, w', bs')
        else PutLoop ws' cs (sz + length (pc_data c)) w' bs')"

record put_env =
  pe_create :: create_env
  pe_writes :: "wres list"
  pe_cancelled :: bool
  pe_commit :: commit_env

definition PutBlob :: "(bytes \<Rightarrow> bytes) \<Rightarrow> put_env \<Rightarrow> auth option \<Rightarrow> put_chunk list \<Rightarrow> service \<Rightarrow> nat reply" where
  "PutBlob b3 e ctx chunks s =
     (case chunks of [] \<Rightarrow> Some (Inl INVALID_ARGUMENT, s) | c # cs \<Rightarrow>
        case svc_ResolveTenant ctx (pc_tenant c) s of Inl st \<Rightarrow> Some (Inl st, s) | Inr tenant \<Rightarrow>
          if pc_name c = [] then Some (Inl INVALID_ARGUMENT, s)
          else case BlobCreate b3 (pe_create e) tenant (pc_name c) (svc_blobs s) of
                 None \<Rightarrow> Some (Inl INTERNAL, s)
               | Some (w, bs) \<Rightarrow>
                   (case PutLoop (pe_writes e) (c # cs) 0 w bs of
                      None \<Rightarrow> None
                    | Some (PutTooBig, w', bs') \<Rightarrow>
                        Some (Inl INVALID_ARGUMENT, s\<lparr>svc_blobs := WriterDestroy w' bs'\<rparr>)
                    | Some (PutFailed, w', bs') \<Rightarrow>
                        Some (Inl INTERNAL, s\<lparr>svc_blobs := WriterDestroy w' bs'\<rparr>)
                    | Some (PutDone n, w', bs') \<Rightarrow>
                        if pe_cancelled e then Some (Inl CANCELLED, s\<lparr>svc_blobs := WriterDestroy w' bs'\<rparr>)
                        else (case WriterCommit (pe_commit e) w' bs' of (ok, w'', bs'') \<Rightarrow>
                                Some (if ok then Inr n else Inl INTERNAL,
                                      s\<lparr>svc_blobs := WriterDestroy w'' bs''\<rparr>))))"

text \<open>The response of \<open>GetBlob\<close> is the list of chunks that were streamed.\<close>

definition GetBlob :: "(bytes \<Rightarrow> bytes) \<Rightarrow> read_env \<Rightarrow> auth option \<Rightarrow> bytes \<Rightarrow> bytes \<Rightarrow> service \<Rightarrow> (status option \<times> bytes list) option" where
  "GetBlob b3 e ctx req_tenant name s =
     (case svc_ResolveTenant ctx req_tenant s of Inl st \<Rightarrow> Some (Some st, []) | Inr tenant \<Rightarrow>
        if name = [] then Some (Some INVALID_ARGUMENT, [])
        else case BlobRead b3 e tenant name (svc_blobs s) of
               None \<Rightarrow> None
             | Some (ReadResult ok err chunks) \<Rightarrow>
                 Some (if \<not> ok then (if \<not> err then Some NOT_FOUND else Some INTERNAL) else None, chunks))"

definition StatBlob :: "(bytes \<Rightarrow> bytes) \<Rightarrow> bool \<Rightarrow> auth option \<Rightarrow> bytes \<Rightarrow> bytes \<Rightarrow> service \<Rightarrow> status + nat option" where
  "StatBlob b3 stat_ok ctx req_tenant name s =
     (case svc_ResolveTenant ctx req_tenant s of Inl st \<Rightarrow> Inl st | Inr tenant \<Rightarrow>
        Inr (BlobSize b3 stat_ok tenant name (svc_blobs s)))"

definition DeleteBlob :: "(bytes \<Rightarrow> bytes) \<Rightarrow> bool \<Rightarrow> auth option \<Rightarrow> bytes \<Rightarrow> bytes \<Rightarrow> service \<Rightarrow> (status + bool) \<times> service" where
  "DeleteBlob b3 unlink_ok ctx req_tenant name s =
     (case svc_ResolveTenant ctx req_tenant s of Inl st \<Rightarrow> (Inl st, s) | Inr tenant \<Rightarrow>
        (case BlobDelete b3 unlink_ok tenant name (svc_blobs s) of (existed, bs) \<Rightarrow>
           (Inr existed, s\<lparr>svc_blobs := bs\<rparr>)))"

subsection \<open>Keys do not collide\<close>

definition TenantPrefix :: "bytes \<Rightarrow> bytes" where
  "TenantPrefix t = PutU32BE (of_nat (length t)) @ t"

abbreviation short :: "bytes \<Rightarrow> bool" where
  "short x \<equiv> length x < 2 ^ 32"

lemma prefix_common:
  assumes "prefix (a @ b) x" "prefix (a' @ b') x" "length a = length a'"
  shows "a = a'" "\<exists>y. x = a @ y \<and> prefix b y \<and> prefix b' y"
  using assms by (auto simp: prefix_def)

lemma length_prefixed_common:
  assumes "prefix (PutU32BE (of_nat (length t)) @ t @ b) x" "prefix (PutU32BE (of_nat (length t')) @ t' @ b') x"
    "short t" "short t'"
  shows "t = t'" "\<exists>y. x = PutU32BE (of_nat (length t)) @ t @ y \<and> prefix b y \<and> prefix b' y"
proof -
  have "(of_nat (length t) :: u32) = of_nat (length t')"
    using prefix_common(1) [OF assms(1,2)] by (simp add: PutU32BE_inject)
  then have len: "length t = length t'" using assms(3,4) by (metis unat_u32_of_nat)
  with assms(1,2) have "prefix ((PutU32BE (of_nat (length t)) @ t) @ b) x" "prefix ((PutU32BE (of_nat (length t')) @ t') @ b') x"
    by simp_all
  from prefix_common [OF this] len
  show "t = t'" "\<exists>y. x = PutU32BE (of_nat (length t)) @ t @ y \<and> prefix b y \<and> prefix b' y" by simp_all
qed

lemma EncodeKey_common:
  assumes "prefix (EncodeKey t k r) x" "prefix (EncodeKey t' k' r') x" "short t" "short t'"
  shows "t = t'" "k = k'" "\<exists>y. x = EncodeKey t k y \<and> prefix r y \<and> prefix r' y"
proof -
  note c = length_prefixed_common [OF assms(1,2) [unfolded EncodeKey_def] assms(3,4)]
  from c(2) obtain y where y: "x = PutU32BE (of_nat (length t)) @ t @ y" "prefix ([k] @ r) y" "prefix ([k'] @ r') y" by blast
  show "t = t'" by (rule c(1))
  from y obtain z where "y = k # z" "prefix r z" "k' = k" "prefix r' z" by (cases y) auto
  with y(1) show "k = k'" "\<exists>y. x = EncodeKey t k y \<and> prefix r y \<and> prefix r' y" by (auto simp: EncodeKey_def)
qed

lemma kItem_kRecord [simp]: "kItem \<noteq> kRecord" "kRecord \<noteq> kItem"
  by (simp_all add: kItem_def kRecord_def of_char_def)

lemma ItemPrefix_common:
  assumes "prefix (ItemPrefix t u) x" "prefix (ItemPrefix t' u') x" "short t" "short t'" "short u" "short u'"
  shows "t = t'" "u = u'"
proof -
  note c = EncodeKey_common [OF assms(1,2) [unfolded ItemPrefix_def] assms(3,4)]
  show "t = t'" by (rule c(1))
  from c(3) obtain y where y: "prefix (PutU32BE (of_nat (length u)) @ u @ []) y" "prefix (PutU32BE (of_nat (length u')) @ u' @ []) y" by auto
  from length_prefixed_common(1) [OF y assms(5,6)] show "u = u'" .
qed

lemma ItemPrefix_record:
  "prefix (ItemPrefix t u) (EncodeKey t' kRecord r) \<Longrightarrow> short t \<Longrightarrow> short t' \<Longrightarrow> False"
  using EncodeKey_common(2) [of t kItem "PutU32BE (of_nat (length u)) @ u" "EncodeKey t' kRecord r" t' kRecord r]
  by (simp add: ItemPrefix_def)

subsection \<open>The invariant of the service\<close>

definition key_ok :: "bytes \<Rightarrow> bool" where
  "key_ok k \<longleftrightarrow> (\<exists>t r. k = EncodeKey t kRecord r \<and> short t) \<or>
     (\<exists>t u q. k = ItemPrefix t u @ PutU64BE q \<and> short t \<and> short u \<and> q \<noteq> 0)"

definition svc_inv :: "service \<Rightarrow> bool" where
  "svc_inv s \<longleftrightarrow> store_inv (svc_store s) \<and> (\<forall>e \<in> set (smap (svc_store s)). key_ok (fst e))"

text \<open>A session as the API sees it: its items with their sequence numbers, oldest first.\<close>

definition convo :: "bytes \<Rightarrow> bytes \<Rightarrow> service \<Rightarrow> (u64 \<times> bytes) list" where
  "convo t u s = map (\<lambda>e. (seq_of (ItemPrefix t u) (fst e), snd e)) (underp (ItemPrefix t u) (smap (svc_store s)))"

definition item_entry :: "bytes \<Rightarrow> u64 \<times> bytes \<Rightarrow> bytes \<times> bytes" where
  "item_entry p x = (p @ PutU64BE (fst x), snd x)"

lemma seq_of_item [simp]: "seq_of p (p @ PutU64BE q) = q"
  by (simp add: seq_of_def substr_def GetU64BE_PutU64BE)

lemma key_ok_item:
  assumes "key_ok k" "prefix (ItemPrefix t u) k" "short t" "short u"
  shows "\<exists>q. k = ItemPrefix t u @ PutU64BE q \<and> q \<noteq> 0"
proof -
  consider (R) t' r where "k = EncodeKey t' kRecord r" "short t'"
    | (I) t' u' q where "k = ItemPrefix t' u' @ PutU64BE q" "short t'" "short u'" "q \<noteq> 0"
    using assms(1) by (auto simp: key_ok_def)
  then show ?thesis
  proof cases
    case R
    with assms ItemPrefix_record show ?thesis by blast
  next
    case I
    then have "prefix (ItemPrefix t' u') k" by simp
    from ItemPrefix_common [OF assms(2) this assms(3) I(2) assms(4) I(3)] I(1,4) show ?thesis by auto
  qed
qed

lemma underp_convo:
  assumes "svc_inv s" "short t" "short u"
  shows "underp (ItemPrefix t u) (smap (svc_store s)) = map (item_entry (ItemPrefix t u)) (convo t u s)"
proof -
  have "item_entry (ItemPrefix t u) (seq_of (ItemPrefix t u) (fst e), snd e) = e"
    if "e \<in> set (underp (ItemPrefix t u) (smap (svc_store s)))" for e
  proof -
    from that assms obtain q where "fst e = ItemPrefix t u @ PutU64BE q"
      using key_ok_item [of "fst e" t u] by (auto simp: svc_inv_def underp_def)
    then show ?thesis by (cases e) (simp add: item_entry_def)
  qed
  then show ?thesis by (simp add: convo_def map_idI)
qed

lemma convo_seq_nonzero:
  assumes "svc_inv s" "short t" "short u" "x \<in> set (convo t u s)"
  shows "fst x \<noteq> 0"
proof -
  from assms(4) obtain e where e: "e \<in> set (underp (ItemPrefix t u) (smap (svc_store s)))"
    "fst x = seq_of (ItemPrefix t u) (fst e)" by (auto simp: convo_def)
  with assms(1-3) key_ok_item [of "fst e" t u] show ?thesis by (auto simp: svc_inv_def underp_def)
qed

lemma append_less_iff: "p @ x < p @ y \<longleftrightarrow> x < (y :: bytes)"
  by (induction p) simp_all

lemma item_entry_less: "fst (item_entry p a) < fst (item_entry p b) \<longleftrightarrow> fst a < fst b"
  by (simp add: item_entry_def append_less_iff PutU64BE_less_iff)

lemma convo_sorted:
  assumes "svc_inv s" "short t" "short u"
  shows "sorted_wrt (\<lambda>a b. fst a < fst b) (convo t u s)"
proof -
  have "map_ok (underp (ItemPrefix t u) (smap (svc_store s)))"
    using assms(1) by (simp add: svc_inv_def store_inv_def mem_inv_def)
  then show ?thesis
    by (simp add: underp_convo [OF assms] map_ok_def sorted_wrt_map item_entry_less)
qed

subsection \<open>What a handler may touch\<close>

definition confined :: "bytes \<Rightarrow> service \<Rightarrow> service \<Rightarrow> bool" where
  "confined p s s' \<longleftrightarrow> svc_blobs s' = svc_blobs s \<and> cert_tenant s' = cert_tenant s \<and> registry s' = registry s \<and>
     (\<forall>k. \<not> prefix p k \<longrightarrow> map_find (smap (svc_store s')) k = map_find (smap (svc_store s)) k)"

lemma confined_refl [simp]: "confined p s s"
  by (simp add: confined_def)

lemma confined_mono: "confined (p @ q) s s' \<Longrightarrow> confined p s s'"
  by (auto simp: confined_def dest: append_prefixD)

lemma run_confined:
  "\<forall>m \<in> set b. prefix p (mkey m) \<Longrightarrow> \<not> prefix p k \<Longrightarrow> map_find (run b t) k = map_find t k"
  by (induction b arbitrary: t) (auto simp: run_mutation_def)

lemma svc_map_ok: "svc_inv s \<Longrightarrow> map_ok (smap (svc_store s))"
  by (simp add: svc_inv_def store_inv_def mem_inv_def)

lemma confined_underp:
  assumes "confined p s s'" "svc_inv s" "svc_inv s'" "\<And>x. prefix p x \<Longrightarrow> prefix q x \<Longrightarrow> False"
  shows "underp q (smap (svc_store s')) = underp q (smap (svc_store s))"
proof (rule map_ok_ext)
  show "map_ok (underp q (smap (svc_store s')))" "map_ok (underp q (smap (svc_store s)))"
    using assms(2,3) by (simp_all add: svc_map_ok)
  show "map_find (underp q (smap (svc_store s'))) = map_find (underp q (smap (svc_store s)))"
    using assms(1,4) svc_map_ok [OF assms(2)] svc_map_ok [OF assms(3)]
    by (auto simp: fun_eq_iff underp_def map_find_filter confined_def)
qed

lemma confined_convo:
  assumes "confined (ItemPrefix t u) s s'" "svc_inv s" "svc_inv s'" "short t" "short u" "short t'" "short u'"
    "(t', u') \<noteq> (t, u)"
  shows "convo t' u' s' = convo t' u' s"
proof -
  have "underp (ItemPrefix t' u') (smap (svc_store s')) = underp (ItemPrefix t' u') (smap (svc_store s))"
    by (rule confined_underp [OF assms(1-3)]) (use ItemPrefix_common [OF _ _ assms(4,6,5,7)] assms(8) in blast)
  then show ?thesis by (simp add: convo_def)
qed

lemma key_ok_run:
  assumes "\<forall>e \<in> set t. key_ok (fst e)" "\<forall>m \<in> set b. mop m = kPut \<longrightarrow> key_ok (mkey m)"
  shows "\<forall>e \<in> set (run b t). key_ok (fst e)"
  using assms
proof (induction b arbitrary: t)
  case (Cons m b)
  have "\<forall>e \<in> set (run_mutation m t). key_ok (fst e)"
    using Cons.prems set_map_put_subset [of "mkey m" "mvalue m" t] set_map_erase_subset [of "mkey m" t]
    by (auto simp: run_mutation_def)
  with Cons show ?case by simp
qed simp

lemma store_apply_effect:
  assumes "store_apply e b resp s = Some (r, s')" "svc_inv s" "batch_fits b" "rolls_back e"
    "\<forall>m \<in> set b. prefix p (mkey m) \<and> (mop m = kPut \<longrightarrow> key_ok (mkey m))"
  shows "svc_inv s'" "confined p s s'"
    "r = Inr resp \<and> smap (svc_store s') = run b (smap (svc_store s)) \<or>
     r = Inl INTERNAL \<and> smap (svc_store s') = smap (svc_store s)"
proof -
  from assms(1) obtain ok st where a: "Apply e b (svc_store s) = Some (ok, st)"
    and r: "r = (if ok then Inr resp else Inl INTERNAL)" and s': "s' = s\<lparr>svc_store := st\<rparr>"
    by (auto simp: store_apply_def split: option.splits)
  from assms(2) have inv: "store_inv (svc_store s)" "\<forall>e \<in> set (smap (svc_store s)). key_ok (fst e)"
    by (simp_all add: svc_inv_def)
  from ols_kv.apply_law [OF inv(1) assms(3,4) a] have st: "store_inv st"
    "smap st = (if ok then run b (smap (svc_store s)) else smap (svc_store s))" by simp_all
  from key_ok_run [OF inv(2), of b] assms(5) st(2) inv(2) have "\<forall>e \<in> set (smap st). key_ok (fst e)"
    by (auto split: if_splits)
  with st(1) s' show "svc_inv s'" by (simp add: svc_inv_def)
  show "confined p s s'" using st(2) s' run_confined [of b p] assms(5) by (auto simp: confined_def)
  show "r = Inr resp \<and> smap (svc_store s') = run b (smap (svc_store s)) \<or>
     r = Inl INTERNAL \<and> smap (svc_store s') = smap (svc_store s)"
    using r s' st(2) by simp
qed

lemma store_delete_effect:
  assumes "store_delete e p s = Some (r, s')" "svc_inv s" "batch_fits (map del_entry (underp p (smap (svc_store s))))"
    "rolls_back e"
  shows "svc_inv s'" "confined p s s'"
    "r = Inl INTERNAL \<and> smap (svc_store s') = smap (svc_store s) \<or>
     r = Inr (length (underp p (smap (svc_store s)))) \<and> underp p (smap (svc_store s')) = []"
proof -
  from assms(1) obtain d st where a: "DeletePrefix e p (svc_store s) = Some (d, st)"
    and r: "r = (case d of Inl _ \<Rightarrow> Inl INTERNAL | Inr n \<Rightarrow> Inr n)" and s': "s' = s\<lparr>svc_store := st\<rparr>"
    by (auto simp: store_delete_def split: option.splits)
  from assms(2) have inv: "store_inv (svc_store s)" "\<forall>e \<in> set (smap (svc_store s)). key_ok (fst e)"
    by (simp_all add: svc_inv_def)
  from ols_kv.delete_law [OF inv(1) assms(3,4) a] have st: "store_inv st"
    "case d of Inl u \<Rightarrow> smap st = smap (svc_store s)
     | Inr n \<Rightarrow> n = length (underp p (smap (svc_store s))) \<and> smap st = filter (\<lambda>e. \<not> prefix p (fst e)) (smap (svc_store s))"
    by simp_all
  then show "svc_inv s'" using inv s' by (auto simp: svc_inv_def split: sum.splits)
  show "confined p s s'" using st(2) s' map_find_filter [OF svc_map_ok [OF assms(2)], of "\<lambda>k. \<not> prefix p k"]
    by (auto simp: confined_def split: sum.splits)
  show "r = Inl INTERNAL \<and> smap (svc_store s') = smap (svc_store s) \<or>
     r = Inr (length (underp p (smap (svc_store s)))) \<and> underp p (smap (svc_store s')) = []"
    using r s' st(2) by (auto simp: underp_def filter_empty_conv split: sum.splits)
qed

subsection \<open>Appending\<close>

fun number :: "u64 \<Rightarrow> bytes list \<Rightarrow> (u64 \<times> bytes) list" where
  "number q [] = []"
| "number q (v # vs) = (q, v) # number (q + 1) vs"

definition next_seq :: "(u64 \<times> bytes) list \<Rightarrow> u64" where
  "next_seq c = (if c = [] then 1 else fst (last c) + 1)"

lemma item_batch_number: "item_batch p q vs = map put_entry (map (item_entry p) (number q vs))"
  by (induction p q vs rule: item_batch.induct) (simp_all add: item_entry_def)

lemma number_ge:
  assumes "x \<in> set (number q vs)" "unat q + length vs \<le> 2 ^ 64"
  shows "q \<le> fst x"
  using assms
proof (induction q vs rule: number.induct)
  case (2 q v vs)
  show ?case
  proof (cases "x = (q, v)")
    case False
    with 2 have vs: "vs \<noteq> []" "x \<in> set (number (q + 1) vs)" by auto
    then have "unat q + 1 < 2 ^ 64" using "2.prems"(2) by (cases vs) auto
    then have u: "unat (q + 1) = unat q + 1" by (simp add: unat_word_ariths)
    with 2 vs have "q + 1 \<le> fst x" by simp
    with u show ?thesis by (simp add: word_le_nat_alt)
  qed simp
qed simp

lemma number_sorted:
  "unat q + length vs \<le> 2 ^ 64 \<Longrightarrow> sorted_wrt (\<lambda>a b. fst a < fst b) (number q vs)"
proof (induction q vs rule: number.induct)
  case (2 q v vs)
  show ?case
  proof (cases "vs = []")
    case False
    then have "unat q + 1 < 2 ^ 64" using "2.prems" by (cases vs) auto
    then have u: "unat (q + 1) = unat q + 1" by (simp add: unat_word_ariths)
    have "q < fst x" if "x \<in> set (number (q + 1) vs)" for x
      using number_ge [OF that] u "2.prems" by (simp add: word_le_nat_alt word_less_nat_alt)
    with 2 u show ?thesis by simp
  qed simp
qed simp

lemma scan_tail:
  assumes "svc_inv s" "short t" "short u"
  shows "fst (Scan (svc_store s) (prefix_scan (ItemPrefix t u) 1 True)) =
    (if convo t u s = [] then [] else [item_entry (ItemPrefix t u) (last (convo t u s))])"
  using ols_kv.scan_last [of "svc_store s" "ItemPrefix t u"] assms
  by (simp add: underp_convo svc_inv_def last_map)

lemma item_keys:
  "x \<in> set (item_batch p q vs) \<Longrightarrow> mop x = kPut \<and> (\<exists>n \<in> fst ` set (number q vs). mkey x = p @ PutU64BE n)"
  by (force simp: item_batch_number item_entry_def)

lemma key_ok_ItemPrefix: "short t \<Longrightarrow> short u \<Longrightarrow> q \<noteq> 0 \<Longrightarrow> key_ok (ItemPrefix t u @ PutU64BE q)"
  by (auto simp: key_ok_def)

lemma convo_from_entries:
  "underp (ItemPrefix t u) (smap (svc_store s)) = map (item_entry (ItemPrefix t u)) c \<Longrightarrow> convo t u s = c"
  by (simp add: convo_def o_def item_entry_def)

lemma last_greatest:
  assumes "sorted_wrt (\<lambda>a b. fst a < fst b) c" "x \<in> set c"
  shows "fst x \<le> (fst (last c) :: u64)"
  using assms by (cases c rule: rev_cases) (auto simp: sorted_wrt_append)

lemma number_extends:
  assumes "sorted_wrt (\<lambda>a b. fst a < fst b) c" "c \<noteq> [] \<longrightarrow> unat (fst (last c)) + length vs < 2 ^ 64 - 1"
    "length vs < 2 ^ 64 - 1"
  shows "sorted_wrt (\<lambda>a b. fst a < fst b) (c @ number (next_seq c) vs)"
proof (cases "c = []")
  case True
  with assms(3) number_sorted [of 1 vs] show ?thesis by (simp add: next_seq_def)
next
  case False
  then have u: "unat (next_seq c) = unat (fst (last c)) + 1" using assms(2) by (simp add: next_seq_def unat_word_ariths)
  with False assms(2) have b: "unat (next_seq c) + length vs \<le> 2 ^ 64" by simp
  have "fst x < fst y" if "x \<in> set c" "y \<in> set (number (next_seq c) vs)" for x y
    using last_greatest [OF assms(1) that(1)] number_ge [OF that(2) b] u
    by (simp add: word_le_nat_alt word_less_nat_alt)
  with assms(1) number_sorted [OF b] show ?thesis by (simp add: sorted_wrt_append)
qed

lemma number_nonzero:
  assumes "c \<noteq> [] \<longrightarrow> unat (fst (last c)) + length vs < 2 ^ 64 - 1" "length vs < 2 ^ 64 - 1"
    "n \<in> fst ` set (number (next_seq c) vs)"
  shows "n \<noteq> 0"
proof -
  have u: "unat (next_seq c) = (if c = [] then 1 else unat (fst (last c)) + 1)"
    using assms(1) by (auto simp: next_seq_def unat_word_ariths)
  from assms(3) obtain x where x: "x \<in> set (number (next_seq c) vs)" "n = fst x" by auto
  have "unat (next_seq c) + length vs \<le> 2 ^ 64" using u assms(1,2) by (simp split: if_splits)
  from number_ge [OF x(1) this] u x(2) show ?thesis by (auto simp: word_le_nat_alt split: if_splits)
qed

text \<open>Enough sequence numbers are left for a request, and its batch fits a record.\<close>

definition can_append :: "bytes \<Rightarrow> bytes \<Rightarrow> bytes list \<Rightarrow> service \<Rightarrow> bool" where
  "can_append t u items s \<longleftrightarrow>
     (let c = convo t u s
      in (c \<noteq> [] \<longrightarrow> unat (fst (last c)) + length items < 2 ^ 64 - 1) \<and> length items < 2 ^ 64 - 1 \<and>
         batch_fits (item_batch (ItemPrefix t u) (next_seq c) items))"

lemma AppendItems_batch:
  assumes "svc_inv s" "svc_ResolveTenant ctx req s = Inr t" "u \<noteq> []" "short t" "short u"
    "list_all (\<lambda>i. length i \<le> kMaxValueBytes) items"
  shows "AppendItems e ctx req u items s =
    store_apply e (item_batch (ItemPrefix t u) (next_seq (convo t u s)) items)
      (next_seq (convo t u s) + of_nat (length items)) s"
proof -
  have ex: "list_ex (\<lambda>i. length i > kMaxValueBytes) items = False"
    using assms(6) by (auto simp: list_ex_iff list_all_iff not_less)
  have "(case fst (Scan (svc_store s) (prefix_scan (ItemPrefix t u) 1 True)) of [] \<Rightarrow> 1
      | kv # _ \<Rightarrow> seq_of (ItemPrefix t u) (fst kv) + 1) = next_seq (convo t u s)"
    unfolding scan_tail [OF assms(1,4,5)] by (simp add: next_seq_def item_entry_def)
  then show ?thesis using assms(2,3) by (simp only: AppendItems_def Let_def ex sum.case if_False)
qed

lemma AppendItems_effect:
  assumes "svc_inv s" "svc_ResolveTenant ctx req s = Inr t" "u \<noteq> []" "short t" "short u"
    "list_all (\<lambda>i. length i \<le> kMaxValueBytes) items" "can_append t u items s" "rolls_back e"
    "AppendItems e ctx req u items s = Some (r, s')"
  shows "svc_inv s'" "confined (ItemPrefix t u) s s'"
    "r = Inl INTERNAL \<and> convo t u s' = convo t u s \<or>
     r = Inr (next_seq (convo t u s) + of_nat (length items)) \<and>
       convo t u s' = convo t u s @ number (next_seq (convo t u s)) items"
proof -
  let ?p = "ItemPrefix t u" and ?c = "convo t u s"
  let ?b = "item_batch ?p (next_seq ?c) items"
  from assms(7) have fits: "batch_fits ?b" "?c \<noteq> [] \<longrightarrow> unat (fst (last ?c)) + length items < 2 ^ 64 - 1"
    "length items < 2 ^ 64 - 1" by (simp_all add: can_append_def Let_def)
  have keys: "\<forall>m \<in> set ?b. prefix ?p (mkey m) \<and> (mop m = kPut \<longrightarrow> key_ok (mkey m))"
  proof
    fix m assume "m \<in> set ?b"
    from item_keys [OF this] obtain n where n: "n \<in> fst ` set (number (next_seq ?c) items)" "mkey m = ?p @ PutU64BE n" by blast
    from key_ok_ItemPrefix [OF assms(4,5) number_nonzero [OF fits(2,3) n(1)]] n(2)
    show "prefix ?p (mkey m) \<and> (mop m = kPut \<longrightarrow> key_ok (mkey m))" by simp
  qed
  note ap = store_apply_effect [OF assms(9) [unfolded AppendItems_batch [OF assms(1-6)]] assms(1) fits(1) assms(8) keys]
  show "svc_inv s'" "confined ?p s s'" by (rule ap(1), rule ap(2))
  have ext: "underp ?p (run ?b (smap (svc_store s))) = map (item_entry ?p) (?c @ number (next_seq ?c) items)"
  proof -
    have "sorted_wrt (\<lambda>a b. fst a < fst b) (map (item_entry ?p) (?c @ number (next_seq ?c) items))"
      unfolding sorted_wrt_map item_entry_less
      by (rule number_extends [OF convo_sorted [OF assms(1,4,5)] fits(2,3)])
    with underp_run_append [OF svc_map_ok [OF assms(1)], of "map (item_entry ?p) (number (next_seq ?c) items)" ?p]
      underp_convo [OF assms(1,4,5)]
    show ?thesis by (simp add: item_batch_number item_entry_def prefix_def)
  qed
  from ap(3) show "r = Inl INTERNAL \<and> convo t u s' = ?c \<or>
     r = Inr (next_seq ?c + of_nat (length items)) \<and> convo t u s' = ?c @ number (next_seq ?c) items"
  proof
    assume r: "r = Inr (next_seq ?c + of_nat (length items)) \<and> smap (svc_store s') = run ?b (smap (svc_store s))"
    with ext have "underp ?p (smap (svc_store s')) = map (item_entry ?p) (?c @ number (next_seq ?c) items)" by (simp only:)
    with convo_from_entries r show ?thesis by blast
  qed (simp add: convo_def)
qed

subsection \<open>Removing, clearing and forking\<close>

lemma map_erase_last:
  "map_ok (m @ [e]) \<Longrightarrow> map_erase (fst e) (m @ [e]) = m"
  by (auto simp: map_erase_def map_ok_def sorted_wrt_append filter_id_conv)

lemma small_delete_fits:
  "length k < 2 ^ 31 \<Longrightarrow> batch_fits [\<lparr>mop = kDel, mkey = k, mvalue = []\<rparr>]"
  by (simp add: batch_fits_def small_batch_def record_fits_small batch_bytes_def)

lemma PopItem_effect:
  assumes "svc_inv s" "svc_ResolveTenant ctx req s = Inr t" "u \<noteq> []" "short t" "short u" "rolls_back e"
    "PopItem e ctx req u s = Some (r, s')"
  shows "svc_inv s'" "confined (ItemPrefix t u) s s'"
    "r = Inl INTERNAL \<and> convo t u s' = convo t u s \<or>
     r = Inr None \<and> convo t u s = [] \<and> s' = s \<or>
     (\<exists>q v. r = Inr (Some v) \<and> convo t u s = convo t u s' @ [(q, v)])"
proof -
  let ?p = "ItemPrefix t u" and ?c = "convo t u s"
  have "svc_inv s' \<and> confined ?p s s' \<and> (r = Inl INTERNAL \<and> convo t u s' = ?c \<or>
     r = Inr None \<and> ?c = [] \<and> s' = s \<or> (\<exists>q v. r = Inr (Some v) \<and> ?c = convo t u s' @ [(q, v)]))"
  proof (cases "?c = []")
    case True
    then have "fst (Scan (svc_store s) (prefix_scan ?p 1 True)) = []" using scan_tail [OF assms(1,4,5)] by simp
    with assms(7,2,3) have "r = Inr None" "s' = s" by (simp_all add: PopItem_def del: One_nat_def)
    with True assms(1) show ?thesis by simp
  next
    case False
    then obtain c0 q v where c: "?c = c0 @ [(q, v)]" by (metis rev_exhaust surj_pair)
    let ?e = "item_entry ?p (q, v)" and ?m = "smap (svc_store s)"
    let ?b = "[\<lparr>mop = kDel, mkey = fst ?e, mvalue = []\<rparr>]"
    have "fst (Scan (svc_store s) (prefix_scan ?p 1 True)) = [?e]" using scan_tail [OF assms(1,4,5)] c by simp
    then have ap: "store_apply e ?b (Some (snd ?e)) s = Some (r, s')"
      using assms(7,2,3) by (simp add: PopItem_def del: One_nat_def)
    have u: "underp ?p ?m = map (item_entry ?p) c0 @ [?e]" using underp_convo [OF assms(1,4,5)] c by simp
    then have "?e \<in> set (underp ?p ?m)" by simp
    then have "?e \<in> set ?m" by (simp add: underp_def)
    then have "length (fst ?e) < 2 ^ 31"
      using assms(1) by (fastforce simp: svc_inv_def store_inv_def small_entries_def entry_bytes_def)
    from small_delete_fits [OF this] have fits: "batch_fits ?b" .
    have keys: "\<forall>m \<in> set ?b. prefix ?p (mkey m) \<and> (mop m = kPut \<longrightarrow> key_ok (mkey m))" by (simp add: item_entry_def)
    have "map_ok (map (item_entry ?p) c0 @ [?e])" using svc_map_ok [OF assms(1)] u by (metis map_ok_underp)
    from map_erase_last [OF this] keys u have "underp ?p (run ?b ?m) = map (item_entry ?p) c0"
      by (simp add: run_mutation_def underp_erase [OF svc_map_ok [OF assms(1)]])
    with store_apply_effect [OF ap assms(1) fits assms(6) keys] c convo_from_entries [of t u s' c0]
    show ?thesis by (auto simp: convo_def item_entry_def)
  qed
  then show "svc_inv s'" "confined ?p s s'" "r = Inl INTERNAL \<and> convo t u s' = ?c \<or>
     r = Inr None \<and> ?c = [] \<and> s' = s \<or> (\<exists>q v. r = Inr (Some v) \<and> ?c = convo t u s' @ [(q, v)])" by blast+
qed

lemma ClearSession_effect:
  assumes "svc_inv s" "svc_ResolveTenant ctx req s = Inr t" "u \<noteq> []" "short t" "short u" "rolls_back e"
    "batch_fits (map del_entry (map (item_entry (ItemPrefix t u)) (convo t u s)))"
    "ClearSession e ctx req u s = Some (r, s')"
  shows "svc_inv s'" "confined (ItemPrefix t u) s s'"
    "r = Inl INTERNAL \<and> convo t u s' = convo t u s \<or> r = Inr (length (convo t u s)) \<and> convo t u s' = []"
proof -
  let ?p = "ItemPrefix t u"
  have d: "store_delete e ?p s = Some (r, s')" using assms(2,3,8) by (simp add: ClearSession_def)
  note ef = store_delete_effect [OF d assms(1) assms(7) [folded underp_convo [OF assms(1,4,5)]] assms(6)]
  show "svc_inv s'" "confined ?p s s'" by (rule ef(1), rule ef(2))
  from ef(3) show "r = Inl INTERNAL \<and> convo t u s' = convo t u s \<or> r = Inr (length (convo t u s)) \<and> convo t u s' = []"
    by (auto simp: convo_def)
qed

lemma fork_batch_convo:
  "fork_batch p d (map (item_entry p) c) = map put_entry (map (item_entry d) c)"
  by (simp add: fork_batch_def item_entry_def substr_def)

lemma ForkSession_effect:
  assumes "svc_inv s" "svc_ResolveTenant ctx req s = Inr t" "u \<noteq> []" "v \<noteq> []" "u \<noteq> v" "short t" "short u" "short v"
    "rolls_back e" "batch_fits (map put_entry (map (item_entry (ItemPrefix t v)) (convo t u s)))"
    "ForkSession e ctx req u v s = Some (r, s')"
  shows "svc_inv s'" "confined (ItemPrefix t v) s s'"
    "r = Inl INTERNAL \<and> convo t v s' = convo t v s \<or> r = Inl FAILED_PRECONDITION \<and> convo t v s \<noteq> [] \<and> s' = s \<or>
     r = Inr (length (convo t u s)) \<and> convo t v s = [] \<and> convo t v s' = convo t u s"
proof -
  let ?p = "ItemPrefix t u" and ?d = "ItemPrefix t v" and ?c = "convo t u s" and ?m = "smap (svc_store s)"
  have inv: "store_inv (svc_store s)" using assms(1) by (simp add: svc_inv_def)
  have "svc_inv s' \<and> confined ?d s s' \<and> (r = Inl INTERNAL \<and> convo t v s' = convo t v s \<or>
     r = Inl FAILED_PRECONDITION \<and> convo t v s \<noteq> [] \<and> s' = s \<or>
     r = Inr (length ?c) \<and> convo t v s = [] \<and> convo t v s' = ?c)"
  proof (cases "convo t v s = []")
    case False
    then have "fst (Scan (svc_store s) (prefix_scan ?d 1 False)) \<noteq> []"
      using ols_kv.scan_first [OF inv, of ?d] by (simp add: convo_def del: One_nat_def)
    with assms(11,2,3,4,5) have "r = Inl FAILED_PRECONDITION" "s' = s" by (simp_all add: ForkSession_def del: One_nat_def)
    with False assms(1) show ?thesis by simp
  next
    case True
    then have d: "underp ?d ?m = []" by (simp add: convo_def)
    then have "fst (Scan (svc_store s) (prefix_scan ?d 1 False)) = []"
      using ols_kv.scan_first [OF inv, of ?d] by (simp del: One_nat_def)
    moreover have "fst (Scan (svc_store s) (prefix_scan ?p 0 False)) = map (item_entry ?p) ?c"
      using ols_kv.scan_all [OF inv, of ?p] underp_convo [OF assms(1,6,7)] by simp
    ultimately have ap: "store_apply e (map put_entry (map (item_entry ?d) ?c)) (length ?c) s = Some (r, s')"
      using assms(11,2,3,4,5) by (simp add: ForkSession_def fork_batch_convo Let_def del: One_nat_def map_map)
    have keys: "\<forall>m \<in> set (map put_entry (map (item_entry ?d) ?c)). prefix ?d (mkey m) \<and> (mop m = kPut \<longrightarrow> key_ok (mkey m))"
    proof
      fix m assume "m \<in> set (map put_entry (map (item_entry ?d) ?c))"
      then obtain x where x: "x \<in> set ?c" "mkey m = ?d @ PutU64BE (fst x)" by (auto simp: item_entry_def)
      from key_ok_ItemPrefix [OF assms(6,8) convo_seq_nonzero [OF assms(1,6,7) x(1)]] x(2)
      show "prefix ?d (mkey m) \<and> (mop m = kPut \<longrightarrow> key_ok (mkey m))" by simp
    qed
    have "sorted_wrt (\<lambda>a b. fst a < fst b) (map (item_entry ?d) ?c)"
      unfolding sorted_wrt_map item_entry_less by (rule convo_sorted [OF assms(1,6,7)])
    then have "underp ?d (run (map put_entry (map (item_entry ?d) ?c)) ?m) = map (item_entry ?d) ?c"
      using underp_run_append [OF svc_map_ok [OF assms(1)], of "map (item_entry ?d) ?c" ?d] d
      by (auto simp: item_entry_def)
    with store_apply_effect [OF ap assms(1,10,9) keys] True convo_from_entries [of t v s' ?c]
    show ?thesis by (auto simp: convo_def)
  qed
  then show "svc_inv s'" "confined ?d s s'" "r = Inl INTERNAL \<and> convo t v s' = convo t v s \<or>
     r = Inl FAILED_PRECONDITION \<and> convo t v s \<noteq> [] \<and> s' = s \<or>
     r = Inr (length ?c) \<and> convo t v s = [] \<and> convo t v s' = ?c" by blast+
qed

subsection \<open>Reading a session page by page\<close>

definition older :: "u64 \<Rightarrow> (u64 \<times> bytes) list \<Rightarrow> (u64 \<times> bytes) list" where
  "older b c = filter (\<lambda>x. b = 0 \<or> fst x < b) c"

abbreviation item_scan :: "bytes \<Rightarrow> u32 \<Rightarrow> u64 \<Rightarrow> scan_options" where
  "item_scan p limit b \<equiv> \<lparr>so_prefix = p, start_after = [], end_before = (if b \<noteq> 0 then p @ PutU64BE b else []),
     so_limit = unat limit, max_bytes = kMaxPageBytes, so_reverse = True\<rparr>"

lemma PutU64BE_not_Nil [simp]: "PutU64BE q \<noteq> []"
  by (metis length_PutU64BE list.size(3) zero_neq_numeral)

lemma candidates_items:
  assumes "svc_inv s" "short t" "short u"
  shows "candidates (item_scan (ItemPrefix t u) limit b) (smap (svc_store s)) =
    rev (map (item_entry (ItemPrefix t u)) (older b (convo t u s)))"
proof -
  let ?p = "ItemPrefix t u"
  have "filter (\<lambda>e. in_range (item_scan ?p limit b) (fst e)) (smap (svc_store s)) =
      filter (\<lambda>e. b = 0 \<or> fst e < ?p @ PutU64BE b) (underp ?p (smap (svc_store s)))"
    by (auto simp: underp_def in_range_def intro!: filter_cong)
  also have "\<dots> = map (item_entry ?p) (older b (convo t u s))"
    by (simp add: underp_convo [OF assms] filter_map o_def older_def item_entry_def append_less_iff)
  finally show ?thesis by (simp add: candidates_def)
qed

lemma GetItems_result:
  fixes b :: u64
  assumes "svc_inv s" "svc_ResolveTenant ctx req s = Inr t" "u \<noteq> []" "short t" "short u"
  defines "c \<equiv> older b (convo t u s)"
  shows "\<exists>k \<le> length c. GetItems ctx req u limit b s =
      Inr \<lparr>gi_items = map snd (drop (length c - k) c), gi_has_more = (k < length c),
           gi_first_seq = (if k = 0 then 0 else fst (c ! (length c - k)))\<rparr> \<and>
    (limit \<noteq> 0 \<longrightarrow> k \<le> unat limit) \<and> (c \<noteq> [] \<longrightarrow> 0 < k)"
proof -
  let ?p = "ItemPrefix t u"
  let ?e = "rev (map (item_entry ?p) c)"
  have ok: "map_ok (smap (svc_store s))" by (rule svc_map_ok [OF assms(1)])
  from page_cut obtain k where k: "page_ends (item_scan ?p limit b) ?e [] 0 k" by blast
  have sc: "Scan (svc_store s) (item_scan ?p limit b) = (take k ?e, k < length c)" and kl: "k \<le> length c"
    and lim: "limit \<noteq> 0 \<longrightarrow> k \<le> unat limit"
    using k Scan_page [OF ok] candidates_items [OF assms(1,4,5)]
    by (simp_all add: page_ends_def c_def unat_eq_zero del: rev_map)
  have pos: "c \<noteq> [] \<longrightarrow> 0 < k"
  proof (rule impI, rule ccontr)
    assume "c \<noteq> []" "\<not> 0 < k"
    with k have "scan_full (item_scan ?p limit b) [] 0 (?e ! 0)" by (simp add: page_ends_def)
    then show False by (rule scan_full_nonempty)
  qed
  have kv: "rev (take k ?e) = map (item_entry ?p) (drop (length c - k) c)"
    by (simp add: take_rev drop_map)
  have first: "(if rev (take k ?e) = [] then 0 else seq_of ?p (fst (hd (rev (take k ?e))))) =
      (if k = 0 then 0 else fst (c ! (length c - k)))"
  proof (cases "k = 0")
    case False
    with kl have "drop (length c - k) c = c ! (length c - k) # drop (Suc (length c - k)) c"
      by (intro Cons_nth_drop_Suc [symmetric]) simp
    with False show ?thesis unfolding kv by (simp add: item_entry_def)
  qed simp
  have "GetItems ctx req u limit b s =
      Inr \<lparr>gi_items = map snd (rev (take k ?e)), gi_has_more = (k < length c),
           gi_first_seq = (if k = 0 then 0 else fst (c ! (length c - k)))\<rparr>"
    using assms(2,3) by (simp only: GetItems_def Let_def sum.case if_False sc prod.case first)
  moreover have "map snd (rev (take k ?e)) = map snd (drop (length c - k) c)" unfolding kv by (simp add: item_entry_def)
  ultimately show ?thesis using kl lim pos by (intro exI [of _ k]) simp
qed

lemma older_below:
  assumes "sorted_wrt (\<lambda>a b. fst a < fst b) c" "\<And>x. x \<in> set c \<Longrightarrow> fst x \<noteq> (0 :: u64)" "j < length (older b c)"
  shows "older (fst (older b c ! j)) c = take j (older b c)"
proof -
  let ?d = "older b c"
  have d: "sorted_wrt (\<lambda>a b. fst a < fst b) ?d" using assms(1) by (simp add: older_def sorted_wrt_filter)
  have m: "?d ! j \<in> set c" "b = 0 \<or> fst (?d ! j) < b" using nth_mem [OF assms(3)] by (auto simp: older_def)
  then have "older (fst (?d ! j)) c = filter (\<lambda>x. fst x < fst (?d ! j)) ?d"
    using assms(2) [OF m(1)] by (auto simp: older_def intro!: filter_cong)
  also have "\<dots> = take j ?d"
  proof -
    have dj: "?d = take j ?d @ ?d ! j # drop (Suc j) ?d" using assms(3) by (rule id_take_nth_drop)
    with d have "sorted_wrt (\<lambda>a b. fst a < fst b) (take j ?d @ ?d ! j # drop (Suc j) ?d)" by simp
    then have "\<forall>x \<in> set (take j ?d). fst x < fst (?d ! j)" "\<forall>x \<in> set (drop (Suc j) ?d). \<not> fst x < fst (?d ! j)"
      by (auto simp: sorted_wrt_append)
    then have "filter (\<lambda>x. fst x < fst (?d ! j)) (take j ?d @ ?d ! j # drop (Suc j) ?d) = take j ?d" by simp
    with dj show ?thesis by simp
  qed
  finally show ?thesis .
qed

text \<open>The client's side of the protocol of the interface: ask, and while there is more, ask again for what
  is before the first item received.\<close>

fun fetch_pages :: "nat \<Rightarrow> auth option \<Rightarrow> bytes \<Rightarrow> bytes \<Rightarrow> u32 \<Rightarrow> u64 \<Rightarrow> service \<Rightarrow> bytes list option" where
  "fetch_pages 0 ctx req u limit b s = None"
| "fetch_pages (Suc n) ctx req u limit b s =
     (case GetItems ctx req u limit b s of
        Inl st \<Rightarrow> None
      | Inr r \<Rightarrow> if gi_has_more r then map_option (\<lambda>xs. xs @ gi_items r) (fetch_pages n ctx req u limit (gi_first_seq r) s)
                else Some (gi_items r))"

lemma fetch_pages_complete:
  assumes "svc_inv s" "svc_ResolveTenant ctx req s = Inr t" "u \<noteq> []" "short t" "short u"
    "length (older b (convo t u s)) < n"
  shows "fetch_pages n ctx req u limit b s = Some (map snd (older b (convo t u s)))"
  using assms(6)
proof (induction n arbitrary: b)
  case (Suc n)
  let ?c = "older b (convo t u s)"
  from GetItems_result [OF assms(1-5), of b limit] obtain k where k: "k \<le> length ?c"
    "GetItems ctx req u limit b s = Inr \<lparr>gi_items = map snd (drop (length ?c - k) ?c), gi_has_more = (k < length ?c),
           gi_first_seq = (if k = 0 then 0 else fst (?c ! (length ?c - k)))\<rparr>" "?c \<noteq> [] \<longrightarrow> 0 < k" by blast
  show ?case
  proof (cases "k < length ?c")
    case False
    with k show ?thesis by simp
  next
    case True
    then have "0 < k" using k(3) by auto
    with True have b': "older (fst (?c ! (length ?c - k))) (convo t u s) = take (length ?c - k) ?c"
      by (intro older_below convo_sorted [OF assms(1,4,5)] convo_seq_nonzero [OF assms(1,4,5)]) auto
    have "fetch_pages n ctx req u limit (fst (?c ! (length ?c - k))) s = Some (map snd (take (length ?c - k) ?c))"
      using Suc.IH [of "fst (?c ! (length ?c - k))"] Suc.prems \<open>0 < k\<close> True unfolding b' by simp
    with True \<open>0 < k\<close> k(2) show ?thesis by (simp flip: map_append)
  qed
qed simp

subsection \<open>Records\<close>

lemma put_batch_keys:
  assumes "put_batch t rs = Some b" "m \<in> set b"
  shows "mop m = kPut \<and> (\<exists>k. mkey m = EncodeKey t kRecord k)"
  using assms by (induction t rs arbitrary: b rule: put_batch.induct) (force split: if_splits)+

lemma record_keys:
  assumes "put_batch t rs = Some b" "m \<in> set (b @ delete_batch t ks)" "short t"
  shows "prefix (EncodeKey t kRecord []) (mkey m) \<and> (mop m = kPut \<longrightarrow> key_ok (mkey m))"
proof -
  have "\<exists>k. mkey m = EncodeKey t kRecord k"
    using put_batch_keys [OF assms(1)] assms(2) by (auto simp: delete_batch_def)
  with assms(3) show ?thesis by (auto simp: EncodeKey_def key_ok_def)
qed

lemma WriteRecords_effect:
  assumes "svc_inv s" "svc_ResolveTenant ctx req s = Inr t" "short t" "rolls_back e" "put_batch t puts = Some b"
    "batch_fits (b @ delete_batch t deletes)" "WriteRecords e ctx req puts deletes s = Some (r, s')"
  shows "svc_inv s'" "confined (EncodeKey t kRecord []) s s'"
    "r = Inr () \<and> Get (svc_store s') = fold mutate (b @ delete_batch t deletes) (Get (svc_store s)) \<or>
     r = Inl INTERNAL \<and> Get (svc_store s') = Get (svc_store s)"
proof -
  have ap: "store_apply e (b @ delete_batch t deletes) () s = Some (r, s')"
    using assms(2,5,7) by (simp add: WriteRecords_def)
  have keys: "\<forall>m \<in> set (b @ delete_batch t deletes).
      prefix (EncodeKey t kRecord []) (mkey m) \<and> (mop m = kPut \<longrightarrow> key_ok (mkey m))"
    using record_keys [OF assms(5) _ assms(3)] by blast
  note ef = store_apply_effect [OF ap assms(1,6,4) keys]
  show "svc_inv s'" "confined (EncodeKey t kRecord []) s s'" by (rule ef(1), rule ef(2))
  from ef(3) show "r = Inr () \<and> Get (svc_store s') = fold mutate (b @ delete_batch t deletes) (Get (svc_store s)) \<or>
     r = Inl INTERNAL \<and> Get (svc_store s') = Get (svc_store s)"
    by (auto simp: Get_def [abs_def] map_find_run)
qed

lemma DeleteRecordPrefix_effect:
  assumes "svc_inv s" "svc_ResolveTenant ctx req s = Inr t" "rolls_back e"
    "batch_fits (map del_entry (underp (EncodeKey t kRecord p) (smap (svc_store s))))"
    "DeleteRecordPrefix e ctx req p s = Some (r, s')"
  shows "svc_inv s'" "confined (EncodeKey t kRecord p) s s'"
    "r = Inl INTERNAL \<and> smap (svc_store s') = smap (svc_store s) \<or>
     r = Inr (length (underp (EncodeKey t kRecord p) (smap (svc_store s)))) \<and>
       underp (EncodeKey t kRecord p) (smap (svc_store s')) = []"
proof -
  have d: "store_delete e (EncodeKey t kRecord p) s = Some (r, s')" using assms(2,5) by (simp add: DeleteRecordPrefix_def)
  from store_delete_effect [OF d assms(1,4,3)] show "svc_inv s'" "confined (EncodeKey t kRecord p) s s'"
    "r = Inl INTERNAL \<and> smap (svc_store s') = smap (svc_store s) \<or>
     r = Inr (length (underp (EncodeKey t kRecord p) (smap (svc_store s)))) \<and>
       underp (EncodeKey t kRecord p) (smap (svc_store s')) = []" by blast+
qed

subsection \<open>Blobs\<close>

lemma PutLoop_effect:
  assumes "PutLoop ws cs sz w bs = Some (res, w', bs')" "uploading b3 t n w bs" "written data w bs"
  shows "uploading b3 t n w' bs' \<and> same_but (tmp_of w) bs bs' \<and> tmp_of w' = tmp_of w \<and>
    (\<forall>k. res = PutDone k \<longrightarrow> written (data @ concat (map pc_data cs)) w' bs' \<and> k = sz + length (concat (map pc_data cs)))"
  using assms
proof (induction cs arbitrary: ws sz w bs data)
  case Nil
  then show ?case by (auto simp: same_but_def)
next
  case (Cons c cs)
  from Cons.prems(1) obtain ok w1 bs1 ws1 where w: "WriterWrite ws (pc_data c) w bs = Some (ok, w1, bs1, ws1)"
    by (auto split: option.splits)
  note ef = WriterWrite_effect [OF w Cons.prems(2,3)]
  show ?case
  proof (cases ok)
    case False
    with Cons.prems(1) w ef show ?thesis by (auto split: if_splits)
  next
    case True
    with Cons.prems(1) w have "PutLoop ws1 cs (sz + length (pc_data c)) w1 bs1 = Some (res, w', bs')" by simp
    from Cons.IH [OF this ef(1) ef(4) [OF True]] ef(2,3) same_but_trans show ?thesis by (auto simp: add.assoc)
  qed
qed

lemma PutBlob_effect:
  assumes "PutBlob b3 e ctx (c # cs) s = Some (r, s')" "svc_ResolveTenant ctx (pc_tenant c) s = Inr t"
  defines "data \<equiv> concat (map pc_data (c # cs))"
  shows "s' = s\<lparr>svc_blobs := svc_blobs s'\<rparr>"
    "(\<exists>st. r = Inl st) \<and> same_but {} (svc_blobs s) (svc_blobs s') \<or>
     r = Inr (length data) \<and> replaced b3 t (pc_name c) data (svc_blobs s) (svc_blobs s')"
proof -
  have "s' = s\<lparr>svc_blobs := svc_blobs s'\<rparr> \<and> ((\<exists>st. r = Inl st) \<and> same_but {} (svc_blobs s) (svc_blobs s') \<or>
     r = Inr (length data) \<and> replaced b3 t (pc_name c) data (svc_blobs s) (svc_blobs s'))"
  proof (cases "pc_name c = [] \<or> BlobCreate b3 (pe_create e) t (pc_name c) (svc_blobs s) = None")
    case True
    with assms show ?thesis by (auto simp: PutBlob_def same_but_def split: if_splits)
  next
    case False
    then obtain w bs where cr: "BlobCreate b3 (pe_create e) t (pc_name c) (svc_blobs s) = Some (w, bs)" and n: "pc_name c \<noteq> []"
      by auto
    note c0 = BlobCreate_starts [OF cr]
    from assms(1,2) n cr obtain res w1 bs1 where l: "PutLoop (pe_writes e) (c # cs) 0 w bs = Some (res, w1, bs1)"
      by (auto simp: PutBlob_def split: option.splits)
    from PutLoop_effect [OF l c0(1,2)] have u: "uploading b3 t (pc_name c) w1 bs1" "same_but (tmp_of w) bs bs1"
      "tmp_of w1 = tmp_of w" and fin: "\<And>k. res = PutDone k \<Longrightarrow> written data w1 bs1 \<and> k = length data"
      by (simp_all add: data_def)
    have clean: "same_but {} (svc_blobs s) (WriterDestroy w2 bs1)" if "uploading b3 t (pc_name c) w2 bs1" "tmp_of w2 = tmp_of w" for w2
    proof (rule same_but_gone)
      show "same_but (tmp_of w) (svc_blobs s) (WriterDestroy w2 bs1)"
        using same_but_trans [OF same_but_trans [OF c0(3) u(2)]] WriterDestroy_effect(1) [OF that(1)] that(2) by simp
      show "\<forall>f \<in> tmp_of w. map_find (bs_files (svc_blobs s)) f = None \<and> map_find (bs_files (WriterDestroy w2 bs1)) f = None"
        using c0(4) WriterDestroy_effect(2) [OF that(1)] that(2) by simp
    qed
    show ?thesis
    proof (cases "\<exists>k. res = PutDone k \<and> \<not> pe_cancelled e")
      case False
      with assms(1,2) n cr l have "(\<exists>st. r = Inl st) \<and> s' = s\<lparr>svc_blobs := WriterDestroy w1 bs1\<rparr>"
        by (auto simp: PutBlob_def split: put_result.splits if_splits)
      with clean [OF u(1,3)] show ?thesis by auto
    next
      case True
      then obtain k where k: "res = PutDone k" "\<not> pe_cancelled e" by blast
      obtain ok w2 bs2 where cm: "WriterCommit (pe_commit e) w1 bs1 = (ok, w2, bs2)" by (metis prod_cases3)
      from k assms(1,2) n cr l cm have r: "r = (if ok then Inr k else Inl INTERNAL)"
        and s': "s' = s\<lparr>svc_blobs := WriterDestroy w2 bs2\<rparr>" by (auto simp: PutBlob_def)
      from WriterCommit_effect [OF cm u(1), of data "svc_blobs s"] fin [OF k(1)] u(3) same_but_trans [OF c0(3) u(2)] c0(4)
      have ef: "if ok then replaced b3 t (pc_name c) data (svc_blobs s) (WriterDestroy w2 bs2)
          else uploading b3 t (pc_name c) w2 bs2 \<and> bs2 = bs1 \<and> tmp_of w2 = tmp_of w1" by simp
      show ?thesis
      proof (cases ok)
        case True
        with ef r s' fin [OF k(1)] show ?thesis by simp
      next
        case False
        with ef r s' clean [of w2] u(3) show ?thesis by auto
      qed
    qed
  qed
  then show "s' = s\<lparr>svc_blobs := svc_blobs s'\<rparr>"
    "(\<exists>st. r = Inl st) \<and> same_but {} (svc_blobs s) (svc_blobs s') \<or>
     r = Inr (length data) \<and> replaced b3 t (pc_name c) data (svc_blobs s) (svc_blobs s')" by blast+
qed

end
