(* ===== verification/SessionApi.thy ===== *)
theory SessionApi
  imports AgentStateService
begin

section \<open>The session API\<close>

text \<open>
  The session API as a whole: a step relation with one rule per handler that changes state, runs of
  interleaved steps, and what each tenant can see. The guards of a rule are the limits of the
  interface: names fit their 32-bit length prefix, a batch fits one log record, and sequence numbers do
  not run out.
\<close>

subsection \<open>Steps and runs\<close>

inductive svc_step :: "(bytes \<Rightarrow> bytes) \<Rightarrow> bytes \<Rightarrow> service \<Rightarrow> service \<Rightarrow> bool" for b3 where
  append_items: "svc_ResolveTenant ctx req s = Inr t \<Longrightarrow> short t \<Longrightarrow> short u \<Longrightarrow> u \<noteq> [] \<Longrightarrow> rolls_back e \<Longrightarrow>
    list_all (\<lambda>i. length i \<le> kMaxValueBytes) items \<Longrightarrow> can_append t u items s \<Longrightarrow>
    AppendItems e ctx req u items s = Some (r, s') \<Longrightarrow> svc_step b3 t s s'"
| pop_item: "svc_ResolveTenant ctx req s = Inr t \<Longrightarrow> short t \<Longrightarrow> short u \<Longrightarrow> u \<noteq> [] \<Longrightarrow> rolls_back e \<Longrightarrow>
    PopItem e ctx req u s = Some (r, s') \<Longrightarrow> svc_step b3 t s s'"
| clear_session: "svc_ResolveTenant ctx req s = Inr t \<Longrightarrow> short t \<Longrightarrow> short u \<Longrightarrow> u \<noteq> [] \<Longrightarrow> rolls_back e \<Longrightarrow>
    batch_fits (map del_entry (map (item_entry (ItemPrefix t u)) (convo t u s))) \<Longrightarrow>
    ClearSession e ctx req u s = Some (r, s') \<Longrightarrow> svc_step b3 t s s'"
| fork_session: "svc_ResolveTenant ctx req s = Inr t \<Longrightarrow> short t \<Longrightarrow> short u \<Longrightarrow> short v \<Longrightarrow> u \<noteq> [] \<Longrightarrow> v \<noteq> [] \<Longrightarrow> u \<noteq> v \<Longrightarrow>
    rolls_back e \<Longrightarrow> batch_fits (map put_entry (map (item_entry (ItemPrefix t v)) (convo t u s))) \<Longrightarrow>
    ForkSession e ctx req u v s = Some (r, s') \<Longrightarrow> svc_step b3 t s s'"
| write_records: "svc_ResolveTenant ctx req s = Inr t \<Longrightarrow> short t \<Longrightarrow> rolls_back e \<Longrightarrow> put_batch t puts = Some b \<Longrightarrow>
    batch_fits (b @ delete_batch t deletes) \<Longrightarrow>
    WriteRecords e ctx req puts deletes s = Some (r, s') \<Longrightarrow> svc_step b3 t s s'"
| delete_records: "svc_ResolveTenant ctx req s = Inr t \<Longrightarrow> short t \<Longrightarrow> rolls_back e \<Longrightarrow>
    batch_fits (map del_entry (underp (EncodeKey t kRecord p) (smap (svc_store s)))) \<Longrightarrow>
    DeleteRecordPrefix e ctx req p s = Some (r, s') \<Longrightarrow> svc_step b3 t s s'"
| put_blob: "svc_ResolveTenant ctx (pc_tenant c) s = Inr t \<Longrightarrow> short t \<Longrightarrow>
    PutBlob b3 pe ctx (c # cs) s = Some (r, s') \<Longrightarrow> svc_step b3 t s s'"
| delete_blob: "svc_ResolveTenant ctx req s = Inr t \<Longrightarrow> short t \<Longrightarrow>
    DeleteBlob b3 ok ctx req n s = (r, s') \<Longrightarrow> svc_step b3 t s s'"

text \<open>A run: the tenants that acted, in order.\<close>

inductive svc_run :: "(bytes \<Rightarrow> bytes) \<Rightarrow> bytes list \<Rightarrow> service \<Rightarrow> service \<Rightarrow> bool" for b3 where
  idle: "svc_run b3 [] s s"
| step: "svc_step b3 t s s1 \<Longrightarrow> svc_run b3 ts s1 s' \<Longrightarrow> svc_run b3 (t # ts) s s'"

subsection \<open>What a tenant can see\<close>

definition tenant_entries :: "bytes \<Rightarrow> service \<Rightarrow> (bytes, bytes) stdmap" where
  "tenant_entries t s = underp (TenantPrefix t) (smap (svc_store s))"

definition hash_separates :: "(bytes \<Rightarrow> bytes) \<Rightarrow> bytes \<Rightarrow> bytes \<Rightarrow> bool" where
  "hash_separates b3 t t' \<longleftrightarrow> (\<forall>n n'. b3 (MemKey t n) \<noteq> b3 (MemKey t' n'))"

definition same_view :: "(bytes \<Rightarrow> bytes) \<Rightarrow> bytes \<Rightarrow> service \<Rightarrow> service \<Rightarrow> bool" where
  "same_view b3 t s s' \<longleftrightarrow> tenant_entries t s' = tenant_entries t s \<and>
     (\<forall>n. blob b3 t n (svc_blobs s') = blob b3 t n (svc_blobs s)) \<and>
     bs_dir (svc_blobs s') = bs_dir (svc_blobs s) \<and>
     cert_tenant s' = cert_tenant s \<and> registry s' = registry s"

lemma same_view_refl [simp]: "same_view b3 t s s"
  and same_view_trans: "same_view b3 t r s \<Longrightarrow> same_view b3 t s s' \<Longrightarrow> same_view b3 t r s'"
  by (simp_all add: same_view_def)

lemma TenantPrefix_disjoint:
  assumes "prefix (TenantPrefix t) x" "prefix (TenantPrefix t') x" "short t" "short t'"
  shows "t = t'"
  using length_prefixed_common(1) [of t "[]" x t' "[]"] assms by (simp add: TenantPrefix_def)

lemma EncodeKey_TenantPrefix: "EncodeKey t k r = TenantPrefix t @ k # r"
  by (simp add: EncodeKey_def TenantPrefix_def)

lemma confined_same_view:
  assumes "confined (TenantPrefix t) s s'" "svc_inv s" "svc_inv s'" "short t" "short t'" "t' \<noteq> t"
  shows "same_view b3 t' s s'"
proof -
  have "underp (TenantPrefix t') (smap (svc_store s')) = underp (TenantPrefix t') (smap (svc_store s))"
    by (rule confined_underp [OF assms(1-3)]) (use TenantPrefix_disjoint assms(4-6) in blast)
  with assms(1) show ?thesis by (simp add: same_view_def tenant_entries_def confined_def)
qed

lemma blob_only:
  assumes "s' = s\<lparr>svc_blobs := x\<rparr>"
  shows "svc_inv s \<Longrightarrow> svc_inv s'"
    "bs_dir x = bs_dir (svc_blobs s) \<Longrightarrow> (\<And>n. blob b3 t n x = blob b3 t n (svc_blobs s)) \<Longrightarrow> same_view b3 t s s'"
  using assms by (simp_all add: svc_inv_def same_view_def tenant_entries_def)

lemma BlobDelete_others:
  assumes "BlobDelete b3 ok t n bs = (r, bs')"
  shows "bs_dir bs' = bs_dir bs"
    "(if bs_dir bs then b3 (MemKey t' n') \<noteq> b3 (MemKey t n) else MemKey t' n' \<noteq> MemKey t n) \<Longrightarrow>
      blob b3 t' n' bs' = blob b3 t' n' bs"
  using assms by (auto simp: BlobDelete_def blob_def PathFor_def hex_inject split: if_splits)

lemma confined_tenant:
  "confined (EncodeKey t k r) s s' \<Longrightarrow> confined (TenantPrefix t) s s'"
  "confined (ItemPrefix t u) s s' \<Longrightarrow> confined (TenantPrefix t) s s'"
  using confined_mono [of "TenantPrefix t"] by (simp_all add: ItemPrefix_def EncodeKey_TenantPrefix)


lemma svc_step_respects:
  assumes "svc_step b3 t s s'" "svc_inv s"
  shows "svc_inv s' \<and> (\<forall>t'. short t' \<longrightarrow> t' \<noteq> t \<longrightarrow> hash_separates b3 t' t \<longrightarrow> same_view b3 t' s s')"
  using assms
proof cases
  case append_items
  from AppendItems_effect(1,2) [OF assms(2) append_items(1,4,2,3,6,7,5,8)] append_items(2) assms(2) show ?thesis
    using confined_same_view confined_tenant(2) by blast
next
  case pop_item
  from PopItem_effect(1,2) [OF assms(2) pop_item(1,4,2,3,5,6)] pop_item(2) assms(2) show ?thesis
    using confined_same_view confined_tenant(2) by blast
next
  case clear_session
  from ClearSession_effect(1,2) [OF assms(2) clear_session(1,4,2,3,5,6,7)] clear_session(2) assms(2) show ?thesis
    using confined_same_view confined_tenant(2) by blast
next
  case fork_session
  from ForkSession_effect(1,2) [OF assms(2) fork_session(1,5,6,7,2,3,4,8,9,10)] fork_session(2) assms(2) show ?thesis
    using confined_same_view confined_tenant(2) by blast
next
  case write_records
  from WriteRecords_effect(1,2) [OF assms(2) write_records(1,2,3,4,5,6)] write_records(2) assms(2) show ?thesis
    using confined_same_view confined_tenant(1) by blast
next
  case delete_records
  from DeleteRecordPrefix_effect(1,2) [OF assms(2) delete_records(1,3,4,5)] delete_records(2) assms(2) show ?thesis
    using confined_same_view confined_tenant(1) by blast
next
  case (put_blob ctx c pe cs r)
  note ef = PutBlob_effect [OF put_blob(3,1)]
  let ?d = "concat (map pc_data (c # cs))"
  have dir: "bs_dir (svc_blobs s') = bs_dir (svc_blobs s)"
    using ef(2) by (auto simp: same_but_def replaced_def)
  have "blob b3 t' n (svc_blobs s') = blob b3 t' n (svc_blobs s)"
    if "short t'" "t' \<noteq> t" "hash_separates b3 t' t" for t' n
    using ef(2)
  proof
    assume "(\<exists>st. r = Inl st) \<and> same_but {} (svc_blobs s) (svc_blobs s')"
    with same_but_blob show ?thesis by blast
  next
    assume "r = Inr (length ?d) \<and> replaced b3 t (pc_name c) ?d (svc_blobs s) (svc_blobs s')"
    with replaced_blob(2) [of b3 t "pc_name c" ?d "svc_blobs s" "svc_blobs s'" t' n] that put_blob(2) show ?thesis
      by (simp add: hash_separates_def MemKey_inject)
  qed
  then show ?thesis using blob_only(1) [OF ef(1) assms(2)] blob_only(2) [OF ef(1) dir] by blast
next
  case (delete_blob ctx req ok n r)
  then obtain r' bs where d: "BlobDelete b3 ok t n (svc_blobs s) = (r', bs)" "s' = s\<lparr>svc_blobs := bs\<rparr>"
    by (auto simp: DeleteBlob_def split: prod.splits)
  have "blob b3 t' n' bs = blob b3 t' n' (svc_blobs s)" if "short t'" "t' \<noteq> t" "hash_separates b3 t' t" for t' n'
    using BlobDelete_others(2) [OF d(1), of t' n'] that delete_blob(2) by (simp add: hash_separates_def MemKey_inject)
  then show ?thesis
    using blob_only(1) [OF d(2) assms(2)] blob_only(2) [OF d(2) BlobDelete_others(1) [OF d(1)]] by blast
qed


lemma candidates_underp:
  assumes "prefix q (so_prefix opt)"
  shows "candidates opt (underp q m) = candidates opt m"
proof -
  have "filter (\<lambda>e. in_range opt (fst e)) (underp q m) = filter (\<lambda>e. in_range opt (fst e)) m"
    using assms by (auto simp: underp_def in_range_def intro!: filter_cong dest: prefix_order.trans)
  then show ?thesis by (simp add: candidates_def)
qed

lemma Scan_same_view:
  assumes "svc_inv s" "svc_inv s'" "same_view b3 t s s'" "prefix (TenantPrefix t) (so_prefix opt)"
  shows "Scan (svc_store s') opt = Scan (svc_store s) opt"
proof -
  have "candidates opt (smap (svc_store s')) = candidates opt (smap (svc_store s))"
    using assms(3) candidates_underp [OF assms(4)] by (metis same_view_def tenant_entries_def)
  then show ?thesis
    by (simp add: Scan_page [OF svc_map_ok [OF assms(1)]] Scan_page [OF svc_map_ok [OF assms(2)]])
qed

lemma Get_same_view:
  assumes "svc_inv s" "svc_inv s'" "same_view b3 t s s'" "prefix (TenantPrefix t) k"
  shows "Get (svc_store s') k = Get (svc_store s) k"
  using assms map_find_underp [OF svc_map_ok [OF assms(1)] assms(4)] map_find_underp [OF svc_map_ok [OF assms(2)] assms(4)]
  by (simp add: Get_def same_view_def tenant_entries_def)

lemma ResolveTenant_same_view: "same_view b3 t s s' \<Longrightarrow> svc_ResolveTenant ctx req s' = svc_ResolveTenant ctx req s"
  by (simp add: svc_ResolveTenant_def same_view_def)

text \<open>Everything a tenant can ask for.\<close>

definition same_answers :: "(bytes \<Rightarrow> bytes) \<Rightarrow> bytes \<Rightarrow> service \<Rightarrow> service \<Rightarrow> bool" where
  "same_answers b3 t s s' \<longleftrightarrow> (\<forall>ctx req. svc_ResolveTenant ctx req s = Inr t \<longrightarrow>
     (\<forall>u limit b. GetItems ctx req u limit b s' = GetItems ctx req u limit b s) \<and>
     (\<forall>ks. GetRecords ctx req ks s' = GetRecords ctx req ks s) \<and>
     (\<forall>q. ScanRecords ctx req q s' = ScanRecords ctx req q s) \<and>
     (\<forall>e n. GetBlob b3 e ctx req n s' = GetBlob b3 e ctx req n s) \<and>
     (\<forall>n. StatBlob b3 True ctx req n s' = StatBlob b3 True ctx req n s))"

lemma get_records_same_view:
  assumes "svc_inv s" "svc_inv s'" "same_view b3 t s s'"
  shows "get_records (svc_store s') t ks = get_records (svc_store s) t ks"
  using Get_same_view [OF assms] by (induction ks) (simp_all add: EncodeKey_TenantPrefix split: option.split)

lemma same_view_answers:
  assumes "svc_inv s" "svc_inv s'" "same_view b3 t s s'"
  shows "same_answers b3 t s s'"
  unfolding same_answers_def
proof (intro allI impI conjI)
  fix ctx req assume r: "svc_ResolveTenant ctx req s = Inr t"
  then have r': "svc_ResolveTenant ctx req s' = Inr t" using ResolveTenant_same_view [OF assms(3)] by simp
  note sc = Scan_same_view [OF assms]
  show "GetItems ctx req u limit b s' = GetItems ctx req u limit b s" for u limit b
    using r r' by (simp add: GetItems_def Let_def sc ItemPrefix_def EncodeKey_TenantPrefix)
  show "GetRecords ctx req ks s' = GetRecords ctx req ks s" for ks
    using r r' get_records_same_view [OF assms] by (simp add: GetRecords_def)
  show "ScanRecords ctx req q s' = ScanRecords ctx req q s" for q
    using r r' by (simp add: ScanRecords_def record_scan_def Let_def sc EncodeKey_TenantPrefix)
  have b: "\<And>n. blob b3 t n (svc_blobs s') = blob b3 t n (svc_blobs s)" "bs_dir (svc_blobs s') = bs_dir (svc_blobs s)"
    using assms(3) by (simp_all add: same_view_def)
  show "GetBlob b3 e ctx req n s' = GetBlob b3 e ctx req n s" for e n
    using r r' b(1) [of n] b(2) by (simp add: GetBlob_def BlobRead_def blob_def split: if_splits)
  show "StatBlob b3 True ctx req n s' = StatBlob b3 True ctx req n s" for n
    using r r' b(1) [of n] b(2) by (simp add: StatBlob_def BlobSize_def blob_def split: if_splits)
qed

lemma svc_run_respects:
  assumes "svc_run b3 ts s s'" "svc_inv s" "short t" "t \<notin> set ts" "\<forall>t' \<in> set ts. hash_separates b3 t t'"
  shows "svc_inv s' \<and> same_view b3 t s s'"
  using assms
proof (induction rule: svc_run.induct)
  case (step t' s s1 ts s')
  from svc_step_respects [OF step.hyps(1) step.prems(1)] step.prems have "svc_inv s1" "same_view b3 t s s1" by simp_all
  with step same_view_trans show ?case by simp
qed simp

subsection \<open>Properties\<close>

text \<open>A service over a new log and an empty blob directory, and a kernel that grants every call, used to
  instantiate the properties.\<close>

definition fresh_service :: service where
  "fresh_service = \<lparr>svc_store = fresh_store, svc_blobs = \<lparr>bs_dir = True, bs_mem = [], bs_files = []\<rparr>,
     cert_tenant = False, registry = None\<rparr>"

lemma fresh_service_inv: "svc_inv fresh_service"
  using store_inv_fresh by (simp add: svc_inv_def fresh_service_def fresh_store_def)

lemma convo_fresh: "convo t u fresh_service = []"
  by (simp add: convo_def fresh_service_def fresh_store_def underp_def)

lemma rolls_back_granting: "rolls_back granting"
  by (simp add: rolls_back_def granting_def)

lemma length_ItemPrefix: "length (ItemPrefix t u) = 9 + length t + length u"
  by (simp add: ItemPrefix_def EncodeKey_def)

lemma resolve_fresh: "svc_ResolveTenant ctx [97] fresh_service = Inr [97]"
  by (simp add: svc_ResolveTenant_def fresh_service_def)

lemma fits_small_batch:
  assumes "batch_bytes b + 12 + 9 * length b < 2 ^ 31"
  shows "batch_fits b"
proof -
  have "length (mkey m) + length (mvalue m) \<le> batch_bytes b" if "m \<in> set b" for m
    using that unfolding batch_bytes_def by (intro member_le_sum_list) (auto simp: image_iff)
  with assms show ?thesis by (fastforce simp: batch_fits_def small_batch_def intro: record_fits_small)
qed

lemma fresh_append:
  "\<exists>s'. AppendItems granting None [97] [98] [[1], [2]] fresh_service = Some (Inr 3, s')"
  "can_append [97] [98] [[1], [2]] fresh_service"
proof -
  let ?b = "item_batch (ItemPrefix [97] [98]) 1 [[1], [2]]"
  have sz: "batch_bytes ?b = 40" "length ?b = 2"
    by (simp_all add: batch_bytes_def length_ItemPrefix)
  have "rewrite_bytes (smap (ApplyToMapLocked ?b fresh_store)) \<le> 100"
    by (simp add: fresh_store_def apply_mutation_def rewrite_bytes_def entry_bytes_def length_ItemPrefix)
  with Apply_granting [of ?b fresh_store] sz obtain st where "Apply granting ?b fresh_store = Some (True, st)" by auto
  moreover have "AppendItems granting None [97] [98] [[1], [2]] fresh_service = store_apply granting ?b (1 + of_nat 2) fresh_service"
    using AppendItems_batch [OF fresh_service_inv resolve_fresh, of "[98]" "[[1], [2]]" granting]
    by (simp add: convo_fresh next_seq_def kMaxValueBytes_def)
  ultimately show "\<exists>s'. AppendItems granting None [97] [98] [[1], [2]] fresh_service = Some (Inr 3, s')"
    by (simp add: store_apply_def fresh_service_def)
  show "can_append [97] [98] [[1], [2]] fresh_service"
    using sz by (auto simp: can_append_def convo_fresh next_seq_def intro!: fits_small_batch)
qed

lemma fresh_appended:
  obtains s' where "AppendItems granting None [97] [98] [[1], [2]] fresh_service = Some (Inr 3, s')" "svc_inv s'"
    "convo [97] [98] s' = [(1, [1]), (2, [2])]" "svc_ResolveTenant None [97] s' = Inr [97]"
proof -
  obtain s' where a: "AppendItems granting None [97] [98] [[1], [2]] fresh_service = Some (Inr 3, s')"
    using fresh_append(1) by blast
  have "list_all (\<lambda>i. length i \<le> kMaxValueBytes) [[1], [2]]" by (simp add: kMaxValueBytes_def)
  note ef = AppendItems_effect [OF fresh_service_inv resolve_fresh _ _ _ this fresh_append(2) rolls_back_granting a]
  have "convo [97] [98] s' = [(1, [1]), (2, [2])]" using ef(3) by (simp add: convo_fresh next_seq_def)
  moreover have "svc_ResolveTenant None [97] s' = Inr [97]"
    using ef(2) by (simp add: confined_def svc_ResolveTenant_def fresh_service_def)
  ultimately show thesis using that a ef(1) by simp
qed

text \<open>C3: Tenants are isolated. However requests of other tenants interleave, whatever they do (append, pop,
  clear, fork, write, delete, upload), every question this tenant can ask afterwards, of items,
  records or blobs, has the answer it had before, and the service's invariant holds. The hash of the
  blob store is assumed not to collide between this tenant's names and the others'.\<close>

theorem tenant_isolation:
  assumes "svc_run b3 ts s s'" "svc_inv s" "short t" "t \<notin> set ts" "\<forall>t' \<in> set ts. hash_separates b3 t t'"
  shows "svc_inv s' \<and> same_answers b3 t s s'"
  using svc_run_respects [OF assms] same_view_answers assms(2) by blast

theorem tenant_isolation_witness:
  "\<exists>s'. svc_run id [[97]] fresh_service s' \<and> same_answers id [99] fresh_service s'"
proof -
  obtain s' where a: "AppendItems granting None [97] [98] [[1], [2]] fresh_service = Some (Inr 3, s')"
    using fresh_append(1) by blast
  have "svc_step id [97] fresh_service s'"
    by (rule append_items [OF resolve_fresh _ _ _ rolls_back_granting _ fresh_append(2) a]) (simp_all add: kMaxValueBytes_def)
  then have run: "svc_run id [[97]] fresh_service s'" using svc_run.intros by blast
  have "\<forall>t' \<in> set [[97]]. hash_separates id [99] t'" by (simp add: hash_separates_def MemKey_inject)
  with tenant_isolation [OF run fresh_service_inv, of "[99]"] run show ?thesis by auto
qed

text \<open>C7: \<open>AppendItems\<close> appends. When it succeeds, the session is the old one followed by the new items in
  request order, numbered consecutively from the number after the last item (from one in an empty
  session), and the answer is the number the next item will get. When it fails the session is
  unchanged. No other session of any tenant is touched.\<close>

theorem AppendItems_correct:
  assumes "svc_inv s" "svc_ResolveTenant ctx req s = Inr t" "u \<noteq> []" "short t" "short u"
    and "list_all (\<lambda>i. length i \<le> kMaxValueBytes) items" "can_append t u items s" "rolls_back e"
    and "AppendItems e ctx req u items s = Some (r, s')"
  shows "svc_inv s' \<and>
    (case r of
       Inl st \<Rightarrow> st = INTERNAL \<and> convo t u s' = convo t u s
     | Inr n \<Rightarrow> convo t u s' = convo t u s @ number (next_seq (convo t u s)) items \<and> n = next_seq (convo t u s) + of_nat (length items)) \<and>
    (\<forall>t' u'. short t' \<and> short u' \<and> (t', u') \<noteq> (t, u) \<longrightarrow> convo t' u' s' = convo t' u' s)"
proof -
  note ef = AppendItems_effect [OF assms]
  have "\<forall>t' u'. short t' \<and> short u' \<and> (t', u') \<noteq> (t, u) \<longrightarrow> convo t' u' s' = convo t' u' s"
    using confined_convo [OF ef(2) assms(1) ef(1) assms(4,5)] by blast
  with ef(1,3) show ?thesis by auto
qed

theorem AppendItems_correct_witness:
  "\<exists>s'. AppendItems granting None [97] [98] [[1], [2]] fresh_service = Some (Inr 3, s') \<and> svc_inv s' \<and>
     convo [97] [98] s' = [(1, [1]), (2, [2])] \<and> convo [97] [99] s' = []"
proof -
  obtain s' where a: "AppendItems granting None [97] [98] [[1], [2]] fresh_service = Some (Inr 3, s')"
    using fresh_append(1) by blast
  have "list_all (\<lambda>i. length i \<le> kMaxValueBytes) [[1], [2]]" by (simp add: kMaxValueBytes_def)
  from AppendItems_correct [OF fresh_service_inv resolve_fresh _ _ _ this fresh_append(2) rolls_back_granting a] a
  show ?thesis by (auto simp: convo_fresh next_seq_def)
qed

text \<open>C26: Reading a session page by page is complete: a client that keeps asking for what is before the
  first item it received, while told that there is more, gets every item exactly once and in order,
  after at most one request more than there are items, whatever the page limit.\<close>

theorem pages_complete:
  assumes "svc_inv s" "svc_ResolveTenant ctx req s = Inr t" "u \<noteq> []" "short t" "short u"
  shows "fetch_pages (Suc (length (convo t u s))) ctx req u limit 0 s = Some (map snd (convo t u s))"
  using fetch_pages_complete [OF assms, of 0 "Suc (length (convo t u s))"] by (simp add: older_def)

theorem pages_complete_witness: "\<exists>s. convo [97] [98] s = [(1, [1]), (2, [2])] \<and> fetch_pages 3 None [97] [98] 1 0 s = Some [[1], [2]]"
proof -
  obtain s where s: "svc_inv s" "convo [97] [98] s = [(1, [1]), (2, [2])]" "svc_ResolveTenant None [97] s = Inr [97]"
    by (rule fresh_appended)
  from pages_complete [OF s(1,3), of "[98]" 1] s(2) show ?thesis by (intro exI [of _ s]) (simp add: numeral_3_eq_3)
qed




text \<open>C28: \<open>ForkSession\<close> copies a whole session, sequence numbers included, into an empty one, refuses a
  target that has items, and leaves the source and every other session as they were.\<close>

theorem ForkSession_correct:
  assumes "svc_inv s" "svc_ResolveTenant ctx req s = Inr t" "u \<noteq> []" "v \<noteq> []" "u \<noteq> v" "short t" "short u" "short v"
    and "rolls_back e" "batch_fits (map put_entry (map (item_entry (ItemPrefix t v)) (convo t u s)))"
    and "ForkSession e ctx req u v s = Some (r, s')"
  shows "svc_inv s' \<and>
    (case r of
       Inl st \<Rightarrow> convo t v s' = convo t v s \<and> (st = FAILED_PRECONDITION \<and> convo t v s \<noteq> [] \<or> st = INTERNAL)
     | Inr n \<Rightarrow> convo t v s = [] \<and> convo t v s' = convo t u s \<and> n = length (convo t u s)) \<and>
    (\<forall>t' u'. short t' \<and> short u' \<and> (t', u') \<noteq> (t, v) \<longrightarrow> convo t' u' s' = convo t' u' s)"
proof -
  note ef = ForkSession_effect [OF assms]
  have "\<forall>t' u'. short t' \<and> short u' \<and> (t', u') \<noteq> (t, v) \<longrightarrow> convo t' u' s' = convo t' u' s"
    using confined_convo [OF ef(2) assms(1) ef(1) assms(6,8)] by blast
  with ef(1,3) show ?thesis by auto
qed

theorem ForkSession_correct_witness:
  "\<exists>s r s'. convo [97] [98] s = [(1, [1]), (2, [2])] \<and> ForkSession granting None [97] [99] [98] s = Some (r, s') \<and>
     r = Inl FAILED_PRECONDITION \<and> convo [97] [98] s' = [(1, [1]), (2, [2])]"
proof -
  obtain s where s: "svc_inv s" "convo [97] [98] s = [(1, [1]), (2, [2])]" "svc_ResolveTenant None [97] s = Inr [97]"
    and a: "AppendItems granting None [97] [98] [[1], [2]] fresh_service = Some (Inr 3, s)"
    by (rule fresh_appended)
  have inv: "store_inv (svc_store s)" using s(1) by (simp add: svc_inv_def)
  have f: "ForkSession granting None [97] [99] [98] s = Some (Inl FAILED_PRECONDITION, s)"
    using s(2,3) ols_kv.scan_first [OF inv, of "ItemPrefix [97] [98]"] underp_convo [OF s(1), of "[97]" "[98]"]
    by (simp add: ForkSession_def del: One_nat_def)
  have "list_all (\<lambda>i. length i \<le> kMaxValueBytes) [[1], [2]]" by (simp add: kMaxValueBytes_def)
  from AppendItems_effect(2) [OF fresh_service_inv resolve_fresh _ _ _ this fresh_append(2) rolls_back_granting a]
  have "convo [97] [99] s = []"
    using confined_convo [OF _ fresh_service_inv s(1), of "[97]" "[98]" "[97]" "[99]"] by (simp add: convo_fresh)
  then have "batch_fits (map put_entry (map (item_entry (ItemPrefix [97] [98])) (convo [97] [99] s)))"
    by (simp add: fits_small_batch batch_bytes_def)
  from ForkSession_correct [OF s(1,3) _ _ _ _ _ _ rolls_back_granting this f] f s(2) show ?thesis by auto
qed




end
