(* ===== verification/Epoch.thy ===== *)
theory Epoch
  imports Prelude "HOL-Library.Multiset"
begin

section \<open>Epoch-based reclamation\<close>

text \<open>
  The reclamation scheme under the lock-free readers of the prefix index
  (\<open>prefix/epoch.h\<close>, \<open>prefix/epoch.cpp\<close>). The first part has the operations of \<open>EpochManager\<close> and
  \<open>EpochGuard\<close> as functions on the manager's state, with the per-thread slot cache as a map from
  threads to slots. The second part runs them as interleaved steps of readers, one writer and one
  sweeper over an abstract set of nodes: what the structure links, what has been freed, what each
  reader holds. It shows that a sweep which no unlink or retire overtakes frees no node that a
  reader holds, and that the sweep as the code takes it, with the smallest witness read before the
  lock of the retire list, can free one.
\<close>

subsection \<open>The manager\<close>

record 'r EpochManager =
  global_epoch :: u64
  entries :: "u64 list"
  next_slot :: nat
  retired :: "(u64 \<times> 'r) list"
  g_tls_slots :: "nat \<rightharpoonup> nat"

definition kMaxReaderThreads :: nat where
  "kMaxReaderThreads = 256"

definition kQuiescent :: u64 where
  "kQuiescent = 0xFFFFFFFFFFFFFFFF"

definition EpochManager_init :: "'r EpochManager" where
  "EpochManager_init = \<lparr>global_epoch = 1, entries = replicate kMaxReaderThreads kQuiescent,
     next_slot = 0, retired = [], g_tls_slots = Map.empty\<rparr>"

text \<open>The slot of a thread; \<open>None\<close> is \<open>std::abort\<close>, when the pool of slots is exhausted.\<close>

definition MyEntry :: "nat \<Rightarrow> 'r EpochManager \<Rightarrow> (nat \<times> 'r EpochManager) option" where
  "MyEntry t m = (case g_tls_slots m t of
     Some slot \<Rightarrow> Some (slot, m)
   | None \<Rightarrow>
       (let slot = next_slot m; m' = m\<lparr>next_slot := slot + 1\<rparr>
        in if kMaxReaderThreads \<le> slot then None
           else Some (slot, m'\<lparr>g_tls_slots := (g_tls_slots m)(t \<mapsto> slot)\<rparr>)))"

text \<open>\<open>EnterRead\<close> loads the global epoch and then publishes it: two steps for an observer.\<close>

definition publish :: "nat \<Rightarrow> u64 \<Rightarrow> 'r EpochManager \<Rightarrow> 'r EpochManager" where
  "publish slot v m = m\<lparr>entries := (entries m)[slot := v]\<rparr>"

definition EnterRead :: "nat \<Rightarrow> 'r EpochManager \<Rightarrow> 'r EpochManager option" where
  "EnterRead t m = (case MyEntry t m of
     None \<Rightarrow> None
   | Some (slot, m') \<Rightarrow> Some (publish slot (global_epoch m') m'))"

definition ExitRead :: "nat \<Rightarrow> 'r EpochManager \<Rightarrow> 'r EpochManager option" where
  "ExitRead t m = (case MyEntry t m of
     None \<Rightarrow> None
   | Some (slot, m') \<Rightarrow> Some (publish slot kQuiescent m'))"

text \<open>\<open>Retire\<close> advances the epoch and then, under the lock, records the item with the new epoch.\<close>

definition retire_bump :: "'r EpochManager \<Rightarrow> u64 \<times> 'r EpochManager" where
  "retire_bump m = (global_epoch m + 1, m\<lparr>global_epoch := global_epoch m + 1\<rparr>)"

definition retire_push :: "u64 \<Rightarrow> 'r \<Rightarrow> 'r EpochManager \<Rightarrow> 'r EpochManager" where
  "retire_push e x m = m\<lparr>retired := retired m @ [(e, x)]\<rparr>"

definition Retire :: "'r \<Rightarrow> 'r EpochManager \<Rightarrow> 'r EpochManager" where
  "Retire x m = (case retire_bump m of (e, m') \<Rightarrow> retire_push e x m')"

definition scan_limit :: "'r EpochManager \<Rightarrow> nat" where
  "scan_limit m = (if kMaxReaderThreads < next_slot m then kMaxReaderThreads else next_slot m)"

definition scan_slot :: "'r EpochManager \<Rightarrow> u64 \<Rightarrow> nat \<Rightarrow> u64" where
  "scan_slot m min_e i = (let v = entries m ! i in if v < min_e then v else min_e)"

definition MinActiveEpochLocked :: "'r EpochManager \<Rightarrow> u64" where
  "MinActiveEpochLocked m = foldl (scan_slot m) kQuiescent [0..<scan_limit m]"

text \<open>
  The sweep over the retire list: the item at \<open>i\<close> is either run and overwritten by the last one, or
  kept. The result is the list cut at \<open>last\<close> and the items whose deleter ran, in order.
\<close>

function sweep :: "u64 \<Rightarrow> (u64 \<times> 'r) list \<Rightarrow> nat \<Rightarrow> nat \<Rightarrow> 'r list \<Rightarrow> (u64 \<times> 'r) list \<times> 'r list" where
  "sweep safe a i lst gone =
     (if i < lst then
        if fst (a ! i) \<le> safe then sweep safe (a[i := a ! (lst - 1)]) i (lst - 1) (gone @ [snd (a ! i)])
        else sweep safe a (i + 1) lst gone
      else (take lst a, gone))"
  by auto
termination by (relation "measure (\<lambda>(safe, a, i, lst, gone). lst - i)") auto

declare sweep.simps [simp del]

definition reclaim_upto :: "u64 \<Rightarrow> 'r EpochManager \<Rightarrow> 'r EpochManager \<times> 'r list" where
  "reclaim_upto safe m = (case sweep safe (retired m) 0 (length (retired m)) [] of
     (kept, gone) \<Rightarrow> (m\<lparr>retired := kept\<rparr>, gone))"

definition Reclaim :: "'r EpochManager \<Rightarrow> 'r EpochManager \<times> 'r list" where
  "Reclaim m = reclaim_upto (MinActiveEpochLocked m) m"

definition ForceReclaimAll :: "'r EpochManager \<Rightarrow> 'r EpochManager \<times> 'r list" where
  "ForceReclaimAll m = (m\<lparr>retired := []\<rparr>, map snd (retired m))"

definition PendingRetires :: "'r EpochManager \<Rightarrow> nat" where
  "PendingRetires m = length (retired m)"

definition ActiveReaders :: "'r EpochManager \<Rightarrow> nat" where
  "ActiveReaders m = length (filter (\<lambda>i. entries m ! i \<noteq> kQuiescent) [0..<scan_limit m])"

text \<open>
  \<open>EpochGuard\<close>: whether it has a manager, on the thread that holds it. Assigning to a guard leaves
  the manager first and then takes over the other guard.
\<close>

type_synonym EpochGuard = bool

definition EpochGuard_ctor :: "nat \<Rightarrow> 'r EpochManager \<Rightarrow> (EpochGuard \<times> 'r EpochManager) option" where
  "EpochGuard_ctor t m = map_option (Pair True) (EnterRead t m)"

definition EpochGuard_dtor :: "nat \<Rightarrow> EpochGuard \<Rightarrow> 'r EpochManager \<Rightarrow> 'r EpochManager option" where
  "EpochGuard_dtor t g m = (if g then ExitRead t m else Some m)"

definition EpochGuard_assign ::
    "nat \<Rightarrow> EpochGuard \<Rightarrow> EpochGuard \<Rightarrow> 'r EpochManager \<Rightarrow> (EpochGuard \<times> 'r EpochManager) option" where
  "EpochGuard_assign t g old m = map_option (Pair old) (if g then ExitRead t m else Some m)"

subsection \<open>The sweep runs exactly the items that are old enough\<close>

lemma sweep_exact:
  assumes "i \<le> lst" "lst \<le> length a" "\<forall>p \<in> set (take i a). \<not> fst p \<le> safe"
  shows "case sweep safe a i lst gone of (kept, out) \<Rightarrow>
    mset kept = filter_mset (\<lambda>p. \<not> fst p \<le> safe) (mset (take lst a)) \<and>
    mset out = mset gone + image_mset snd (filter_mset (\<lambda>p. fst p \<le> safe) (mset (take lst a)))"
  using assms
proof (induction safe a i lst gone rule: sweep.induct)
  case (1 safe a i lst gone)
  show ?case
  proof (cases "i < lst")
    case False
    with "1.prems" have "\<forall>p \<in> set (take lst a). \<not> fst p \<le> safe" by simp
    then have "filter (\<lambda>p. fst p \<le> safe) (take lst a) = []"
      "filter (\<lambda>p. \<not> fst p \<le> safe) (take lst a) = take lst a"
      by (auto simp: filter_empty_conv filter_id_conv)
    with False show ?thesis by (simp add: sweep.simps [of safe a i lst gone] flip: mset_filter)
  next
    case True
    show ?thesis
    proof (cases "fst (a ! i) \<le> safe")
      case False
      with True "1.prems" "1.IH"(2) show ?thesis
        by (simp add: sweep.simps [of safe a i lst gone] take_Suc_conv_app_nth)
    next
      case old: True
      define b where "b = a[i := a ! (lst - Suc 0)]"
      have "take lst a = take (lst - 1) a @ [a ! (lst - 1)]"
        using True "1.prems"(2) take_Suc_conv_app_nth [of "lst - 1" a] by simp
      moreover have "mset (take (lst - 1) b) + {#a ! i#} = mset (take (lst - 1) a @ [a ! (lst - 1)])"
      proof (cases "i = lst - 1")
        case False
        with True "1.prems"(2) have i: "i < length (take (lst - 1) a)" by simp
        have "take (lst - 1) b = (take (lst - 1) a)[i := a ! (lst - 1)]"
          by (simp add: b_def take_update_swap)
        moreover have "a ! i \<in># mset (take (lst - 1) a)" using i nth_mem [OF i] by simp
        ultimately show ?thesis
          using i mset_update [OF i, of "a ! (lst - 1)"] by (simp add: insert_DiffM)
      qed (simp add: b_def take_update_cancel)
      ultimately have split: "mset (take lst a) = mset (take (lst - 1) b) + {#a ! i#}" by simp
      have "take i b = take i a" by (simp add: b_def take_update_cancel)
      with True old "1.prems" "1.IH"(1) have "case sweep safe b i (lst - 1) (gone @ [snd (a ! i)]) of
          (kept, out) \<Rightarrow>
        mset kept = filter_mset (\<lambda>p. \<not> fst p \<le> safe) (mset (take (lst - 1) b)) \<and>
        mset out = mset (gone @ [snd (a ! i)]) +
          image_mset snd (filter_mset (\<lambda>p. fst p \<le> safe) (mset (take (lst - 1) b)))"
        by (simp add: b_def)
      with True old show ?thesis
        by (simp add: sweep.simps [of safe a i lst gone] b_def [symmetric] split split: prod.splits)
    qed
  qed
qed

lemma reclaim_upto_sets:
  assumes "reclaim_upto safe m = (m', gone)"
  shows "set (retired m') = {p \<in> set (retired m). safe < fst p}"
    and "set gone = snd ` {p \<in> set (retired m). fst p \<le> safe}"
    and "m' = m\<lparr>retired := retired m'\<rparr>"
proof -
  have *: "case sweep safe (retired m) 0 (length (retired m)) [] of (kept, out) \<Rightarrow>
    mset kept = filter_mset (\<lambda>p. \<not> fst p \<le> safe) (mset (retired m)) \<and>
    mset out = image_mset snd (filter_mset (\<lambda>p. fst p \<le> safe) (mset (retired m)))"
    using sweep_exact [of 0 "length (retired m)" "retired m" safe "[]"] by simp
  obtain kept out where sw: "sweep safe (retired m) 0 (length (retired m)) [] = (kept, out)" by fastforce
  with * have k: "mset kept = mset (filter (\<lambda>p. \<not> fst p \<le> safe) (retired m))"
    and o: "mset out = mset (map snd (filter (\<lambda>p. fst p \<le> safe) (retired m)))" by simp_all
  from assms sw have "m' = m\<lparr>retired := kept\<rparr>" "gone = out" by (auto simp: reclaim_upto_def)
  with mset_eq_setD [OF k] mset_eq_setD [OF o]
  show "set (retired m') = {p \<in> set (retired m). safe < fst p}"
    "set gone = snd ` {p \<in> set (retired m). fst p \<le> safe}" "m' = m\<lparr>retired := retired m'\<rparr>"
    by (auto simp: not_le)
qed

subsection \<open>Readers, a writer and a sweeper, interleaved\<close>

text \<open>
  A reader is outside, has loaded the epoch but not published it, or reads and holds the nodes it
  has reached. The writer has unlinked a node, and then advanced the epoch, before it records the
  node as retired. The sweeper scans the slots one by one before it sweeps.
\<close>

datatype reader_pc = RIdle | REntering nat u64 | RReading "nat set"
datatype writer_pc = WIdle | WUnlinked nat | WBumped nat u64
datatype sweeper_pc = CIdle | CScan nat nat u64

record ebr =
  mgr :: "nat EpochManager"
  linked :: "nat set"
  freed :: "nat set"
  reader :: "nat \<Rightarrow> reader_pc"
  writer :: writer_pc
  sweeper :: sweeper_pc

fun in_flight :: "writer_pc \<Rightarrow> nat set" where
  "in_flight WIdle = {}"
| "in_flight (WUnlinked x) = {x}"
| "in_flight (WBumped x e) = {x}"

definition awaiting :: "ebr \<Rightarrow> nat set" where
  "awaiting s = snd ` set (retired (mgr s))"

text \<open>
  With \<open>overtake\<close> the writer may work while a sweep is under way, as the locks of the code allow;
  without it, unlinking and sweeping exclude each other.
\<close>

inductive ebr_step :: "bool \<Rightarrow> ebr \<Rightarrow> ebr \<Rightarrow> bool" for overtake :: bool where
  enter_load: "reader s t = RIdle \<Longrightarrow> MyEntry t (mgr s) = Some (slot, m) \<Longrightarrow>
    ebr_step overtake s (s\<lparr>mgr := m, reader := (reader s)(t := REntering slot (global_epoch m))\<rparr>)"
| enter_publish: "reader s t = REntering slot v \<Longrightarrow>
    ebr_step overtake s (s\<lparr>mgr := publish slot v (mgr s), reader := (reader s)(t := RReading {})\<rparr>)"
| load: "reader s t = RReading H \<Longrightarrow> x \<in> linked s \<Longrightarrow>
    ebr_step overtake s (s\<lparr>reader := (reader s)(t := RReading (insert x H))\<rparr>)"
| exit_read: "reader s t = RReading H \<Longrightarrow> ExitRead t (mgr s) = Some m \<Longrightarrow>
    ebr_step overtake s (s\<lparr>mgr := m, reader := (reader s)(t := RIdle)\<rparr>)"
| link: "writer s = WIdle \<Longrightarrow> x \<notin> linked s \<union> freed s \<union> awaiting s \<Longrightarrow>
    ebr_step overtake s (s\<lparr>linked := insert x (linked s)\<rparr>)"
| unlink: "writer s = WIdle \<Longrightarrow> x \<in> linked s \<Longrightarrow> overtake \<or> sweeper s = CIdle \<Longrightarrow>
    ebr_step overtake s (s\<lparr>linked := linked s - {x}, writer := WUnlinked x\<rparr>)"
| bump: "writer s = WUnlinked x \<Longrightarrow> retire_bump (mgr s) = (e, m) \<Longrightarrow>
    ebr_step overtake s (s\<lparr>mgr := m, writer := WBumped x e\<rparr>)"
| push: "writer s = WBumped x e \<Longrightarrow>
    ebr_step overtake s (s\<lparr>mgr := retire_push e x (mgr s), writer := WIdle\<rparr>)"
| scan_start: "sweeper s = CIdle \<Longrightarrow> overtake \<or> writer s = WIdle \<Longrightarrow>
    ebr_step overtake s (s\<lparr>sweeper := CScan 0 (scan_limit (mgr s)) kQuiescent\<rparr>)"
| scan: "sweeper s = CScan i n mn \<Longrightarrow> i < n \<Longrightarrow>
    ebr_step overtake s (s\<lparr>sweeper := CScan (Suc i) n (scan_slot (mgr s) mn i)\<rparr>)"
| free: "sweeper s = CScan n n mn \<Longrightarrow> reclaim_upto mn (mgr s) = (m, gone) \<Longrightarrow>
    ebr_step overtake s (s\<lparr>mgr := m, freed := freed s \<union> set gone, sweeper := CIdle\<rparr>)"

definition ebr_init :: ebr where
  "ebr_init = \<lparr>mgr = EpochManager_init, linked = {}, freed = {}, reader = (\<lambda>t. RIdle),
     writer = WIdle, sweeper = CIdle\<rparr>"

inductive ebr_reach :: "bool \<Rightarrow> nat \<Rightarrow> ebr \<Rightarrow> bool" for overtake :: bool where
  reach_init: "ebr_reach overtake 0 ebr_init"
| reach_step: "ebr_reach overtake n s \<Longrightarrow> ebr_step overtake s s' \<Longrightarrow> ebr_reach overtake (Suc n) s'"

text \<open>What the invariant says of each part of the state.\<close>

definition slots_ok :: "nat EpochManager \<Rightarrow> bool" where
  "slots_ok m \<longleftrightarrow> length (entries m) = kMaxReaderThreads \<and> next_slot m \<le> kMaxReaderThreads \<and>
     ran (g_tls_slots m) \<subseteq> {..<next_slot m} \<and> inj_on (g_tls_slots m) (dom (g_tls_slots m))"

definition nodes_ok :: "ebr \<Rightarrow> bool" where
  "nodes_ok s \<longleftrightarrow> linked s \<inter> awaiting s = {} \<and> linked s \<inter> freed s = {} \<and>
     linked s \<inter> in_flight (writer s) = {} \<and> awaiting s \<inter> freed s = {} \<and>
     in_flight (writer s) \<inter> freed s = {} \<and> in_flight (writer s) \<inter> awaiting s = {} \<and>
     inj_on snd (set (retired (mgr s)))"

definition protected :: "ebr \<Rightarrow> u64 \<Rightarrow> nat \<Rightarrow> bool" where
  "protected s w x \<longleftrightarrow> x \<in> linked s \<or> writer s = WUnlinked x \<or>
     (\<exists>e. (writer s = WBumped x e \<or> (e, x) \<in> set (retired (mgr s))) \<and> w < e)"

definition readers_ok :: "ebr \<Rightarrow> bool" where
  "readers_ok s \<longleftrightarrow>
     (\<forall>t slot v. reader s t = REntering slot v \<longrightarrow>
        g_tls_slots (mgr s) t = Some slot \<and> v \<le> global_epoch (mgr s)) \<and>
     (\<forall>t H. reader s t = RReading H \<longrightarrow> (\<exists>slot. g_tls_slots (mgr s) t = Some slot \<and>
        entries (mgr s) ! slot \<le> global_epoch (mgr s) \<and>
        (\<forall>x \<in> H. protected s (entries (mgr s) ! slot) x)))"

definition sweep_ok :: "ebr \<Rightarrow> bool" where
  "sweep_ok s \<longleftrightarrow> (\<forall>i n mn. sweeper s = CScan i n mn \<longrightarrow> writer s = WIdle \<and>
     (\<forall>t H x e slot. reader s t = RReading H \<longrightarrow> x \<in> H \<longrightarrow> (e, x) \<in> set (retired (mgr s)) \<longrightarrow>
        g_tls_slots (mgr s) t = Some slot \<longrightarrow> slot < n \<and> (slot < i \<longrightarrow> mn < e)))"

definition ebr_inv :: "nat \<Rightarrow> ebr \<Rightarrow> bool" where
  "ebr_inv n s \<longleftrightarrow> unat (global_epoch (mgr s)) \<le> Suc n \<and> slots_ok (mgr s) \<and> nodes_ok s \<and>
     readers_ok s \<and> sweep_ok s"

subsection \<open>The invariant of the interleaving\<close>

lemma slot_lt: "slots_ok m \<Longrightarrow> g_tls_slots m t = Some i \<Longrightarrow> i < next_slot m"
  by (auto simp: slots_ok_def ran_def)

lemma slot_own: "slots_ok m \<Longrightarrow> g_tls_slots m t = Some i \<Longrightarrow> g_tls_slots m u = Some i \<Longrightarrow> t = u"
  unfolding slots_ok_def by (metis domI inj_on_def)

lemma retired_unique:
  "nodes_ok s \<Longrightarrow> (e, x) \<in> set (retired (mgr s)) \<Longrightarrow> (e', x) \<in> set (retired (mgr s)) \<Longrightarrow> e = e'"
  unfolding nodes_ok_def by (metis fst_conv inj_on_def snd_conv)

lemma MyEntry_keeps:
  assumes "MyEntry t m = Some (slot, m')" "slots_ok m"
  shows "slots_ok m'" "g_tls_slots m' t = Some slot" "global_epoch m' = global_epoch m"
    "entries m' = entries m" "retired m' = retired m"
    "g_tls_slots m u = Some i \<Longrightarrow> g_tls_slots m' u = Some i"
    "u \<noteq> t \<Longrightarrow> g_tls_slots m' u = g_tls_slots m u"
proof -
  show "slots_ok m'"
  proof (cases "g_tls_slots m t")
    case None
    with assms(1) have m': "m' = m\<lparr>next_slot := Suc (next_slot m), g_tls_slots := (g_tls_slots m)(t \<mapsto> next_slot m)\<rparr>"
      and lim: "next_slot m < kMaxReaderThreads"
      by (auto simp: MyEntry_def Let_def split: if_splits)
    have new: "g_tls_slots m u \<noteq> Some (next_slot m)" for u using slot_lt [OF assms(2)] by blast
    from assms(2) have "inj_on ((g_tls_slots m)(t \<mapsto> next_slot m)) (insert t (dom (g_tls_slots m)))"
      using new by (auto simp: slots_ok_def inj_on_def)
    with assms(2) None lim show ?thesis by (auto simp: slots_ok_def m' ran_def less_Suc_eq subset_iff)
  qed (use assms in \<open>simp add: MyEntry_def\<close>)
qed (use assms in \<open>auto simp: MyEntry_def Let_def split: option.splits if_splits\<close>)

lemmas ebr_inv_defs = ebr_inv_def nodes_ok_def readers_ok_def sweep_ok_def awaiting_def

lemma protected_mono:
  "protected s w x \<Longrightarrow> linked s \<subseteq> linked s' \<Longrightarrow> writer s' = writer s \<Longrightarrow>
     retired (mgr s') = retired (mgr s) \<Longrightarrow> w' \<le> w \<Longrightarrow> protected s' w' x"
  by (auto simp: protected_def)

lemma held_not_freed:
  assumes "ebr_inv n s" "reader s t = RReading H" "x \<in> H"
  shows "x \<notin> freed s"
proof -
  from assms obtain w where "protected s w x" unfolding ebr_inv_def readers_ok_def by blast
  with assms(1) show ?thesis by (force simp: ebr_inv_def nodes_ok_def protected_def awaiting_def)
qed

lemma inv_enter_load:
  assumes "ebr_inv n s" "reader s t = RIdle" "MyEntry t (mgr s) = Some (slot, m)"
  shows "ebr_inv n (s\<lparr>mgr := m, reader := (reader s)(t := REntering slot (global_epoch m))\<rparr>)"
proof -
  from assms(1) have so: "slots_ok (mgr s)" by (simp add: ebr_inv_def)
  note k = MyEntry_keeps [OF assms(3) so]
  show ?thesis
    using assms(1,2) k(1-5) k(6,7) by (simp add: ebr_inv_defs protected_def)
qed

lemma slots_ok_publish [simp]: "slots_ok (publish slot v m) = slots_ok m"
  by (simp add: slots_ok_def publish_def)

lemma publish_sel [simp]:
  "global_epoch (publish i v m) = global_epoch m" "retired (publish i v m) = retired m"
  "g_tls_slots (publish i v m) = g_tls_slots m" "next_slot (publish i v m) = next_slot m"
  "entries (publish i v m) = (entries m)[i := v]"
  by (simp_all add: publish_def)

lemma other_slot:
  "slots_ok m \<Longrightarrow> g_tls_slots m t = Some i \<Longrightarrow> g_tls_slots m u = Some j \<Longrightarrow> u \<noteq> t \<Longrightarrow>
     (entries m)[i := v] ! j = entries m ! j"
  by (metis nth_list_update_neq slot_own)

lemma own_slot: "slots_ok m \<Longrightarrow> g_tls_slots m t = Some i \<Longrightarrow> (entries m)[i := v] ! i = v"
  by (metis nth_list_update_eq order_less_le_trans slot_lt slots_ok_def)

text \<open>Writing to the own slot leaves what the other readers rely on.\<close>

lemma inv_publish:
  assumes inv: "ebr_inv n s" and me: "g_tls_slots (mgr s) t = Some slot"
    and pc: "pc = RIdle \<or> pc = RReading {} \<and> v \<le> global_epoch (mgr s)"
  shows "ebr_inv n (s\<lparr>mgr := publish slot v (mgr s), reader := (reader s)(t := pc)\<rparr>)" (is "ebr_inv n ?s")
proof -
  from inv have so: "slots_ok (mgr s)" by (simp add: ebr_inv_def)
  have "\<exists>slot'. g_tls_slots (mgr s) u = Some slot' \<and>
      entries (mgr ?s) ! slot' \<le> global_epoch (mgr s) \<and>
      (\<forall>x \<in> H. protected ?s (entries (mgr ?s) ! slot') x)"
    if r: "reader ?s u = RReading H" for u H
  proof (cases "u = t")
    case True
    with r pc own_slot [OF so me] me show ?thesis by auto
  next
    case False
    with r have "reader s u = RReading H" by simp
    with inv obtain slot' where o: "g_tls_slots (mgr s) u = Some slot'"
      "entries (mgr s) ! slot' \<le> global_epoch (mgr s)"
      "\<forall>x \<in> H. protected s (entries (mgr s) ! slot') x"
      unfolding ebr_inv_def readers_ok_def by blast
    with other_slot [OF so me o(1) False, of v] show ?thesis by (auto simp: protected_def)
  qed
  moreover have "\<And>u sl w. reader ?s u = REntering sl w \<Longrightarrow>
      g_tls_slots (mgr s) u = Some sl \<and> w \<le> global_epoch (mgr s)"
    using inv pc by (auto simp: ebr_inv_def readers_ok_def split: if_splits)
  ultimately have "readers_ok ?s" by (simp add: readers_ok_def)
  moreover have "sweep_ok ?s" using inv pc by (auto simp: ebr_inv_def sweep_ok_def split: if_splits)
  ultimately show ?thesis using inv by (simp add: ebr_inv_def nodes_ok_def awaiting_def)
qed

lemma inv_enter_publish:
  assumes "ebr_inv n s" "reader s t = REntering slot v"
  shows "ebr_inv n (s\<lparr>mgr := publish slot v (mgr s), reader := (reader s)(t := RReading {})\<rparr>)"
proof -
  from assms have "g_tls_slots (mgr s) t = Some slot" "v \<le> global_epoch (mgr s)"
    unfolding ebr_inv_def readers_ok_def by blast+
  with assms(1) show ?thesis by (intro inv_publish) auto
qed

lemma linked_not_retired: "nodes_ok s \<Longrightarrow> x \<in> linked s \<Longrightarrow> (e, x) \<notin> set (retired (mgr s))"
  unfolding nodes_ok_def awaiting_def by (metis disjoint_iff image_eqI snd_conv)

lemma inv_load:
  assumes "ebr_inv n s" "reader s t = RReading H" "x \<in> linked s"
  shows "ebr_inv n (s\<lparr>reader := (reader s)(t := RReading (insert x H))\<rparr>)"
proof -
  from assms have "\<And>e. (e, x) \<notin> set (retired (mgr s))"
    by (simp add: ebr_inv_def linked_not_retired)
  with assms show ?thesis by (auto simp: ebr_inv_defs protected_def)
qed

lemma inv_exit:
  assumes "ebr_inv n s" "reader s t = RReading H" "ExitRead t (mgr s) = Some m"
  shows "ebr_inv n (s\<lparr>mgr := m, reader := (reader s)(t := RIdle)\<rparr>)"
proof -
  from assms(1,2) obtain slot where me: "g_tls_slots (mgr s) t = Some slot"
    unfolding ebr_inv_def readers_ok_def by blast
  with assms(3) have "m = publish slot kQuiescent (mgr s)" by (simp add: ExitRead_def MyEntry_def)
  with inv_publish [OF assms(1) me, of RIdle] show ?thesis by simp
qed

lemma inv_link:
  assumes "ebr_inv n s" "writer s = WIdle" "x \<notin> linked s \<union> freed s \<union> awaiting s"
  shows "ebr_inv n (s\<lparr>linked := insert x (linked s)\<rparr>)" (is "ebr_inv n ?s")
proof -
  from assms have "nodes_ok ?s" by (simp add: ebr_inv_defs)
  moreover from assms have "readers_ok ?s"
    by (fastforce simp: ebr_inv_def readers_ok_def protected_def)
  ultimately show ?thesis using assms by (simp add: ebr_inv_def sweep_ok_def)
qed

lemma inv_unlink:
  assumes "ebr_inv n s" "writer s = WIdle" "x \<in> linked s" "sweeper s = CIdle"
  shows "ebr_inv n (s\<lparr>linked := linked s - {x}, writer := WUnlinked x\<rparr>)" (is "ebr_inv n ?s")
proof -
  from assms have "nodes_ok ?s" by (auto simp: ebr_inv_defs)
  moreover from assms have "readers_ok ?s"
    by (fastforce simp: ebr_inv_def readers_ok_def protected_def)
  ultimately show ?thesis using assms by (simp add: ebr_inv_def sweep_ok_def)
qed

lemma inv_bump:
  assumes "ebr_inv n s" "writer s = WUnlinked x" "retire_bump (mgr s) = (e, m)" "Suc n < 2 ^ 64 - 1"
  shows "ebr_inv (Suc n) (s\<lparr>mgr := m, writer := WBumped x e\<rparr>)" (is "ebr_inv _ ?s")
proof -
  from assms have m: "m = (mgr s)\<lparr>global_epoch := e\<rparr>" and e: "e = global_epoch (mgr s) + 1"
    by (auto simp: retire_bump_def)
  from assms(1) have "unat (global_epoch (mgr s)) \<le> Suc n" by (simp add: ebr_inv_def)
  with assms(4) have un: "unat e = Suc (unat (global_epoch (mgr s)))"
    unfolding e by (simp add: unat_word_ariths)
  then have lt: "w \<le> global_epoch (mgr s) \<Longrightarrow> w < e" for w
    by (simp add: word_less_nat_alt word_le_nat_alt)
  from assms m have "nodes_ok ?s" by (auto simp: ebr_inv_defs)
  moreover from assms(1,2) m lt have "readers_ok ?s"
    by (fastforce simp: ebr_inv_def readers_ok_def protected_def intro: less_imp_le)
  moreover from assms(1,2) m have "sweep_ok ?s" by (auto simp: ebr_inv_def sweep_ok_def)
  moreover from assms(1) m have "slots_ok m" by (simp add: ebr_inv_def slots_ok_def)
  ultimately show ?thesis using assms(1) m un by (simp add: ebr_inv_def)
qed

lemma inv_push:
  assumes "ebr_inv n s" "writer s = WBumped x e"
  shows "ebr_inv n (s\<lparr>mgr := retire_push e x (mgr s), writer := WIdle\<rparr>)" (is "ebr_inv _ ?s")
proof -
  from assms have "nodes_ok ?s" by (auto simp: ebr_inv_defs retire_push_def image_iff)
  moreover from assms have "readers_ok ?s"
    by (fastforce simp: ebr_inv_def readers_ok_def protected_def retire_push_def)
  moreover from assms have "sweep_ok ?s" by (auto simp: ebr_inv_def sweep_ok_def)
  moreover from assms have "slots_ok (mgr ?s)" by (simp add: ebr_inv_def slots_ok_def retire_push_def)
  ultimately show ?thesis using assms(1) by (simp add: ebr_inv_def retire_push_def)
qed

lemma inv_scan_start:
  assumes "ebr_inv n s" "writer s = WIdle"
  shows "ebr_inv n (s\<lparr>sweeper := CScan 0 (scan_limit (mgr s)) kQuiescent\<rparr>)" (is "ebr_inv _ ?s")
proof -
  from assms have "scan_limit (mgr s) = next_slot (mgr s)"
    by (simp add: ebr_inv_def slots_ok_def scan_limit_def)
  with assms have "sweep_ok ?s" by (auto simp: ebr_inv_def sweep_ok_def dest: slot_lt)
  with assms show ?thesis by (simp add: ebr_inv_def nodes_ok_def readers_ok_def protected_def awaiting_def)
qed

lemma held_retired_newer:
  assumes "ebr_inv n s" "writer s = WIdle" "reader s t = RReading H" "x \<in> H"
    "(e, x) \<in> set (retired (mgr s))" "g_tls_slots (mgr s) t = Some slot"
  shows "entries (mgr s) ! slot < e"
proof -
  from assms(1,5) have "x \<notin> linked s" by (auto simp: ebr_inv_def dest: linked_not_retired)
  moreover from assms(1,3,4) obtain slot' where "g_tls_slots (mgr s) t = Some slot'"
    "protected s (entries (mgr s) ! slot') x" unfolding ebr_inv_def readers_ok_def by blast
  ultimately obtain e' where "(e', x) \<in> set (retired (mgr s))" "entries (mgr s) ! slot < e'"
    using assms(2,6) by (auto simp: protected_def)
  moreover from this(1) assms(1,5) have "e' = e" by (auto simp: ebr_inv_def intro: retired_unique)
  ultimately show ?thesis by simp
qed

lemma sweep_okD:
  assumes "ebr_inv n s" "sweeper s = CScan i k mn" "reader s t = RReading H" "x \<in> H"
    "(e, x) \<in> set (retired (mgr s))" "g_tls_slots (mgr s) t = Some slot"
  shows "slot < k" "slot < i \<Longrightarrow> mn < e"
  using assms unfolding ebr_inv_def sweep_ok_def by blast+

lemma inv_scan:
  assumes "ebr_inv n s" "sweeper s = CScan i k mn" "i < k"
  shows "ebr_inv n (s\<lparr>sweeper := CScan (Suc i) k (scan_slot (mgr s) mn i)\<rparr>)" (is "ebr_inv _ ?s")
proof -
  from assms have w: "writer s = WIdle" by (simp add: ebr_inv_def sweep_ok_def)
  have "slot < k \<and> (slot < Suc i \<longrightarrow> scan_slot (mgr s) mn i < e)"
    if h: "reader s t = RReading H" "x \<in> H" "(e, x) \<in> set (retired (mgr s))"
      "g_tls_slots (mgr s) t = Some slot" for t H x e slot
    using sweep_okD [OF assms(1,2) h] held_retired_newer [OF assms(1) w h]
    by (auto simp: scan_slot_def Let_def less_Suc_eq)
  with w have "sweep_ok ?s" unfolding sweep_ok_def by (auto; blast)
  with assms show ?thesis by (simp add: ebr_inv_def nodes_ok_def readers_ok_def protected_def awaiting_def)
qed

lemma inv_free:
  assumes "ebr_inv n s" "sweeper s = CScan k k mn" "reclaim_upto mn (mgr s) = (m, gone)"
  shows "ebr_inv n (s\<lparr>mgr := m, freed := freed s \<union> set gone, sweeper := CIdle\<rparr>)" (is "ebr_inv _ ?s")
proof -
  from assms have w: "writer s = WIdle" by (simp add: ebr_inv_def sweep_ok_def)
  note r = reclaim_upto_sets [OF assms(3)]
  obtain l where "m = (mgr s)\<lparr>retired := l\<rparr>" using r(3) by blast
  then have m: "global_epoch m = global_epoch (mgr s)" "entries m = entries (mgr s)"
    "next_slot m = next_slot (mgr s)" "g_tls_slots m = g_tls_slots (mgr s)" by simp_all
  have "awaiting ?s \<subseteq> awaiting s" "set gone \<subseteq> awaiting s" using r(1,2) by (auto simp: awaiting_def)
  moreover have "awaiting ?s \<inter> set gone = {}"
  proof -
    have "\<not> (\<exists>e e' x. (e, x) \<in> set (retired m) \<and> (e', x) \<in> set (retired (mgr s)) \<and> e' \<le> mn)"
      using assms(1) r(1) by (auto simp: ebr_inv_def dest: retired_unique)
    then show ?thesis using r(2) by (force simp: awaiting_def)
  qed
  moreover have "inj_on snd (set (retired m))"
    using assms(1) r(1) by (auto simp: ebr_inv_def nodes_ok_def intro: inj_on_subset)
  moreover from assms(1) have "linked s \<inter> awaiting s = {}" "linked s \<inter> freed s = {}"
    "awaiting s \<inter> freed s = {}" by (simp_all add: ebr_inv_def nodes_ok_def)
  ultimately have "linked s \<inter> awaiting ?s = {}" "linked s \<inter> (freed s \<union> set gone) = {}"
    "awaiting ?s \<inter> (freed s \<union> set gone) = {}" "inj_on snd (set (retired m))" by blast+
  then have "nodes_ok ?s" by (simp add: nodes_ok_def w)
  moreover have "readers_ok ?s"
  proof -
    have "protected ?s (entries (mgr s) ! slot) x"
      if h: "reader s t = RReading H" "x \<in> H" "g_tls_slots (mgr s) t = Some slot"
        and p: "protected s (entries (mgr s) ! slot) x" for t H x slot
    proof (cases "x \<in> linked s")
      case False
      with p w obtain e where e: "(e, x) \<in> set (retired (mgr s))" "entries (mgr s) ! slot < e"
        by (auto simp: protected_def)
      from sweep_okD [OF assms(1,2) h(1,2) e(1) h(3)] have "mn < e" by simp
      with e r(1) show ?thesis by (auto simp: protected_def)
    qed (simp add: protected_def)
    then have "\<exists>slot. g_tls_slots (mgr s) t = Some slot \<and> entries (mgr s) ! slot \<le> global_epoch (mgr s) \<and>
        (\<forall>x \<in> H. protected ?s (entries (mgr s) ! slot) x)" if "reader s t = RReading H" for t H
      using that assms(1) unfolding ebr_inv_def readers_ok_def by blast
    with assms(1) show ?thesis by (simp add: ebr_inv_def readers_ok_def m)
  qed
  ultimately show ?thesis using assms(1) m by (simp add: ebr_inv_def sweep_ok_def slots_ok_def)
qed

lemma ebr_inv_mono: "ebr_inv n s \<Longrightarrow> ebr_inv (Suc n) s"
  by (simp add: ebr_inv_def)

lemma ebr_inv_step:
  assumes "ebr_step False s s'" "ebr_inv n s" "Suc n < 2 ^ 64 - 1"
  shows "ebr_inv (Suc n) s'"
  using assms
proof cases
  case (bump x e m)
  then show ?thesis using assms by (simp only: inv_bump)
qed (use assms in \<open>auto intro!: ebr_inv_mono inv_enter_load inv_enter_publish inv_load inv_exit
    inv_link inv_unlink inv_push inv_scan_start inv_scan inv_free\<close>)

lemma ebr_inv_init: "ebr_inv 0 ebr_init"
  by (simp add: ebr_inv_def ebr_init_def slots_ok_def nodes_ok_def readers_ok_def sweep_ok_def
      EpochManager_init_def awaiting_def)

lemma ebr_inv_reach: "ebr_reach False n s \<Longrightarrow> n < 2 ^ 64 - 1 \<Longrightarrow> ebr_inv n s"
  by (induction rule: ebr_reach.induct) (auto simp: ebr_inv_init intro: ebr_inv_step)

subsection \<open>Runs, event by event\<close>

datatype ebr_event = EnterLoad nat | Publish nat | Load nat nat | Exit nat | Link nat | Unlink nat
  | Bump | Push | ScanStart | Scan | Free

fun ebr_exec :: "bool \<Rightarrow> ebr_event \<Rightarrow> ebr \<Rightarrow> ebr option" where
  "ebr_exec overtake (EnterLoad t) s = (case (reader s t, MyEntry t (mgr s)) of
     (RIdle, Some (slot, m)) \<Rightarrow>
       Some (s\<lparr>mgr := m, reader := (reader s)(t := REntering slot (global_epoch m))\<rparr>)
   | _ \<Rightarrow> None)"
| "ebr_exec overtake (Publish t) s = (case reader s t of
     REntering slot v \<Rightarrow> Some (s\<lparr>mgr := publish slot v (mgr s), reader := (reader s)(t := RReading {})\<rparr>)
   | _ \<Rightarrow> None)"
| "ebr_exec overtake (Load t x) s = (case reader s t of
     RReading H \<Rightarrow> if x \<in> linked s then Some (s\<lparr>reader := (reader s)(t := RReading (insert x H))\<rparr>) else None
   | _ \<Rightarrow> None)"
| "ebr_exec overtake (Exit t) s = (case (reader s t, ExitRead t (mgr s)) of
     (RReading H, Some m) \<Rightarrow> Some (s\<lparr>mgr := m, reader := (reader s)(t := RIdle)\<rparr>)
   | _ \<Rightarrow> None)"
| "ebr_exec overtake (Link x) s =
     (if writer s = WIdle \<and> x \<notin> linked s \<union> freed s \<union> awaiting s
      then Some (s\<lparr>linked := insert x (linked s)\<rparr>) else None)"
| "ebr_exec overtake (Unlink x) s =
     (if writer s = WIdle \<and> x \<in> linked s \<and> (overtake \<or> sweeper s = CIdle)
      then Some (s\<lparr>linked := linked s - {x}, writer := WUnlinked x\<rparr>) else None)"
| "ebr_exec overtake Bump s = (case (writer s, retire_bump (mgr s)) of
     (WUnlinked x, (e, m)) \<Rightarrow> Some (s\<lparr>mgr := m, writer := WBumped x e\<rparr>)
   | _ \<Rightarrow> None)"
| "ebr_exec overtake Push s = (case writer s of
     WBumped x e \<Rightarrow> Some (s\<lparr>mgr := retire_push e x (mgr s), writer := WIdle\<rparr>)
   | _ \<Rightarrow> None)"
| "ebr_exec overtake ScanStart s =
     (if sweeper s = CIdle \<and> (overtake \<or> writer s = WIdle)
      then Some (s\<lparr>sweeper := CScan 0 (scan_limit (mgr s)) kQuiescent\<rparr>) else None)"
| "ebr_exec overtake Scan s = (case sweeper s of
     CScan i n mn \<Rightarrow> if i < n then Some (s\<lparr>sweeper := CScan (Suc i) n (scan_slot (mgr s) mn i)\<rparr>) else None
   | _ \<Rightarrow> None)"
| "ebr_exec overtake Free s = (case sweeper s of
     CScan i n mn \<Rightarrow> if i = n then (case reclaim_upto mn (mgr s) of (m, gone) \<Rightarrow>
         Some (s\<lparr>mgr := m, freed := freed s \<union> set gone, sweeper := CIdle\<rparr>)) else None
   | _ \<Rightarrow> None)"

fun ebr_run :: "bool \<Rightarrow> ebr_event list \<Rightarrow> ebr \<Rightarrow> ebr option" where
  "ebr_run overtake [] s = Some s"
| "ebr_run overtake (ev # evs) s =
     (case ebr_exec overtake ev s of None \<Rightarrow> None | Some s' \<Rightarrow> ebr_run overtake evs s')"

lemma ebr_exec_step: "ebr_exec overtake ev s = Some s' \<Longrightarrow> ebr_step overtake s s'"
  by (cases ev)
    (auto split: reader_pc.splits writer_pc.splits sweeper_pc.splits option.splits prod.splits if_splits
      intro: ebr_step.intros)

lemma ebr_run_reach:
  "ebr_run overtake evs s = Some s' \<Longrightarrow> ebr_reach overtake n s \<Longrightarrow> ebr_reach overtake (n + length evs) s'"
proof (induction evs arbitrary: s n)
  case (Cons ev evs)
  then obtain s1 where "ebr_exec overtake ev s = Some s1" "ebr_run overtake evs s1 = Some s'"
    by (auto split: option.splits)
  with Cons.IH [of s1 "Suc n"] Cons.prems(2) show ?case by (auto intro: reach_step ebr_exec_step)
qed simp

lemmas ebr_run_init = ebr_run_reach [OF _ reach_init, simplified]

lemmas ebr_eval = ebr_init_def EpochManager_init_def MyEntry_def publish_def retire_bump_def
  retire_push_def scan_limit_def scan_slot_def reclaim_upto_def awaiting_def kMaxReaderThreads_def
  kQuiescent_def sweep.simps

text \<open>A reader that keeps a node across a whole sweep, and the same with the writer overtaking it.\<close>

definition held_events :: "ebr_event list" where
  "held_events = [Link 7, EnterLoad 4, Publish 4, Load 4 7, Unlink 7, Bump, Push, ScanStart, Scan, Free]"

definition race_events :: "ebr_event list" where
  "race_events = [Link 7, ScanStart, EnterLoad 4, Publish 4, Load 4 7, Unlink 7, Bump, Push, Free]"

lemma held_run:
  "\<exists>s. ebr_run False held_events ebr_init = Some s \<and> reader s 4 = RReading {7} \<and>
     PendingRetires (mgr s) = 1"
  by (simp add: held_events_def ebr_eval PendingRetires_def) (simp add: word_le_nat_alt)

lemma race_run:
  "\<exists>s. ebr_run True race_events ebr_init = Some s \<and> reader s 4 = RReading {7} \<and> freed s = {7}"
  by (simp add: race_events_def ebr_eval)

subsection \<open>Properties\<close>

text \<open>C5: Readers, one writer and one sweeper of the reclamation scheme take steps in any interleaving
  in which no node is unlinked or retired between the start and the end of a sweep. Then, as long as
  the 64-bit epoch does not wrap, no reader ever holds a node that has been freed, however the slot
  scan interleaves with readers that enter, load and leave.\<close>

theorem ebr_safe:
  assumes "ebr_reach False n s" and "n < 2 ^ 64 - 1" and "reader s t = RReading H"
  shows "H \<inter> freed s = {}"
  using held_not_freed [OF ebr_inv_reach [OF assms(1,2)] assms(3)] by blast

theorem ebr_safe_witness:
  "\<exists>s. ebr_run False held_events ebr_init = Some s \<and> PendingRetires (mgr s) = 1 \<and>
     reader s 4 = RReading {7} \<and> {7} \<inter> freed s = {}"
proof -
  obtain s where s: "ebr_run False held_events ebr_init = Some s" "reader s 4 = RReading {7}"
    "PendingRetires (mgr s) = 1" using held_run by blast
  have "length held_events = 10" by (simp add: held_events_def)
  with ebr_run_init [OF s(1)] have "ebr_reach False 10 s" by simp
  from ebr_safe [OF this _ s(2)] s show ?thesis by auto
qed

text \<open>C35: \<open>EpochManager::Reclaim\<close> reads the smallest witness before it takes the lock of the retire
  list. When a reader enters and loads a node after that, and the writer then unlinks and retires the
  node before the sweep, the sweep frees the node while the reader still holds it: nine steps from
  the initial state lead there.\<close>

theorem ebr_race:
  "\<exists>n s t H. ebr_reach True n s \<and> n = 9 \<and> reader s t = RReading H \<and> H \<inter> freed s \<noteq> {}"
proof -
  obtain s where s: "ebr_run True race_events ebr_init = Some s" "reader s 4 = RReading {7}"
    "freed s = {7}" using race_run by blast
  have "length race_events = 9" by (simp add: race_events_def)
  with ebr_run_init [OF s(1)] have "ebr_reach True 9 s" by simp
  with s show ?thesis by blast
qed

subsection \<open>Guards\<close>

text \<open>
  A guard that is assigned a fresh guard of the same thread stays active with a quiescent slot: the
  assignment leaves the epoch after the new guard has entered it.
\<close>

lemma guard_reassigned:
  assumes "EnterRead t m = Some m1" and "slots_ok m"
    and "EpochGuard_ctor t m1 = Some (g, m2)" and "EpochGuard_assign t True g m2 = Some (h, m3)"
  shows "h \<and> (\<exists>slot. g_tls_slots m3 t = Some slot \<and> entries m3 ! slot = kQuiescent)"
proof -
  obtain slot m' where e: "MyEntry t m = Some (slot, m')" "m1 = publish slot (global_epoch m') m'"
    using assms(1) by (auto simp: EnterRead_def split: option.splits)
  note k = MyEntry_keeps [OF e(1) assms(2)]
  have t1: "g_tls_slots m1 t = Some slot" by (simp add: e(2) k(2))
  with assms(3) have m2: "g" "m2 = publish slot (global_epoch m1) m1"
    by (auto simp: EpochGuard_ctor_def EnterRead_def MyEntry_def)
  with t1 assms(4) have "h" "m3 = publish slot kQuiescent m2"
    by (auto simp: EpochGuard_assign_def ExitRead_def MyEntry_def)
  moreover have "slots_ok m2" using k(1) by (simp add: m2 e(2))
  ultimately show ?thesis using t1 own_slot [of m2 t slot kQuiescent] by (auto simp: m2)
qed

subsection \<open>A sweep that runs alone\<close>

text \<open>A sweep that runs alone is \<open>Reclaim\<close>: the scan steps compute \<open>MinActiveEpochLocked\<close>.\<close>

lemma scans_alone:
  "sweeper s = CScan i (i + k) mn \<Longrightarrow> ebr_run overtake (replicate k Scan) s =
     Some (s\<lparr>sweeper := CScan (i + k) (i + k) (foldl (scan_slot (mgr s)) mn [i..<i + k])\<rparr>)"
proof (induction k arbitrary: s i mn)
  case (Suc k)
  have "[i..<i + Suc k] = i # [Suc i..<Suc i + k]" by (simp add: upt_rec [of i] del: upt_Suc)
  with Suc.IH [of "s\<lparr>sweeper := CScan (Suc i) (Suc i + k) (scan_slot (mgr s) mn i)\<rparr>" "Suc i"] Suc.prems
  show ?case by (simp del: upt_Suc)
qed simp

lemma ebr_run_append:
  "ebr_run overtake (a @ b) s = (case ebr_run overtake a s of None \<Rightarrow> None | Some s' \<Rightarrow> ebr_run overtake b s')"
  by (induction a arbitrary: s) (simp_all split: option.splits)

lemma Reclaim_alone:
  assumes "sweeper s = CIdle" "writer s = WIdle"
  shows "ebr_run overtake (ScanStart # replicate (scan_limit (mgr s)) Scan @ [Free]) s =
    (case Reclaim (mgr s) of (m, gone) \<Rightarrow> Some (s\<lparr>mgr := m, freed := freed s \<union> set gone\<rparr>))"
  using assms scans_alone [of "s\<lparr>sweeper := CScan 0 (scan_limit (mgr s)) kQuiescent\<rparr>" 0]
  by (simp add: ebr_run_append Reclaim_def MinActiveEpochLocked_def split: prod.splits)

end
