(* ===== verification/MapStore.thy ===== *)
theory MapStore
  imports Prelude
begin

section \<open>Stores that implement a finite map\<close>

text \<open>
  The contract between a keyed in-memory structure and the logs that rebuild it: each update changes
  the abstract map at one key. The lemmas of the locale lift that to sequences of updates, and the
  lemmas on maps show what a log replayer relies on: replaying a sequence on top of a state that
  already contains it changes nothing.
\<close>

datatype ('k, 'd) map_op = MPut 'k 'd | MDel 'k

fun op_key :: "('k, 'd) map_op \<Rightarrow> 'k" where
  "op_key (MPut k d) = k"
| "op_key (MDel k) = k"

fun op_value :: "('k, 'd) map_op \<Rightarrow> 'd option" where
  "op_value (MPut k d) = Some d"
| "op_value (MDel k) = None"

definition map_apply :: "('k, 'd) map_op \<Rightarrow> ('k \<rightharpoonup> 'd) \<Rightarrow> ('k \<rightharpoonup> 'd)" where
  "map_apply u m = m(op_key u := op_value u)"

fun store_apply ::
    "('k \<Rightarrow> 'd \<Rightarrow> 's \<Rightarrow> 's) \<Rightarrow> ('k \<Rightarrow> 's \<Rightarrow> 's) \<Rightarrow> ('k, 'd) map_op \<Rightarrow> 's \<Rightarrow> 's" where
  "store_apply put del (MPut k d) s = put k d s"
| "store_apply put del (MDel k) s = del k s"

lemma map_replay_lookup:
  "fold map_apply us m k =
     (case List.find (\<lambda>u. op_key u = k) (rev us) of None \<Rightarrow> m k | Some u \<Rightarrow> op_value u)"
  by (induction us rule: rev_induct) (simp_all add: map_apply_def)

lemma map_replay_twice: "fold map_apply us (fold map_apply us m) = fold map_apply us m"
  by (rule ext) (simp add: map_replay_lookup split: option.splits)

text \<open>More generally, a suffix of the history may be replayed again on its end.\<close>

lemma map_replay_suffix: "fold map_apply us (fold map_apply (vs @ us) m) = fold map_apply (vs @ us) m"
  by (simp add: map_replay_twice)

locale map_store =
  fixes inv :: "'s \<Rightarrow> bool"
    and ok :: "'k \<Rightarrow> bool"
    and get :: "'s \<Rightarrow> 'k \<rightharpoonup> 'd"
    and put :: "'k \<Rightarrow> 'd \<Rightarrow> 's \<Rightarrow> 's"
    and del :: "'k \<Rightarrow> 's \<Rightarrow> 's"
  assumes put_inv: "inv s \<Longrightarrow> ok k \<Longrightarrow> inv (put k d s)"
    and put_get: "inv s \<Longrightarrow> ok k \<Longrightarrow> get (put k d s) = (get s)(k \<mapsto> d)"
    and del_inv: "inv s \<Longrightarrow> ok k \<Longrightarrow> inv (del k s)"
    and del_get: "inv s \<Longrightarrow> ok k \<Longrightarrow> get (del k s) = (get s)(k := None)"
begin

lemma apply_refines:
  "inv s \<Longrightarrow> ok (op_key u) \<Longrightarrow>
     inv (store_apply put del u s) \<and> get (store_apply put del u s) = map_apply u (get s)"
  by (cases u) (simp_all add: put_inv put_get del_inv del_get map_apply_def)

lemma replay_refines:
  "inv s \<Longrightarrow> \<forall>u \<in> set us. ok (op_key u) \<Longrightarrow>
     inv (fold (store_apply put del) us s) \<and> get (fold (store_apply put del) us s) = fold map_apply us (get s)"
proof (induction us arbitrary: s)
  case (Cons u us)
  with apply_refines [of s u] Cons.IH [of "store_apply put del u s"] show ?case by simp
qed simp

lemma replay_again:
  "inv s \<Longrightarrow> \<forall>u \<in> set us. ok (op_key u) \<Longrightarrow> s' = fold (store_apply put del) us s \<Longrightarrow>
     get (fold (store_apply put del) us s') = get s'"
  using replay_refines [of s us] replay_refines [of s' us] by (simp add: map_replay_twice)

end

end
