(* ===== verification/ArtIndex.thy ===== *)
theory ArtIndex
  imports Epoch MapStore
begin

section \<open>The prefix index: an adaptive radix tree with sibling chains\<close>

text \<open>
  \<open>prefix/art_index.cpp\<close>. A key is a path of 8-byte chunk hashes. A node has 256 child slots,
  chosen by the first byte of the next hash; a slot is the head of a chain of siblings, told apart by
  the other seven bytes, which are the edge of the sibling. A terminal entry is a leaf, or data
  embedded in an inner node that also has children. A chain (a list linked by \<open>chain_next\<close>) is a
  list here, and a walk's position in it is an index; what a writer replaces goes to the retire list
  of the epoch manager.

  The lemmas show that the exact lookup is a finite map which \<open>Insert\<close> and \<open>Remove\<close> update at one
  path, and that \<open>Lookup\<close> is the longest prefix of the path in that map.
\<close>

subsection \<open>Nodes\<close>

type_synonym ChunkHash = bytes
type_synonym chunk_path = "bytes list"

datatype 'd ArtNode =
    ArtInner256 (edge_tail: bytes) (edge_tail_valid: bool) (children: "'d ArtNode list list")
      (embedded_leaf: "'d option")
  | ArtLeaf (edge_tail: bytes) (edge_tail_valid: bool) (data: 'd)
  where
    "children (ArtLeaf t v d) = []"
  | "embedded_leaf (ArtLeaf t v d) = None"

definition ArtInner256_new :: "'d ArtNode" where
  "ArtInner256_new = ArtInner256 (replicate 7 0) False (replicate 256 []) None"

definition slot_of :: "ChunkHash \<Rightarrow> nat" where
  "slot_of h = unat (h ! 0)"

definition edge_of :: "ChunkHash \<Rightarrow> bytes" where
  "edge_of h = drop 1 h"

definition EdgeMatches :: "'d ArtNode \<Rightarrow> ChunkHash \<Rightarrow> bool" where
  "EdgeMatches child h \<longleftrightarrow> edge_tail_valid child \<and> edge_tail child = edge_of h"

fun SetEdge :: "ChunkHash \<Rightarrow> 'd ArtNode \<Rightarrow> 'd ArtNode" where
  "SetEdge h (ArtInner256 t v cs e) = ArtInner256 (edge_of h) True cs e"
| "SetEdge h (ArtLeaf t v d) = ArtLeaf (edge_of h) True d"

text \<open>The index of the sibling whose edge matches; its predecessor is the one before it.\<close>

fun WalkChain :: "'d ArtNode list \<Rightarrow> ChunkHash \<Rightarrow> nat option" where
  "WalkChain [] h = None"
| "WalkChain (cur # chain) h = (if EdgeMatches cur h then Some 0 else map_option Suc (WalkChain chain h))"

fun store_child :: "'d ArtNode \<Rightarrow> nat \<Rightarrow> 'd ArtNode list \<Rightarrow> 'd ArtNode" where
  "store_child (ArtInner256 t v cs e) slot chain = ArtInner256 t v (cs[slot := chain]) e"
| "store_child (ArtLeaf t v d) slot chain = ArtLeaf t v d"

subsection \<open>The index and its operations\<close>

text \<open>What is handed to the epoch manager: an emptied leaf, a leaf with its data, or bare data.\<close>

datatype 'd garbage = Husk | OldLeaf 'd | OldData 'd

datatype InsertResult = kInserted | kReplaced | kPathConflict

record 'd ArtIndex =
  root :: "'d ArtNode"
  leaf_count :: nat
  node_count :: nat
  epochs :: "'d garbage EpochManager"

definition ArtIndex_new :: "'d ArtIndex" where
  "ArtIndex_new = \<lparr>root = ArtInner256_new, leaf_count = 0, node_count = 0, epochs = EpochManager_init\<rparr>"

text \<open>The terminal hop of \<open>Insert\<close>: the new parent, the result, and what was replaced.\<close>

definition insert_last ::
    "'d ArtNode \<Rightarrow> ChunkHash \<Rightarrow> 'd \<Rightarrow> 'd ArtNode \<times> InsertResult \<times> 'd garbage list" where
  "insert_last cur h leaf = (let slot = slot_of h; chain = children cur ! slot in
     case WalkChain chain h of
       Some i \<Rightarrow> (case chain ! i of
           ArtInner256 t v cs emb \<Rightarrow>
             (store_child cur slot (chain[i := ArtInner256 t v cs (Some leaf)]),
              case emb of Some old \<Rightarrow> (kReplaced, [OldData old]) | None \<Rightarrow> (kInserted, []))
         | ArtLeaf t v old \<Rightarrow>
             (store_child cur slot (chain[i := SetEdge h (ArtLeaf t v leaf)]), kReplaced, [OldLeaf old]))
     | None \<Rightarrow> (store_child cur slot (chain @ [ArtLeaf (edge_of h) True leaf]), kInserted, []))"

text \<open>The node of a hop that is not the last: a terminal leaf is demoted into an inner node.\<close>

fun demote :: "'d ArtNode \<Rightarrow> 'd ArtNode \<times> nat \<times> 'd garbage list" where
  "demote (ArtLeaf t v d) = (ArtInner256 t v (replicate 256 []) (Some d), 1, [Husk])"
| "demote (ArtInner256 t v cs e) = (ArtInner256 t v cs e, 0, [])"

fun insert_walk ::
    "'d ArtNode \<Rightarrow> chunk_path \<Rightarrow> 'd \<Rightarrow> 'd ArtNode \<times> nat \<times> InsertResult \<times> 'd garbage list" where
  "insert_walk cur [] leaf = (cur, 0, kPathConflict, [])"
| "insert_walk cur [h] leaf = (case insert_last cur h leaf of (cur', r, g) \<Rightarrow> (cur', 0, r, g))"
| "insert_walk cur (h # h' # path) leaf = (let slot = slot_of h; chain = children cur ! slot in
     case WalkChain chain h of
       Some i \<Rightarrow> (case demote (chain ! i) of (nxt, n, g) \<Rightarrow>
         (case insert_walk nxt (h' # path) leaf of (nxt', n', r, g') \<Rightarrow>
            (store_child cur slot (chain[i := nxt']), n + n', r, g @ g')))
     | None \<Rightarrow> (case insert_walk (SetEdge h ArtInner256_new) (h' # path) leaf of (nxt', n', r, g') \<Rightarrow>
            (store_child cur slot (chain @ [nxt']), 1 + n', r, g')))"

definition retire_all :: "'d garbage list \<Rightarrow> 'd ArtIndex \<Rightarrow> 'd ArtIndex" where
  "retire_all g a = a\<lparr>epochs := fold Retire g (epochs a)\<rparr>"

definition Insert :: "chunk_path \<Rightarrow> 'd \<Rightarrow> 'd ArtIndex \<Rightarrow> 'd ArtIndex \<times> InsertResult" where
  "Insert path leaf a =
     (if path = [] then (a, kPathConflict)
      else (case insert_walk (root a) path leaf of (cur, n, r, g) \<Rightarrow>
        (retire_all g (a\<lparr>root := cur, node_count := node_count a + n,
           leaf_count := leaf_count a + (if r = kInserted then 1 else 0)\<rparr>), r)))"

text \<open>\<open>Remove\<close>: \<open>None\<close> is the return value \<open>false\<close>.\<close>

fun remove_walk :: "'d ArtNode \<Rightarrow> chunk_path \<Rightarrow> ('d ArtNode \<times> 'd garbage list) option" where
  "remove_walk cur [] = None"
| "remove_walk cur [h] = (let slot = slot_of h; chain = children cur ! slot in
     case WalkChain chain h of
       None \<Rightarrow> None
     | Some i \<Rightarrow> (case chain ! i of
         ArtInner256 t v cs emb \<Rightarrow> (case emb of
             None \<Rightarrow> None
           | Some old \<Rightarrow> Some (store_child cur slot (chain[i := ArtInner256 t v cs None]), [OldData old]))
       | ArtLeaf t v old \<Rightarrow>
           Some (store_child cur slot (take i chain @ drop (Suc i) chain), [OldLeaf old])))"
| "remove_walk cur (h # h' # path) = (let slot = slot_of h; chain = children cur ! slot in
     case WalkChain chain h of
       None \<Rightarrow> None
     | Some i \<Rightarrow> (case chain ! i of
         ArtLeaf t v d \<Rightarrow> None
       | ArtInner256 t v cs emb \<Rightarrow>
           (case remove_walk (ArtInner256 t v cs emb) (h' # path) of
              None \<Rightarrow> None
            | Some (nxt, g) \<Rightarrow> Some (store_child cur slot (chain[i := nxt]), g))))"

definition Remove :: "chunk_path \<Rightarrow> 'd ArtIndex \<Rightarrow> 'd ArtIndex \<times> bool" where
  "Remove path a = (case remove_walk (root a) path of
     None \<Rightarrow> (a, False)
   | Some (cur, g) \<Rightarrow> (retire_all g (a\<lparr>root := cur, leaf_count := leaf_count a - 1\<rparr>), True))"

text \<open>\<open>LookupResult\<close>: the number of matched chunks and the leaf, if any.\<close>

fun lookup_walk :: "'d ArtNode \<Rightarrow> chunk_path \<Rightarrow> nat \<Rightarrow> nat \<times> 'd option \<Rightarrow> nat \<times> 'd option" where
  "lookup_walk cur [] i best = best"
| "lookup_walk cur (h # path) i best = (let chain = children cur ! slot_of h in
     case WalkChain chain h of
       None \<Rightarrow> best
     | Some k \<Rightarrow> (case chain ! k of
         ArtLeaf t v d \<Rightarrow> (i + 1, Some d)
       | ArtInner256 t v cs emb \<Rightarrow>
           lookup_walk (ArtInner256 t v cs emb) path (i + 1)
             (case emb of Some d \<Rightarrow> (i + 1, Some d) | None \<Rightarrow> best)))"

definition Lookup :: "'d ArtIndex \<Rightarrow> chunk_path \<Rightarrow> nat \<times> 'd option" where
  "Lookup a path = lookup_walk (root a) path 0 (0, None)"

fun exact_walk :: "'d ArtNode \<Rightarrow> chunk_path \<Rightarrow> 'd option" where
  "exact_walk cur [] = None"
| "exact_walk cur [h] = (let chain = children cur ! slot_of h in
     case WalkChain chain h of
       None \<Rightarrow> None
     | Some i \<Rightarrow> (case chain ! i of ArtLeaf t v d \<Rightarrow> Some d | ArtInner256 t v cs emb \<Rightarrow> emb))"
| "exact_walk cur (h # h' # path) = (let chain = children cur ! slot_of h in
     case WalkChain chain h of
       None \<Rightarrow> None
     | Some i \<Rightarrow> (case chain ! i of
         ArtLeaf t v d \<Rightarrow> None
       | ArtInner256 t v cs emb \<Rightarrow> exact_walk (ArtInner256 t v cs emb) (h' # path)))"

definition LookupByPath :: "'d ArtIndex \<Rightarrow> chunk_path \<Rightarrow> 'd option" where
  "LookupByPath a path = exact_walk (root a) path"

subsection \<open>Well-formed trees\<close>

definition hash_ok :: "ChunkHash \<Rightarrow> bool" where
  "hash_ok h \<longleftrightarrow> length h = 8"

definition path_ok :: "chunk_path \<Rightarrow> bool" where
  "path_ok p \<longleftrightarrow> p \<noteq> [] \<and> (\<forall>h \<in> set p. hash_ok h)"

function node_ok :: "'d ArtNode \<Rightarrow> bool" where
  "node_ok (ArtLeaf t v d) \<longleftrightarrow> v \<and> length t = 7"
| "node_ok (ArtInner256 t v cs e) \<longleftrightarrow> v \<and> length t = 7 \<and> length cs = 256 \<and>
     (\<forall>c \<in> set cs. distinct (map edge_tail c) \<and> (\<forall>n \<in> set c. node_ok n))"
  by pat_completeness auto
termination
proof (relation "measure size")
  fix t v cs e c n
  assume "c \<in> set (cs :: 'd ArtNode list list)" "n \<in> set c"
  then have "size n \<le> size_list (size_list size) cs"
    by (intro size_list_estimation' [of c cs] size_list_estimation' [of n c]) simp_all
  then show "(n, ArtInner256 t v cs e) \<in> measure size" by simp
qed simp

definition chain_ok :: "'d ArtNode list \<Rightarrow> bool" where
  "chain_ok c \<longleftrightarrow> distinct (map edge_tail c) \<and> (\<forall>n \<in> set c. node_ok n)"

fun inner_ok :: "'d ArtNode \<Rightarrow> bool" where
  "inner_ok (ArtLeaf t v d) = False"
| "inner_ok (ArtInner256 t v cs e) \<longleftrightarrow> length cs = 256 \<and> (\<forall>c \<in> set cs. chain_ok c)"

lemma node_ok_inner: "node_ok (ArtInner256 t v cs e) \<longleftrightarrow> v \<and> length t = 7 \<and> inner_ok (ArtInner256 t v cs e)"
  by (auto simp: chain_ok_def)

lemma node_ok_edge: "node_ok n \<Longrightarrow> edge_tail_valid n \<and> length (edge_tail n) = 7"
  by (cases n) auto

lemma inner_ok_cases:
  assumes "inner_ok cur"
  obtains t v cs e where "cur = ArtInner256 t v cs e" "length cs = 256" "\<forall>c \<in> set cs. chain_ok c"
  using assms by (cases cur) auto

lemma slot_of_less [simp]: "slot_of h < 256"
proof -
  have "unat (h ! 0) < 2 ^ LENGTH(8)" by (rule unsigned_less)
  then show ?thesis by (simp add: slot_of_def)
qed

lemma hash_eqI:
  assumes "hash_ok g" "hash_ok h" "slot_of g = slot_of h" "edge_of g = edge_of h"
  shows "g = h"
proof -
  from assms obtain a gs b hs where "g = a # gs" "h = b # hs"
    by (cases g; cases h) (auto simp: hash_ok_def)
  with assms show ?thesis by (simp add: slot_of_def edge_of_def word_unat_eq_iff)
qed

subsection \<open>One hop\<close>

definition find_child :: "'d ArtNode \<Rightarrow> ChunkHash \<Rightarrow> 'd ArtNode option" where
  "find_child cur h = map_option (\<lambda>i. children cur ! slot_of h ! i) (WalkChain (children cur ! slot_of h) h)"

lemma WalkChain_None: "WalkChain c h = None \<longleftrightarrow> (\<forall>n \<in> set c. \<not> EdgeMatches n h)"
  by (induction c) auto

lemma WalkChain_SomeD:
  "WalkChain c h = Some i \<Longrightarrow> i < length c \<and> EdgeMatches (c ! i) h"
  by (induction c arbitrary: i) (auto split: if_splits)

lemma WalkChain_cong: "map edge_tail c = map edge_tail d \<Longrightarrow> map edge_tail_valid c = map edge_tail_valid d \<Longrightarrow>
   WalkChain c h = WalkChain d h"
  by (induction c arbitrary: d) (auto simp: EdgeMatches_def)

lemma WalkChain_update:
  assumes "edge_tail n = edge_tail (c ! i)" "edge_tail_valid n = edge_tail_valid (c ! i)" "i < length c"
  shows "WalkChain (c[i := n]) h = WalkChain c h"
  using assms by (intro WalkChain_cong) (simp_all add: map_update list_update_same_conv)

lemma WalkChain_append:
  "WalkChain (c @ [n]) h = (case WalkChain c h of Some i \<Rightarrow> Some i
     | None \<Rightarrow> if EdgeMatches n h then Some (length c) else None)"
  by (induction c) (auto split: option.splits)

lemma WalkChain_unique:
  assumes "chain_ok c" "i < length c" "EdgeMatches (c ! i) h"
  shows "WalkChain c h = Some i"
proof (cases "WalkChain c h")
  case None
  with assms show ?thesis by (auto simp: WalkChain_None)
next
  case (Some j)
  with WalkChain_SomeD [OF Some] assms have "map edge_tail c ! i = map edge_tail c ! j" "j < length c"
    by (auto simp: EdgeMatches_def)
  with assms Some show ?thesis by (auto simp: chain_ok_def distinct_conv_nth)
qed

lemma chain_at:
  assumes "inner_ok cur"
  shows "chain_ok (children cur ! slot_of h)" "slot_of h < length (children cur)"
  using assms by (auto elim!: inner_ok_cases)

lemma find_child_node_ok:
  assumes "inner_ok cur" "find_child cur h = Some n"
  shows "node_ok n" "edge_tail n = edge_of h" "EdgeMatches n h"
proof -
  from assms(2) obtain i where i: "WalkChain (children cur ! slot_of h) h = Some i"
    "n = children cur ! slot_of h ! i" by (auto simp: find_child_def)
  with WalkChain_SomeD [OF i(1)] chain_at [OF assms(1), of h]
  show "node_ok n" "edge_tail n = edge_of h" "EdgeMatches n h" by (auto simp: chain_ok_def EdgeMatches_def)
qed

text \<open>How a store into a slot changes the hops out of a node.\<close>

lemma children_store [simp]: "inner_ok cur \<Longrightarrow> children (store_child cur s c) = (children cur)[s := c]"
  by (auto elim!: inner_ok_cases)

lemma store_sel [simp]:
  "edge_tail (store_child cur s c) = edge_tail cur" "edge_tail_valid (store_child cur s c) = edge_tail_valid cur"
  "embedded_leaf (store_child cur s c) = embedded_leaf cur"
  by (cases cur; simp)+

lemma inner_ok_store: "inner_ok cur \<Longrightarrow> chain_ok c \<Longrightarrow> inner_ok (store_child cur s c)"
  by (erule inner_ok_cases, cases "s < 256")
    (auto simp: all_set_conv_all_nth nth_list_update list_update_beyond)

lemma find_store:
  assumes "inner_ok cur" "hash_ok g" "hash_ok h"
  shows "find_child (store_child cur (slot_of h) c) g =
    (if slot_of g = slot_of h then map_option (\<lambda>i. c ! i) (WalkChain c g) else find_child cur g)"
  using chain_at [OF assms(1), of h] assms by (auto simp: find_child_def)

lemma find_update:
  assumes cur: "inner_ok cur" and g: "hash_ok g" and h: "hash_ok h"
    and i: "WalkChain (children cur ! slot_of h) h = Some i" and n: "EdgeMatches n h"
  shows "find_child (store_child cur (slot_of h) ((children cur ! slot_of h)[i := n])) g =
    (if g = h then Some n else find_child cur g)"
proof -
  let ?c = "children cur ! slot_of h"
  note il = WalkChain_SomeD [OF i] and ok = chain_at(1) [OF cur, of h]
  have w: "WalkChain (?c[i := n]) g = WalkChain ?c g"
    using il n by (intro WalkChain_update) (auto simp: EdgeMatches_def)
  have "WalkChain ?c g \<noteq> Some i" if "slot_of g = slot_of h" "g \<noteq> h"
    using that il WalkChain_SomeD [of ?c g i] hash_eqI [OF g h that(1)] by (auto simp: EdgeMatches_def)
  then have "map_option ((!) (?c[i := n])) (WalkChain ?c g) = map_option ((!) ?c) (WalkChain ?c g)"
    if "slot_of g = slot_of h" "g \<noteq> h"
    using that by (cases "WalkChain ?c g") (auto simp: nth_list_update)
  with il i show ?thesis
    unfolding find_store [OF cur g h] w by (auto simp: find_child_def)
qed

lemma chain_ok_update:
  assumes "chain_ok c" "i < length c" "edge_tail n = edge_tail (c ! i)" "node_ok n"
  shows "chain_ok (c[i := n])"
proof -
  have "map edge_tail (c[i := n]) = map edge_tail c"
    using assms by (simp add: map_update list_update_same_conv)
  with assms show ?thesis
    by (auto simp: chain_ok_def dest: set_update_subset_insert [THEN subsetD])
qed

lemma find_append:
  assumes cur: "inner_ok cur" and g: "hash_ok g" and h: "hash_ok h"
    and i: "WalkChain (children cur ! slot_of h) h = None" and n: "EdgeMatches n h"
  shows "find_child (store_child cur (slot_of h) (children cur ! slot_of h @ [n])) g =
    (if g = h then Some n else find_child cur g)"
proof -
  have "\<not> EdgeMatches n g" if "slot_of g = slot_of h" "g \<noteq> h"
    using that n hash_eqI [OF g h that(1)] by (auto simp: EdgeMatches_def)
  with i n show ?thesis
    unfolding find_store [OF cur g h]
    by (auto simp: find_child_def WalkChain_append nth_append dest: WalkChain_SomeD split: option.splits)
qed

lemma chain_ok_append:
  assumes "chain_ok c" "WalkChain c h = None" "EdgeMatches n h" "node_ok n"
  shows "chain_ok (c @ [n])"
proof -
  have "edge_tail m \<noteq> edge_of h" if "m \<in> set c" for m
  proof -
    from that assms(1) have "edge_tail_valid m" by (simp add: chain_ok_def node_ok_edge)
    with that assms(2) show ?thesis by (auto simp: WalkChain_None EdgeMatches_def)
  qed
  then have "edge_of h \<notin> edge_tail ` set c" by (metis imageE)
  with assms show ?thesis by (auto simp: chain_ok_def EdgeMatches_def)
qed

lemma find_delete:
  assumes cur: "inner_ok cur" and g: "hash_ok g" and h: "hash_ok h"
    and i: "WalkChain (children cur ! slot_of h) h = Some i"
  defines "c \<equiv> children cur ! slot_of h"
  shows "find_child (store_child cur (slot_of h) (take i c @ drop (Suc i) c)) g =
      (if g = h then None else find_child cur g)" (is ?find)
    and "chain_ok (take i c @ drop (Suc i) c)" (is ?ok)
proof -
  let ?d = "take i c @ drop (Suc i) c"
  have il: "i < length c" "EdgeMatches (c ! i) h" using WalkChain_SomeD [OF i] by (simp_all add: c_def)
  have ok: "chain_ok c" using chain_at(1) [OF cur] by (simp add: c_def)
  have split: "c = take i c @ c ! i # drop (Suc i) c" using il(1) by (rule id_take_nth_drop)
  have sets: "set c = insert (c ! i) (set ?d)" by (subst split) (simp add: Un_commute)
  from ok have dist: "distinct (map edge_tail (take i c @ c ! i # drop (Suc i) c))"
    by (subst (asm) split) (simp add: chain_ok_def del: map_append distinct_append)
  with ok sets show okd: ?ok by (auto simp: chain_ok_def)
  have other: "edge_tail m \<noteq> edge_of h" if "m \<in> set ?d" for m
  proof -
    from dist il(2) have "edge_of h \<notin> edge_tail ` set ?d" by (auto simp: EdgeMatches_def)
    with that show ?thesis by (metis imageI)
  qed
  have "map_option ((!) ?d) (WalkChain ?d g) = map_option ((!) c) (WalkChain c g)"
    if "slot_of g = slot_of h" "g \<noteq> h"
  proof (cases "WalkChain c g")
    case None
    with sets have "WalkChain ?d g = None" by (simp add: WalkChain_None)
    with None show ?thesis by simp
  next
    case (Some j)
    then have j: "j < length c" "EdgeMatches (c ! j) g" using WalkChain_SomeD [OF Some] by simp_all
    have "j \<noteq> i" using j il that hash_eqI [OF g h that(1)] by (auto simp: EdgeMatches_def)
    moreover have "c ! j \<noteq> c ! i" using \<open>j \<noteq> i\<close> j(1) il(1) ok
      by (metis chain_ok_def distinct_conv_nth length_map nth_map)
    ultimately have "c ! j \<in> set ?d" using j(1) sets nth_mem by blast
    then obtain k where k: "k < length ?d" "?d ! k = c ! j" unfolding in_set_conv_nth by blast
    with WalkChain_unique [OF okd k(1), of g] j(2) Some show ?thesis by simp
  qed
  moreover have "WalkChain ?d h = None" using other by (auto simp: WalkChain_None EdgeMatches_def)
  ultimately show ?find unfolding find_store [OF cur g h] by (auto simp: find_child_def c_def)
qed

subsection \<open>The exact lookup, hop by hop\<close>

fun below :: "'d ArtNode \<Rightarrow> chunk_path \<Rightarrow> 'd option" where
  "below (ArtLeaf t v d) p = (if p = [] then Some d else None)"
| "below (ArtInner256 t v cs e) p = (if p = [] then e else exact_walk (ArtInner256 t v cs e) p)"

lemma exact_walk_Cons: "exact_walk cur (h # p) = Option.bind (find_child cur h) (\<lambda>n. below n p)"
  by (cases p)
    (auto simp: find_child_def Let_def split: option.splits ArtNode.splits)

lemma below_inner: "inner_ok n \<Longrightarrow> below n p = (if p = [] then embedded_leaf n else exact_walk n p)"
  by (cases n) auto

lemma demote_ok:
  assumes "demote n = (n', k, g)" "node_ok n"
  shows "inner_ok n'" "edge_tail n' = edge_tail n" "edge_tail_valid n' = edge_tail_valid n"
    "path_ok p \<Longrightarrow> exact_walk n' p = below n p" "embedded_leaf n' = below n []"
proof -
  have empty: "exact_walk (ArtInner256 t v (replicate 256 []) e) p = None" if "path_ok p" for t v e and p :: chunk_path
    using that by (cases p) (simp_all add: exact_walk_Cons find_child_def path_ok_def)
  show "inner_ok n'" using assms
    by (cases n) (auto simp: chain_ok_def)
  show "path_ok p \<Longrightarrow> exact_walk n' p = below n p"
    using assms empty [of p] by (cases n) (auto simp: path_ok_def)
qed (use assms in \<open>cases n; auto\<close>)+

lemma path_ok_Cons: "path_ok (h # p) \<longleftrightarrow> hash_ok h \<and> (p = [] \<or> path_ok p)"
  by (auto simp: path_ok_def)

definition updated :: "'d ArtNode \<Rightarrow> chunk_path \<Rightarrow> 'd option \<Rightarrow> 'd ArtNode \<Rightarrow> bool" where
  "updated cur p r cur' \<longleftrightarrow> inner_ok cur' \<and> edge_tail cur' = edge_tail cur \<and>
     edge_tail_valid cur' = edge_tail_valid cur \<and> embedded_leaf cur' = embedded_leaf cur \<and>
     (\<forall>q. path_ok q \<longrightarrow> exact_walk cur' q = (if q = p then r else exact_walk cur q))"

text \<open>A hop whose target is updated below updates the parent at the longer path.\<close>

lemma updated_hop:
  assumes cur: "inner_ok cur" and h: "hash_ok h"
    and cur': "inner_ok cur'" "edge_tail cur' = edge_tail cur" "edge_tail_valid cur' = edge_tail_valid cur"
      "embedded_leaf cur' = embedded_leaf cur"
    and find: "\<And>g. hash_ok g \<Longrightarrow> find_child cur' g = (if g = h then n' else find_child cur g)"
    and below: "\<And>q. q = [] \<or> path_ok q \<Longrightarrow> Option.bind n' (\<lambda>n. below n q) =
      (if q = p then r else Option.bind (find_child cur h) (\<lambda>n. below n q))"
  shows "updated cur (h # p) r cur'"
proof -
  have "exact_walk cur' q = (if q = h # p then r else exact_walk cur q)" if "path_ok q" for q
  proof (cases q)
    case (Cons g q')
    with that have g: "hash_ok g" and q': "q' = [] \<or> path_ok q'" by (simp_all add: path_ok_Cons)
    show ?thesis
      using below [OF q'] by (auto simp: Cons exact_walk_Cons find [OF g])
  qed (use that in \<open>simp add: path_ok_def\<close>)
  with cur' show ?thesis by (simp add: updated_def)
qed

lemma found_at:
  "WalkChain (children cur ! slot_of h) h = Some i \<Longrightarrow> find_child cur h = Some (children cur ! slot_of h ! i)"
  "WalkChain (children cur ! slot_of h) h = None \<Longrightarrow> find_child cur h = None"
  by (simp_all add: find_child_def)

lemma updated_replace:
  assumes cur: "inner_ok cur" and h: "hash_ok h"
    and i: "WalkChain (children cur ! slot_of h) h = Some i"
    and n: "EdgeMatches n h" "node_ok n"
    and below: "\<And>q. q = [] \<or> path_ok q \<Longrightarrow>
      below n q = (if q = p then r else below (children cur ! slot_of h ! i) q)"
  shows "updated cur (h # p) r (store_child cur (slot_of h) ((children cur ! slot_of h)[i := n]))"
proof (rule updated_hop [OF cur h, where n' = "Some n"])
  note il = WalkChain_SomeD [OF i]
  show "inner_ok (store_child cur (slot_of h) ((children cur ! slot_of h)[i := n]))"
    using chain_at(1) [OF cur, of h] il n
    by (intro inner_ok_store [OF cur] chain_ok_update) (auto simp: EdgeMatches_def)
qed (use assms in \<open>simp_all add: find_update found_at(1) [OF i]\<close>)

lemma updated_append:
  assumes cur: "inner_ok cur" and h: "hash_ok h"
    and i: "WalkChain (children cur ! slot_of h) h = None"
    and n: "EdgeMatches n h" "node_ok n"
    and below: "\<And>q. q = [] \<or> path_ok q \<Longrightarrow> below n q = (if q = p then r else None)"
  shows "updated cur (h # p) r (store_child cur (slot_of h) (children cur ! slot_of h @ [n]))"
proof (rule updated_hop [OF cur h, where n' = "Some n"])
  show "inner_ok (store_child cur (slot_of h) (children cur ! slot_of h @ [n]))"
    using chain_at(1) [OF cur, of h] i n by (intro inner_ok_store [OF cur] chain_ok_append)
qed (use assms in \<open>simp_all add: find_append found_at(2) [OF i]\<close>)

lemma insert_last_updated:
  assumes "inner_ok cur" "hash_ok h" "insert_last cur h d = (cur', r, g)"
  shows "updated cur [h] (Some d) cur'" "r = (if exact_walk cur [h] = None then kInserted else kReplaced)"
proof -
  let ?c = "children cur ! slot_of h"
  have "updated cur [h] (Some d) cur' \<and> r = (if exact_walk cur [h] = None then kInserted else kReplaced)"
  proof (cases "WalkChain ?c h")
    case None
    have "updated cur [h] (Some d) (store_child cur (slot_of h) (?c @ [ArtLeaf (edge_of h) True d]))"
      using assms(2) by (intro updated_append [OF assms(1,2) None])
        (auto simp: EdgeMatches_def hash_ok_def edge_of_def)
    with None assms(3) show ?thesis
      by (auto simp: insert_last_def Let_def exact_walk_Cons found_at)
  next
    case (Some i)
    note f = found_at(1) [OF Some] and ok = find_child_node_ok [OF assms(1) found_at(1) [OF Some]]
    show ?thesis
    proof (cases "?c ! i")
      case (ArtLeaf t v old)
      have "updated cur [h] (Some d) (store_child cur (slot_of h) (?c[i := SetEdge h (ArtLeaf t v d)]))"
        using assms(2) ok ArtLeaf
        by (intro updated_replace [OF assms(1,2) Some])
          (auto simp: EdgeMatches_def hash_ok_def edge_of_def)
      with Some ArtLeaf assms(3) f show ?thesis
        by (auto simp: insert_last_def Let_def exact_walk_Cons)
    next
      case (ArtInner256 t v cs emb)
      have "updated cur [h] (Some d) (store_child cur (slot_of h) (?c[i := ArtInner256 t v cs (Some d)]))"
        using assms(2) ok ArtInner256 exact_walk_Cons
        by (intro updated_replace [OF assms(1,2) Some])
          (auto simp: EdgeMatches_def exact_walk_Cons find_child_def path_ok_def neq_Nil_conv)
      with Some ArtInner256 assms(3) f show ?thesis
        by (auto simp: insert_last_def Let_def exact_walk_Cons split: option.splits)
    qed
  qed
  then show "updated cur [h] (Some d) cur'" "r = (if exact_walk cur [h] = None then kInserted else kReplaced)"
    by simp_all
qed

lemma node_ok_of_inner:
  assumes "inner_ok n" "EdgeMatches n h" "hash_ok h"
  shows "node_ok n"
  using assms by (cases n) (auto simp: chain_ok_def EdgeMatches_def hash_ok_def edge_of_def)

lemma fresh_inner:
  "inner_ok (SetEdge h ArtInner256_new)" "EdgeMatches (SetEdge h ArtInner256_new) h"
  "embedded_leaf (SetEdge h ArtInner256_new) = None"
  "path_ok p \<Longrightarrow> exact_walk (SetEdge h ArtInner256_new) p = None"
  by (auto simp: ArtInner256_new_def chain_ok_def EdgeMatches_def path_ok_def neq_Nil_conv
      exact_walk_Cons find_child_def)

lemma insert_walk_updated:
  assumes "inner_ok cur" "path_ok p" "insert_walk cur p d = (cur', k, r, g)"
  shows "updated cur p (Some d) cur' \<and> r = (if exact_walk cur p = None then kInserted else kReplaced)"
  using assms
proof (induction cur p d arbitrary: cur' k r g rule: insert_walk.induct)
  case (2 cur h d)
  then show ?case
    using insert_last_updated [of cur h d] by (auto simp: path_ok_Cons split: prod.splits)
next
  case (3 cur h h' p d)
  let ?c = "children cur ! slot_of h"
  from "3.prems" have h: "hash_ok h" and p: "path_ok (h' # p)" by (simp_all add: path_ok_Cons)
  show ?case
  proof (cases "WalkChain ?c h")
    case None
    obtain nxt k' g' where w: "insert_walk (SetEdge h ArtInner256_new) (h' # p) d = (nxt, k', r, g')"
      and cur': "cur' = store_child cur (slot_of h) (?c @ [nxt])"
      using "3.prems"(3) None by (auto simp: Let_def split: prod.splits)
    from "3.IH"(1) [OF refl refl None fresh_inner(1) p w]
    have up: "updated (SetEdge h ArtInner256_new) (h' # p) (Some d) nxt" and r: "r = kInserted"
      using p by (simp_all add: fresh_inner)
    then have nxt: "inner_ok nxt" "EdgeMatches nxt h"
      using fresh_inner(2) [of h] by (simp_all add: updated_def EdgeMatches_def)
    have "updated cur (h # h' # p) (Some d) cur'"
      unfolding cur'
      by (rule updated_append [OF "3.prems"(1) h None nxt(2) node_ok_of_inner [OF nxt h]])
        (use up in \<open>auto simp: below_inner [OF nxt(1)] updated_def fresh_inner\<close>)
    with r show ?thesis by (simp add: exact_walk_Cons found_at(2) [OF None])
  next
    case (Some i)
    obtain n0 k0 g0 where de: "demote (?c ! i) = (n0, k0, g0)" by (metis prod_cases3)
    obtain nxt k' g' where w: "insert_walk n0 (h' # p) d = (nxt, k', r, g')"
      and cur': "cur' = store_child cur (slot_of h) (?c[i := nxt])"
      using "3.prems"(3) Some de by (auto simp: Let_def split: prod.splits)
    note ok = find_child_node_ok [OF "3.prems"(1) found_at(1) [OF Some]]
    note d0 = demote_ok [OF de ok(1)]
    from "3.IH"(2) [OF refl refl Some de [symmetric] refl d0(1) p w]
    have up: "updated n0 (h' # p) (Some d) nxt"
      and r: "r = (if exact_walk n0 (h' # p) = None then kInserted else kReplaced)" by simp_all
    then have nxt: "inner_ok nxt" "EdgeMatches nxt h"
      using ok(3) d0(2,3) by (simp_all add: updated_def EdgeMatches_def)
    have "updated cur (h # h' # p) (Some d) cur'"
      unfolding cur'
      by (rule updated_replace [OF "3.prems"(1) h Some nxt(2) node_ok_of_inner [OF nxt h]])
        (use up d0(4,5) in \<open>auto simp: below_inner [OF nxt(1)] updated_def\<close>)
    with r show ?thesis
      by (simp add: exact_walk_Cons [of cur] found_at(1) [OF Some] d0(4) [OF p] del: exact_walk.simps)
  qed
qed (simp add: path_ok_def)

lemma remove_walk_updated:
  assumes "inner_ok cur" "path_ok p"
  shows "case remove_walk cur p of None \<Rightarrow> exact_walk cur p = None
    | Some (cur', g) \<Rightarrow> updated cur p None cur' \<and> exact_walk cur p \<noteq> None"
  using assms
proof (induction cur p rule: remove_walk.induct)
  case (2 cur h)
  let ?c = "children cur ! slot_of h"
  from 2 have h: "hash_ok h" by (simp add: path_ok_Cons)
  show ?case
  proof (cases "WalkChain ?c h")
    case None
    then show ?thesis by (simp add: exact_walk_Cons found_at Let_def)
  next
    case (Some i)
    note ok = find_child_node_ok [OF "2.prems"(1) found_at(1) [OF Some]]
    show ?thesis
    proof (cases "?c ! i")
      case (ArtLeaf t v old)
      have "updated cur [h] None (store_child cur (slot_of h) (take i ?c @ drop (Suc i) ?c))"
        using ArtLeaf found_at(1) [OF Some]
        by (intro updated_hop [OF "2.prems"(1) h, where n' = None] inner_ok_store [OF "2.prems"(1)]
            find_delete(2) [OF "2.prems"(1) h h Some])
          (auto simp: find_delete(1) [OF "2.prems"(1) _ h Some])
      with Some ArtLeaf show ?thesis by (simp add: Let_def exact_walk_Cons found_at)
    next
      case (ArtInner256 t v cs emb)
      have "updated cur [h] None (store_child cur (slot_of h) (?c[i := ArtInner256 t v cs None]))"
        using ok ArtInner256
        by (intro updated_replace [OF "2.prems"(1) h Some])
          (auto simp: EdgeMatches_def exact_walk_Cons find_child_def path_ok_def neq_Nil_conv)
      with Some ArtInner256 show ?thesis
        by (auto simp: Let_def exact_walk_Cons found_at split: option.splits)
    qed
  qed
next
  case (3 cur h h' p)
  let ?c = "children cur ! slot_of h"
  from "3.prems" have h: "hash_ok h" and p: "path_ok (h' # p)" by (simp_all add: path_ok_Cons)
  show ?case
  proof (cases "WalkChain ?c h")
    case None
    then show ?thesis by (simp add: exact_walk_Cons found_at Let_def)
  next
    case (Some i)
    note ok = find_child_node_ok [OF "3.prems"(1) found_at(1) [OF Some]]
    show ?thesis
    proof (cases "?c ! i")
      case (ArtLeaf t v old)
      with Some show ?thesis by (simp add: exact_walk_Cons [of cur] found_at Let_def)
    next
      case n: (ArtInner256 t v cs emb)
      with ok have n_ok: "inner_ok (ArtInner256 t v cs emb)" by (auto simp: chain_ok_def)
      note IH = "3.IH" [OF refl refl Some n n_ok p]
      show ?thesis
      proof (cases "remove_walk (ArtInner256 t v cs emb) (h' # p)")
        case none: None
        with IH Some n show ?thesis by (simp add: exact_walk_Cons [of cur] found_at Let_def)
      next
        case (Some res)
        then obtain nxt g where s: "remove_walk (ArtInner256 t v cs emb) (h' # p) = Some (nxt, g)"
          by (cases res) auto
        with IH have up: "updated (ArtInner256 t v cs emb) (h' # p) None nxt"
          and was: "exact_walk (ArtInner256 t v cs emb) (h' # p) \<noteq> None" by simp_all
        then have nxt: "inner_ok nxt" "EdgeMatches nxt h"
          using ok(3) n by (simp_all add: updated_def EdgeMatches_def)
        have "updated cur (h # h' # p) None (store_child cur (slot_of h) (?c[i := nxt]))"
          by (rule updated_replace [OF "3.prems"(1) h \<open>WalkChain ?c h = Some i\<close> nxt(2)
                node_ok_of_inner [OF nxt h]])
            (use up n in \<open>auto simp: below_inner [OF nxt(1)] updated_def\<close>)
        with s was \<open>WalkChain ?c h = Some i\<close> n show ?thesis
          by (simp add: exact_walk_Cons [of cur] found_at Let_def)
      qed
    qed
  qed
qed (simp add: path_ok_def)

subsection \<open>The index is a finite map\<close>

lemma exact_walk_path_ok:
  "inner_ok cur \<Longrightarrow> exact_walk cur p \<noteq> None \<Longrightarrow> path_ok p"
proof (induction p arbitrary: cur)
  case (Cons h p)
  from Cons.prems(2) obtain n where n: "find_child cur h = Some n" "below n p \<noteq> None"
    by (auto simp: exact_walk_Cons bind_eq_Some_conv)
  note ok = find_child_node_ok [OF Cons.prems(1) n(1)]
  from ok(1,2) have h: "hash_ok h"
    using node_ok_edge [OF ok(1)] by (auto simp: hash_ok_def edge_of_def)
  show ?case
  proof (cases n)
    case (ArtInner256 t v cs e)
    with ok(1) have "inner_ok n" by (auto simp: chain_ok_def)
    with Cons.IH [of n] n(2) h show ?thesis by (auto simp: below_inner path_ok_Cons split: if_splits)
  qed (use n(2) h in \<open>auto simp: path_ok_Cons split: if_splits\<close>)
qed simp

definition index_ok :: "'d ArtIndex \<Rightarrow> bool" where
  "index_ok a \<longleftrightarrow> inner_ok (root a) \<and> finite (dom (LookupByPath a)) \<and>
     leaf_count a = card (dom (LookupByPath a))"

lemma retire_all_sel [simp]:
  "root (retire_all g a) = root a" "leaf_count (retire_all g a) = leaf_count a"
  "node_count (retire_all g a) = node_count a"
  by (simp_all add: retire_all_def)

lemma updated_map:
  assumes "inner_ok (root a)" "updated (root a) p r cur'" "root b = cur'" "path_ok p"
  shows "LookupByPath b = (LookupByPath a)(p := r)"
proof
  fix q
  show "LookupByPath b q = ((LookupByPath a)(p := r)) q"
  proof (cases "path_ok q")
    case True
    with assms(2,3) show ?thesis by (simp add: LookupByPath_def updated_def)
  next
    case False
    with assms(4) have "q \<noteq> p" by auto
    have "exact_walk cur q = None" if "inner_ok cur" for cur :: "'a ArtNode"
      using exact_walk_path_ok [OF that, of q] False by blast
    with assms \<open>q \<noteq> p\<close> show ?thesis by (simp add: LookupByPath_def updated_def)
  qed
qed

lemma ArtIndex_new_ok: "index_ok ArtIndex_new" "LookupByPath ArtIndex_new = Map.empty"
proof -
  have inner: "inner_ok ArtInner256_new" by (simp add: ArtInner256_new_def chain_ok_def)
  have "exact_walk ArtInner256_new p = None" for p :: chunk_path
    by (cases p) (simp_all add: exact_walk_Cons find_child_def ArtInner256_new_def)
  then show "LookupByPath (ArtIndex_new :: 'd ArtIndex) = Map.empty"
    by (intro ext) (simp add: LookupByPath_def ArtIndex_new_def)
  note lk = this
  show "index_ok (ArtIndex_new :: 'd ArtIndex)"
    unfolding index_ok_def lk using inner by (simp add: ArtIndex_new_def)
qed

lemma Insert_map:
  assumes "index_ok a" "path_ok p" "Insert p d a = (b, r)"
  shows "index_ok b" "LookupByPath b = (LookupByPath a)(p \<mapsto> d)"
    "r = (if LookupByPath a p = None then kInserted else kReplaced)"
proof -
  obtain cur k r' g where w: "insert_walk (root a) p d = (cur, k, r', g)" by (metis prod_cases4)
  from assms(2,3) w have b: "root b = cur" "leaf_count b = leaf_count a + (if r = kInserted then 1 else 0)"
    and r': "r' = r" by (auto simp: Insert_def path_ok_def)
  from insert_walk_updated [OF _ assms(2) w] assms(1)
  have up: "updated (root a) p (Some d) cur" and r: "r = (if exact_walk (root a) p = None then kInserted else kReplaced)"
    by (simp_all add: index_ok_def r')
  show m: "LookupByPath b = (LookupByPath a)(p \<mapsto> d)"
    using assms(1) by (intro updated_map [OF _ up b(1) assms(2)]) (simp add: index_ok_def)
  show r2: "r = (if LookupByPath a p = None then kInserted else kReplaced)" using r by (simp add: LookupByPath_def)
  have "inner_ok (root b)" using up b(1) by (simp add: updated_def)
  then show "index_ok b"
    using assms(1) b(2) r2 by (auto simp: index_ok_def m insert_absorb domIff)
qed

lemma Remove_map:
  assumes "index_ok a" "path_ok p" "Remove p a = (b, r)"
  shows "index_ok b" "LookupByPath b = (LookupByPath a)(p := None)" "r \<longleftrightarrow> LookupByPath a p \<noteq> None"
proof -
  have up: "case remove_walk (root a) p of None \<Rightarrow> exact_walk (root a) p = None
    | Some (cur', g) \<Rightarrow> updated (root a) p None cur' \<and> exact_walk (root a) p \<noteq> None"
    using assms(1,2) by (intro remove_walk_updated) (simp_all add: index_ok_def)
  have "index_ok b \<and> LookupByPath b = (LookupByPath a)(p := None) \<and> (r \<longleftrightarrow> LookupByPath a p \<noteq> None)"
  proof (cases "remove_walk (root a) p")
    case None
    with up assms show ?thesis by (auto simp: Remove_def LookupByPath_def)
  next
    case (Some res)
    then obtain cur g where s: "remove_walk (root a) p = Some (cur, g)" by (cases res) auto
    with up assms(3) have u: "updated (root a) p None cur" "exact_walk (root a) p \<noteq> None"
      and b: "root b = cur" "leaf_count b = leaf_count a - 1" "r" by (auto simp: Remove_def)
    have m: "LookupByPath b = (LookupByPath a)(p := None)"
      using assms(1) by (intro updated_map [OF _ u(1) b(1) assms(2)]) (simp add: index_ok_def)
    have "p \<in> dom (LookupByPath a)" using u(2) by (auto simp: LookupByPath_def)
    then have "card (dom (LookupByPath a) - {p}) = card (dom (LookupByPath a)) - 1"
      using assms(1) by (simp add: index_ok_def)
    with assms(1) u b m show ?thesis by (auto simp: index_ok_def updated_def LookupByPath_def)
  qed
  then show "index_ok b" "LookupByPath b = (LookupByPath a)(p := None)" "r \<longleftrightarrow> LookupByPath a p \<noteq> None"
    by simp_all
qed

text \<open>Outside the map: an empty path changes nothing.\<close>

lemma empty_path: "Insert [] d a = (a, kPathConflict)" "Remove [] a = (a, False)" "Lookup a [] = (0, None)"
  by (simp_all add: Insert_def Remove_def Lookup_def)

subsection \<open>The longest prefix\<close>

definition longest_prefix :: "(chunk_path \<Rightarrow> 'd option) \<Rightarrow> chunk_path \<Rightarrow> nat option" where
  "longest_prefix m p = List.find (\<lambda>k. m (take k p) \<noteq> None) (rev [1..<Suc (length p)])"

lemma find_append_case: "List.find P (xs @ ys) = (case List.find P xs of Some x \<Rightarrow> Some x | None \<Rightarrow> List.find P ys)"
  by (induction xs) auto

lemma find_in_set: "List.find P xs = Some x \<Longrightarrow> x \<in> set xs \<and> P x"
  by (induction xs) (auto split: if_splits)

lemma find_map_comp: "List.find P (map f xs) = map_option f (List.find (\<lambda>x. P (f x)) xs)"
  by (induction xs) auto

lemma rev_upt_Suc: "rev [1..<Suc (Suc n)] = map Suc (rev [1..<Suc n]) @ [1]"
proof -
  have "[1..<Suc (Suc n)] = 1 # map Suc [1..<Suc n]"
    by (simp only: map_Suc_upt) (simp add: upt_rec del: upt_Suc)
  then show ?thesis by (simp add: rev_map del: upt_Suc)
qed

lemma longest_prefix_Cons:
  "longest_prefix m (h # p) = (case longest_prefix (\<lambda>q. m (h # q)) p of Some k \<Rightarrow> Some (Suc k)
     | None \<Rightarrow> if m [h] \<noteq> None then Some 1 else None)"
  unfolding longest_prefix_def length_Cons rev_upt_Suc find_append_case find_map_comp
  by (simp split: option.splits)

lemma longest_prefix_cong:
  assumes "\<And>q. q \<noteq> [] \<Longrightarrow> m q = m' q"
  shows "longest_prefix m p = longest_prefix m' p"
  unfolding longest_prefix_def
proof (rule find_cong)
  fix k
  assume "k \<in> set (rev [1..<Suc (length p)])"
  then have "take k p \<noteq> []" by auto
  with assms show "(m (take k p) \<noteq> None) = (m' (take k p) \<noteq> None)" by simp
qed simp

lemma longest_prefix_none: "(\<And>q. q \<noteq> [] \<Longrightarrow> m q = None) \<Longrightarrow> longest_prefix m p = None"
  by (subst longest_prefix_cong [of m "\<lambda>_. None"]) (simp_all add: longest_prefix_def find_None_iff)

lemma longest_prefix_Some: "longest_prefix m p = Some k \<Longrightarrow> 0 < k \<and> k \<le> length p \<and> m (take k p) \<noteq> None"
  unfolding longest_prefix_def by (drule find_in_set) auto

lemma lookup_walk_longest:
  assumes "inner_ok cur"
  shows "lookup_walk cur p i best = (case longest_prefix (exact_walk cur) p of
      None \<Rightarrow> best | Some k \<Rightarrow> (i + k, exact_walk cur (take k p)))"
  using assms
proof (induction p arbitrary: cur i best)
  case (Cons h p)
  show ?case
  proof (cases "WalkChain (children cur ! slot_of h) h")
    case None
    have "longest_prefix (\<lambda>q. exact_walk cur (h # q)) p = None"
      by (rule longest_prefix_none) (simp add: exact_walk_Cons found_at(2) [OF None] del: exact_walk.simps)
    with None show ?thesis by (simp add: longest_prefix_Cons exact_walk_Cons found_at Let_def)
  next
    case (Some k)
    note f = found_at(1) [OF Some] and ok = find_child_node_ok(1) [OF Cons.prems found_at(1) [OF Some]]
    show ?thesis
    proof (cases "children cur ! slot_of h ! k")
      case (ArtLeaf t v d)
      have "longest_prefix (\<lambda>q. exact_walk cur (h # q)) p = None"
        by (rule longest_prefix_none) (simp add: exact_walk_Cons f ArtLeaf del: exact_walk.simps)
      with Some f ArtLeaf show ?thesis by (simp add: longest_prefix_Cons exact_walk_Cons Let_def)
    next
      case n: (ArtInner256 t v cs e)
      let ?n = "ArtInner256 t v cs e"
      from ok n have n_ok: "inner_ok ?n" by (auto simp: chain_ok_def)
      have "longest_prefix (\<lambda>q. exact_walk cur (h # q)) p = longest_prefix (exact_walk ?n) p"
        by (rule longest_prefix_cong) (simp add: exact_walk_Cons f n del: exact_walk.simps)
      moreover have "exact_walk cur (h # q) = exact_walk ?n q" if "q \<noteq> []" for q
        using that by (simp add: exact_walk_Cons [of cur] f n del: exact_walk.simps)
      ultimately show ?thesis
        using Some n Cons.IH [OF n_ok] longest_prefix_Some [of "exact_walk ?n" p]
        by (auto simp: longest_prefix_Cons exact_walk_Cons f Let_def split: option.splits)
    qed
  qed
qed (simp add: longest_prefix_def)

lemma find_rev_upt: "List.find P (rev [1..<n]) = Some k \<Longrightarrow> k < l \<Longrightarrow> l < n \<Longrightarrow> \<not> P l"
  by (induction n) (auto split: if_splits simp: less_Suc_eq)

lemma longest_prefix_greatest:
  assumes "longest_prefix m p = Some k" "k < l" "l \<le> length p"
  shows "m (take l p) = None"
  using find_rev_upt [of "\<lambda>k. m (take k p) \<noteq> None" "Suc (length p)" k l] assms
  by (simp add: longest_prefix_def del: upt_Suc)

subsection \<open>Counting nodes and entries\<close>

text \<open>The weight of a tree with \<open>a\<close> for each inner node and \<open>b\<close> for each entry.\<close>

function weigh :: "nat \<Rightarrow> nat \<Rightarrow> 'd ArtNode \<Rightarrow> nat" where
  "weigh a b (ArtLeaf t v d) = b"
| "weigh a b (ArtInner256 t v cs e) =
     a + sum_list (map (\<lambda>c. sum_list (map (weigh a b) c)) cs) + (if e = None then 0 else b)"
  by pat_completeness auto
termination
proof (relation "measure (\<lambda>(a, b, n). size n)")
  fix a b :: nat and t v cs e c n
  assume "c \<in> set (cs :: 'd ArtNode list list)" "n \<in> set c"
  then have "size n \<le> size_list (size_list size) cs"
    by (intro size_list_estimation' [of c cs] size_list_estimation' [of n c]) simp_all
  then show "((a, b, n), a, b, ArtInner256 t v cs e) \<in> measure (\<lambda>(a, b, n). size n)" by simp
qed simp

definition chain_weight :: "nat \<Rightarrow> nat \<Rightarrow> 'd ArtNode list \<Rightarrow> nat" where
  "chain_weight a b c = sum_list (map (weigh a b) c)"

lemma chain_weight_update:
  "i < length c \<Longrightarrow> chain_weight a b (c[i := n]) + weigh a b (c ! i) = chain_weight a b c + weigh a b n"
  unfolding chain_weight_def by (induction c arbitrary: i) (auto simp: nth_Cons split: nat.splits)

lemma chain_weight_append: "chain_weight a b (c @ [n]) = chain_weight a b c + weigh a b n"
  by (simp add: chain_weight_def)

lemma chain_weight_delete:
  assumes "i < length c"
  shows "chain_weight a b (take i c @ drop (Suc i) c) + weigh a b (c ! i) = chain_weight a b c"
proof -
  have "chain_weight a b c = chain_weight a b (take i c @ c ! i # drop (Suc i) c)"
    using id_take_nth_drop [OF assms] by simp
  then show ?thesis by (simp add: chain_weight_def)
qed

lemma sum_list_swap:
  "i < length xs \<Longrightarrow> sum_list (xs[i := x]) + xs ! i = sum_list xs + (x :: nat)"
  by (induction xs arbitrary: i) (auto simp: nth_Cons split: nat.splits)

lemma weigh_store:
  assumes "inner_ok cur"
  shows "weigh a b (store_child cur (slot_of h) c) + chain_weight a b (children cur ! slot_of h) =
    weigh a b cur + chain_weight a b c"
proof -
  from assms obtain t v cs e where cur: "cur = ArtInner256 t v cs e" and "length cs = 256"
    by (auto elim: inner_ok_cases)
  then have "slot_of h < length (map (chain_weight a b) cs)" by simp
  from sum_list_swap [OF this, of "chain_weight a b c"] \<open>length cs = 256\<close> show ?thesis
    by (simp add: cur chain_weight_def [abs_def] map_update)
qed

lemma weigh_replace:
  assumes "inner_ok cur" "WalkChain (children cur ! slot_of h) h = Some i"
  shows "weigh a b (store_child cur (slot_of h) ((children cur ! slot_of h)[i := n])) +
    weigh a b (children cur ! slot_of h ! i) = weigh a b cur + weigh a b n"
  using weigh_store [OF assms(1), of a b h "(children cur ! slot_of h)[i := n]"]
    chain_weight_update [of i "children cur ! slot_of h" a b n] WalkChain_SomeD [OF assms(2)] by simp

lemma weigh_append:
  assumes "inner_ok cur"
  shows "weigh a b (store_child cur (slot_of h) (children cur ! slot_of h @ [n])) = weigh a b cur + weigh a b n"
  using weigh_store [OF assms, of a b h "children cur ! slot_of h @ [n]"] by (simp add: chain_weight_append)

lemma weigh_demote: "demote n = (n', k, g) \<Longrightarrow> weigh a b n' = weigh a b n + a * k"
  by (cases n) auto

lemma weigh_new: "weigh a b (SetEdge h ArtInner256_new) = a"
  by (simp add: ArtInner256_new_def)

lemma insert_last_weight:
  assumes "inner_ok cur" "insert_last cur h d = (cur', r, g)"
  shows "weigh a b cur' = weigh a b cur + (if r = kInserted then b else 0)"
proof (cases "WalkChain (children cur ! slot_of h) h")
  case None
  with assms show ?thesis by (auto simp: insert_last_def Let_def weigh_append)
next
  case (Some i)
  note w = weigh_replace [OF assms(1) Some, of a b]
  show ?thesis
  proof (cases "children cur ! slot_of h ! i")
    case (ArtLeaf t v old)
    with w [of "SetEdge h (ArtLeaf t v d)"] Some assms(2) show ?thesis by (auto simp: insert_last_def Let_def)
  next
    case (ArtInner256 t v cs e)
    with w [of "ArtInner256 t v cs (Some d)"] Some assms(2) show ?thesis
      by (auto simp: insert_last_def Let_def split: option.splits)
  qed
qed

lemma insert_walk_weight:
  assumes "inner_ok cur" "path_ok p" "insert_walk cur p d = (cur', k, r, g)"
  shows "weigh a b cur' = weigh a b cur + a * k + (if r = kInserted then b else 0)"
  using assms
proof (induction cur p d arbitrary: cur' k r g rule: insert_walk.induct)
  case (2 cur h d)
  then show ?case using insert_last_weight [of cur h d] by (auto split: prod.splits)
next
  case (3 cur h h' p d)
  let ?c = "children cur ! slot_of h"
  from "3.prems" have p: "path_ok (h' # p)" by (simp_all add: path_ok_Cons)
  show ?case
  proof (cases "WalkChain ?c h")
    case None
    obtain nxt k' g' where w: "insert_walk (SetEdge h ArtInner256_new) (h' # p) d = (nxt, k', r, g')"
      and cur': "cur' = store_child cur (slot_of h) (?c @ [nxt])" "k = 1 + k'"
      using "3.prems"(3) None by (auto simp: Let_def split: prod.splits)
    from "3.IH"(1) [OF refl refl None fresh_inner(1) p w] show ?thesis
      by (simp add: cur' weigh_append [OF "3.prems"(1)] weigh_new)
  next
    case (Some i)
    obtain n0 k0 g0 where de: "demote (?c ! i) = (n0, k0, g0)" by (metis prod_cases3)
    obtain nxt k' g' where w: "insert_walk n0 (h' # p) d = (nxt, k', r, g')"
      and cur': "cur' = store_child cur (slot_of h) (?c[i := nxt])" "k = k0 + k'"
      using "3.prems"(3) Some de by (auto simp: Let_def split: prod.splits)
    have "node_ok (?c ! i)" by (rule find_child_node_ok(1) [OF "3.prems"(1) found_at(1) [OF Some]])
    from "3.IH"(2) [OF refl refl Some de [symmetric] refl demote_ok(1) [OF de this] p w]
      weigh_demote [OF de, of a b] weigh_replace [OF "3.prems"(1) Some, of a b nxt]
    show ?thesis by (simp add: cur' algebra_simps)
  qed
qed (simp add: path_ok_def)

lemma remove_walk_weight:
  assumes "inner_ok cur" "remove_walk cur p = Some (cur', g)"
  shows "weigh a b cur' + b = weigh a b cur"
  using assms
proof (induction cur p arbitrary: cur' g rule: remove_walk.induct)
  case (2 cur h)
  let ?c = "children cur ! slot_of h"
  from "2.prems"(2) obtain i where i: "WalkChain ?c h = Some i" by (auto simp: Let_def split: option.splits)
  show ?case
  proof (cases "?c ! i")
    case (ArtLeaf t v old)
    with "2.prems"(2) i have "cur' = store_child cur (slot_of h) (take i ?c @ drop (Suc i) ?c)"
      by (auto simp: Let_def)
    with weigh_store [OF "2.prems"(1), of a b h "take i ?c @ drop (Suc i) ?c"]
      chain_weight_delete [of i ?c a b] WalkChain_SomeD [OF i] ArtLeaf show ?thesis by simp
  next
    case (ArtInner256 t v cs e)
    with weigh_replace [OF "2.prems"(1) i, of a b "ArtInner256 t v cs None"] "2.prems"(2) i
    show ?thesis by (auto simp: Let_def split: option.splits)
  qed
next
  case (3 cur h h' p)
  let ?c = "children cur ! slot_of h"
  from "3.prems"(2) obtain i t v cs e nxt where i: "WalkChain ?c h = Some i"
    and n: "?c ! i = ArtInner256 t v cs e" and rw: "remove_walk (ArtInner256 t v cs e) (h' # p) = Some (nxt, g)"
    and cur': "cur' = store_child cur (slot_of h) (?c[i := nxt])"
    by (auto simp: Let_def split: option.splits ArtNode.splits)
  have "node_ok (?c ! i)" by (rule find_child_node_ok(1) [OF "3.prems"(1) found_at(1) [OF i]])
  with n have "inner_ok (ArtInner256 t v cs e)" by (auto simp: chain_ok_def)
  from "3.IH" [OF refl refl i n this rw] weigh_replace [OF "3.prems"(1) i, of a b nxt] n
  show ?case by (simp add: cur')
qed simp

subsection \<open>The index as a provider of the map contract\<close>

definition counts_ok :: "'d ArtIndex \<Rightarrow> bool" where
  "counts_ok a \<longleftrightarrow> leaf_count a = weigh 0 1 (root a) \<and> node_count a + 1 = weigh 1 0 (root a)"

definition art_inv :: "'d ArtIndex \<Rightarrow> bool" where
  "art_inv a \<longleftrightarrow> index_ok a \<and> counts_ok a"

definition art_put :: "chunk_path \<Rightarrow> 'd \<Rightarrow> 'd ArtIndex \<Rightarrow> 'd ArtIndex" where
  "art_put p d a = fst (Insert p d a)"

definition art_del :: "chunk_path \<Rightarrow> 'd ArtIndex \<Rightarrow> 'd ArtIndex" where
  "art_del p a = fst (Remove p a)"

lemma Insert_counts:
  assumes "art_inv a" "path_ok p"
  shows "counts_ok (art_put p d a)"
proof -
  obtain cur k r g where w: "insert_walk (root a) p d = (cur, k, r, g)" by (metis prod_cases4)
  from assms insert_walk_weight [OF _ assms(2) w, of 0 1] insert_walk_weight [OF _ assms(2) w, of 1 0] w
  show ?thesis by (simp add: art_inv_def index_ok_def counts_ok_def art_put_def Insert_def path_ok_def)
qed

lemma Remove_counts:
  assumes "art_inv a"
  shows "counts_ok (art_del p a)"
proof (cases "remove_walk (root a) p")
  case None
  with assms show ?thesis by (simp add: art_inv_def art_del_def Remove_def)
next
  case (Some res)
  then obtain cur g where "remove_walk (root a) p = Some (cur, g)" by (cases res) auto
  with assms remove_walk_weight [of "root a" p cur g 0 1] remove_walk_weight [of "root a" p cur g 1 0]
  show ?thesis by (auto simp: art_inv_def index_ok_def counts_ok_def art_del_def Remove_def)
qed

lemma art_inv_new: "art_inv ArtIndex_new"
  using ArtIndex_new_ok(1) by (simp add: art_inv_def counts_ok_def) (simp add: ArtIndex_new_def ArtInner256_new_def)

interpretation art: map_store art_inv path_ok LookupByPath art_put art_del
proof
  fix a :: "'d ArtIndex" and p :: chunk_path and d
  assume "art_inv a" "path_ok p"
  then have ok: "index_ok a" by (simp add: art_inv_def)
  show "art_inv (art_put p d a)"
    using Insert_counts [OF \<open>art_inv a\<close> \<open>path_ok p\<close>, of d] Insert_map(1) [OF ok \<open>path_ok p\<close>, of d]
    by (cases "Insert p d a") (simp add: art_inv_def art_put_def)
  show "LookupByPath (art_put p d a) = (LookupByPath a)(p \<mapsto> d)"
    using Insert_map(2) [OF ok \<open>path_ok p\<close>, of d] by (cases "Insert p d a") (simp add: art_put_def)
  show "art_inv (art_del p a)"
    using Remove_counts [OF \<open>art_inv a\<close>, of p] Remove_map(1) [OF ok \<open>path_ok p\<close>]
    by (cases "Remove p a") (simp add: art_inv_def art_del_def)
  show "LookupByPath (art_del p a) = (LookupByPath a)(p := None)"
    using Remove_map(2) [OF ok \<open>path_ok p\<close>] by (cases "Remove p a") (simp add: art_del_def)
qed

abbreviation art_replay :: "(chunk_path, 'd) map_op list \<Rightarrow> 'd ArtIndex \<Rightarrow> 'd ArtIndex" where
  "art_replay \<equiv> fold (store_apply art_put art_del)"

lemma Lookup_longest:
  assumes "index_ok a"
  shows "Lookup a p = (case longest_prefix (LookupByPath a) p of
      None \<Rightarrow> (0, None) | Some k \<Rightarrow> (k, LookupByPath a (take k p)))"
  using lookup_walk_longest [of "root a" p 0 "(0, None)"] assms
  by (simp add: Lookup_def index_ok_def LookupByPath_def [abs_def] split: option.splits)

lemma art_replay_new:
  assumes "\<forall>u \<in> set us. path_ok (op_key u)"
  shows "art_inv (art_replay us ArtIndex_new)"
    "LookupByPath (art_replay us ArtIndex_new) = fold map_apply us Map.empty"
  using art.replay_refines [OF art_inv_new assms] by (simp_all add: ArtIndex_new_ok(2))

subsection \<open>Properties\<close>

text \<open>Two hashes that share the first byte, for the instances below.\<close>

definition hash_a :: ChunkHash where "hash_a = [5, 0, 0, 0, 0, 0, 0, 1]"
definition hash_b :: ChunkHash where "hash_b = [5, 0, 0, 0, 0, 0, 0, 2]"

definition sample_ops :: "(chunk_path, nat) map_op list" where
  "sample_ops = [MPut [hash_a] 1, MPut [hash_b] 2, MPut [hash_a, hash_b] 3, MDel [hash_b], MPut [hash_a] 4]"

lemma sample_ops_ok: "\<forall>u \<in> set sample_ops. path_ok (op_key u)"
  by (simp add: sample_ops_def path_ok_def hash_ok_def hash_a_def hash_b_def)



text \<open>C8: \<open>Lookup\<close> is longest-prefix match. On every index built by inserts and removes it returns the
  length and the leaf of the longest non-empty prefix of the path that the exact lookup finds, and no
  leaf when there is none: the single descent computes what trying every prefix from the longest on
  would.\<close>

theorem Lookup_is_longest_prefix:
  assumes "\<forall>u \<in> set us. path_ok (op_key u)"
  shows "Lookup (art_replay us ArtIndex_new) p =
    (case longest_prefix (fold map_apply us Map.empty) p of
       None \<Rightarrow> (0, None) | Some k \<Rightarrow> (k, fold map_apply us Map.empty (take k p)))"
  using Lookup_longest [of "art_replay us ArtIndex_new" p] art_replay_new [OF assms]
  by (simp add: art_inv_def split: option.splits)

theorem Lookup_is_longest_prefix_witness:
  "Lookup (art_replay sample_ops ArtIndex_new) [hash_a, hash_a, hash_b] = (1, Some 4) \<and>
   Lookup (art_replay sample_ops ArtIndex_new) [hash_b, hash_a] = (0, None)"
proof -
  have "fold map_apply sample_ops Map.empty = [[hash_a] \<mapsto> 4, [hash_a, hash_b] \<mapsto> 3]"
    by (rule ext) (simp add: sample_ops_def map_apply_def hash_a_def hash_b_def)
  with Lookup_is_longest_prefix [OF sample_ops_ok] show ?thesis
    by (simp add: longest_prefix_def numeral_3_eq_3 hash_a_def hash_b_def upt_rec)
qed

end
