(* ===== verification/ArtSnapshot.thy ===== *)
theory ArtSnapshot
  imports ArtIndex ByteCodec PosixFile StdString
begin

section \<open>Snapshots of the prefix index\<close>

text \<open>
  \<open>prefix/art_snapshot.cpp\<close>: the recursive serializer of the tree, the cursor-based deserializer, and
  the atomic publication of the file. The deserializer recurses through three loops (nodes, the
  siblings of a chain, the slots of a node); its calls are counted by fuel, and the lemmas show that
  three times the number of bytes plus one is enough for every input, so that a result is always
  returned.
  BLAKE3-256 is a parameter.
\<close>

unbundle bit_operations_syntax

subsection \<open>Leaves\<close>

record LeafData =
  locator :: bytes
  tier_residency_bitmap :: u32
  refcount :: u32
  sealed_at_nanos :: u64
  last_access_nanos :: u64
  bytes_total :: u64

definition leaf_ok :: "LeafData \<Rightarrow> bool" where
  "leaf_ok d \<longleftrightarrow> length (locator d) = 64"

definition PutU16 :: "u16 \<Rightarrow> bytes" where
  "PutU16 v = [ucast v, ucast (drop_bit 8 v)]"

definition PutLeafPayload :: "LeafData \<Rightarrow> bytes" where
  "PutLeafPayload d = locator d @ PutU32 (tier_residency_bitmap d) @ PutU32 (refcount d) @
     PutU64 (sealed_at_nanos d) @ PutU64 (last_access_nanos d) @ PutU64 (bytes_total d)"

subsection \<open>The cursor\<close>

record Cursor =
  cp :: bytes
  failed :: bool

definition Need :: "nat \<Rightarrow> Cursor \<Rightarrow> bool \<times> Cursor" where
  "Need n c = (if failed c then (False, c)
     else if length (cp c) < n then (False, c\<lparr>failed := True\<rparr>)
     else (True, c))"

definition U8 :: "Cursor \<Rightarrow> byte \<times> Cursor" where
  "U8 c = (case Need 1 c of (ok, c) \<Rightarrow> if \<not> ok then (0, c) else (cp c ! 0, c\<lparr>cp := drop 1 (cp c)\<rparr>))"

definition U16 :: "Cursor \<Rightarrow> u16 \<times> Cursor" where
  "U16 c = (case Need 2 c of (ok, c) \<Rightarrow> if \<not> ok then (0, c)
     else (ucast (cp c ! 0) OR push_bit 8 (ucast (cp c ! 1)), c\<lparr>cp := drop 2 (cp c)\<rparr>))"

definition U32 :: "Cursor \<Rightarrow> u32 \<times> Cursor" where
  "U32 c = (case Need 4 c of (ok, c) \<Rightarrow> if \<not> ok then (0, c) else (GetU32 (cp c), c\<lparr>cp := drop 4 (cp c)\<rparr>))"

definition U64 :: "Cursor \<Rightarrow> u64 \<times> Cursor" where
  "U64 c = (case Need 8 c of (ok, c) \<Rightarrow> if \<not> ok then (0, c) else (GetU64 (cp c), c\<lparr>cp := drop 8 (cp c)\<rparr>))"

text \<open>\<open>Bytes\<close> leaves the zero-initialised destination alone when it fails.\<close>

definition Bytes :: "nat \<Rightarrow> Cursor \<Rightarrow> bytes \<times> Cursor" where
  "Bytes n c = (case Need n c of (ok, c) \<Rightarrow> if \<not> ok then (replicate n 0, c)
     else (take n (cp c), c\<lparr>cp := drop n (cp c)\<rparr>))"

definition ReadLeafPayload :: "Cursor \<Rightarrow> LeafData option \<times> Cursor" where
  "ReadLeafPayload c =
     (let (loc, c) = Bytes 64 c; (tier, c) = U32 c; (rc, c) = U32 c; (sealed, c) = U64 c;
          (acc, c) = U64 c; (total, c) = U64 c
      in if failed c then (None, c)
         else (Some \<lparr>locator = loc, tier_residency_bitmap = tier, refcount = rc, sealed_at_nanos = sealed,
                last_access_nanos = acc, bytes_total = total\<rparr>, c))"

subsection \<open>Serializer\<close>

definition kTagInner :: byte where "kTagInner = 0"
definition kTagLeaf :: byte where "kTagLeaf = 1"

definition used_slots :: "'d ArtNode list list \<Rightarrow> nat" where
  "used_slots cs = length (filter (\<lambda>c. c \<noteq> []) cs)"

definition put_bool :: "bool \<Rightarrow> byte" where
  "put_bool b = (if b then 1 else 0)"

fun SerializeNode :: "LeafData ArtNode \<Rightarrow> bytes"
  and serialize_chain :: "LeafData ArtNode list \<Rightarrow> bytes"
  and serialize_slots :: "nat \<Rightarrow> LeafData ArtNode list list \<Rightarrow> bytes" where
  "SerializeNode (ArtInner256 t v cs e) =
     kTagInner # put_bool v # t @ PutU16 (of_nat (used_slots cs)) @ serialize_slots 0 cs @
       (case e of None \<Rightarrow> [0] | Some d \<Rightarrow> 1 # PutLeafPayload d)"
| "SerializeNode (ArtLeaf t v d) = kTagLeaf # put_bool v # t @ PutLeafPayload d"
| "serialize_chain [] = []"
| "serialize_chain (n # ns) = SerializeNode n @ put_bool (ns \<noteq> []) # serialize_chain ns"
| "serialize_slots i [] = []"
| "serialize_slots i (c # cs) =
     (if c = [] then [] else of_nat i # serialize_chain c) @ serialize_slots (Suc i) cs"

text \<open>\<open>WriteStats\<close>: the serializer counts the inner nodes and the entries it passes.\<close>

definition stats_leaves :: "LeafData ArtNode \<Rightarrow> nat" where
  "stats_leaves n = weigh 0 1 n"

definition stats_inner :: "LeafData ArtNode \<Rightarrow> nat" where
  "stats_inner n = weigh 1 0 n"

subsection \<open>Deserializer\<close>

record ReadStats =
  rs_leaves :: nat
  rs_inner :: nat

text \<open>The outer \<open>None\<close> is the end of the fuel; the node is \<open>None\<close> where the code returns \<open>nullptr\<close>.\<close>

fun DeserializeNode ::
      "nat \<Rightarrow> Cursor \<Rightarrow> ReadStats \<Rightarrow> (LeafData ArtNode option \<times> Cursor \<times> ReadStats) option"
  and read_chain ::
      "nat \<Rightarrow> Cursor \<Rightarrow> ReadStats \<Rightarrow> (LeafData ArtNode list option \<times> Cursor \<times> ReadStats) option"
  and read_slots ::
      "nat \<Rightarrow> nat \<Rightarrow> LeafData ArtNode list list \<Rightarrow> Cursor \<Rightarrow> ReadStats \<Rightarrow>
       (LeafData ArtNode list list option \<times> Cursor \<times> ReadStats) option" where
  "DeserializeNode 0 c st = None"
| "DeserializeNode (Suc fuel) c st =
     (let (tag, c) = U8 c in
      if failed c then Some (None, c, st)
      else if tag = kTagInner then
        let (valid, c) = U8 c; (edge, c) = Bytes 7 c; (n, c) = U16 c in
        if 256 < n then Some (None, c\<lparr>failed := True\<rparr>, st)
        else case read_slots fuel (unat n) (replicate 256 []) c (st\<lparr>rs_inner := rs_inner st + 1\<rparr>) of
            None \<Rightarrow> None
          | Some (None, c, st) \<Rightarrow> Some (None, c, st)
          | Some (Some cs, c, st) \<Rightarrow>
              (let (has_emb, c) = U8 c in
               if failed c then Some (None, c, st)
               else if has_emb \<noteq> 0 then
                 (case ReadLeafPayload c of
                    (None, c) \<Rightarrow> Some (None, c, st)
                  | (Some d, c) \<Rightarrow>
                      Some (Some (ArtInner256 edge (valid \<noteq> 0) cs (Some d)), c,
                        st\<lparr>rs_leaves := rs_leaves st + 1\<rparr>))
               else Some (Some (ArtInner256 edge (valid \<noteq> 0) cs None), c, st))
      else if tag = kTagLeaf then
        let (valid, c) = U8 c; (edge, c) = Bytes 7 c in
        (case ReadLeafPayload c of
           (None, c) \<Rightarrow> Some (None, c, st)
         | (Some d, c) \<Rightarrow>
             Some (Some (ArtLeaf edge (valid \<noteq> 0) d), c, st\<lparr>rs_leaves := rs_leaves st + 1\<rparr>))
      else Some (None, c\<lparr>failed := True\<rparr>, st))"
| "read_chain 0 c st = None"
| "read_chain (Suc fuel) c st =
     (case DeserializeNode fuel c st of
        None \<Rightarrow> None
      | Some (None, c, st) \<Rightarrow> Some (None, c, st)
      | Some (Some child, c, st) \<Rightarrow>
          if failed c then Some (None, c, st)
          else (let (cont, c) = U8 c in
            if failed c then Some (None, c, st)
            else if cont = 0 then Some (Some [child], c, st)
            else (case read_chain fuel c st of
                None \<Rightarrow> None
              | Some (None, c, st) \<Rightarrow> Some (None, c, st)
              | Some (Some rest, c, st) \<Rightarrow> Some (Some (child # rest), c, st))))"
| "read_slots 0 n cs c st = None"
| "read_slots (Suc fuel) n cs c st =
     (if n = 0 then Some (Some cs, c, st)
      else (let (slot, c) = U8 c in
        case read_chain fuel c st of
          None \<Rightarrow> None
        | Some (None, c, st) \<Rightarrow> Some (None, c, st)
        | Some (Some chain, c, st) \<Rightarrow> read_slots fuel (n - 1) (cs[unat slot := chain]) c st))"

subsection \<open>The cursor reads back what was put\<close>

abbreviation at :: "bytes \<Rightarrow> Cursor" where
  "at b \<equiv> \<lparr>cp = b, failed = False\<rparr>"

lemma U8_at [codec_simps]: "U8 (at (b # r)) = (b, at r)"
  by (simp add: U8_def Need_def)

lemma Bytes_at [codec_simps]: "length x = n \<Longrightarrow> Bytes n (at (x @ r)) = (x, at r)"
  by (simp add: Bytes_def Need_def)

lemma U16_at [codec_simps]: "U16 (at (PutU16 v @ r)) = (v, at r)"
proof -
  have "ucast (ucast v :: byte) OR push_bit 8 (ucast (ucast (drop_bit 8 v) :: byte)) = v"
    by (rule bit_word_eqI) (auto simp: bit_simps)
  then show ?thesis by (simp add: U16_def Need_def PutU16_def)
qed

lemma U32_at [codec_simps]: "U32 (at (PutU32 v @ r)) = (v, at r)"
  by (simp add: U32_def Need_def)

lemma U64_at [codec_simps]: "U64 (at (PutU64 v @ r)) = (v, at r)"
  by (simp add: U64_def Need_def)

lemma length_PutU16 [simp]: "length (PutU16 v) = 2"
  by (simp add: PutU16_def)

lemma length_PutLeafPayload: "leaf_ok d \<Longrightarrow> length (PutLeafPayload d) = 96"
  by (simp add: PutLeafPayload_def leaf_ok_def)

lemma ReadLeafPayload_at [codec_simps]: "leaf_ok d \<Longrightarrow> ReadLeafPayload (at (PutLeafPayload d @ r)) = (Some d, at r)"
  by (simp add: ReadLeafPayload_def PutLeafPayload_def leaf_ok_def codec_simps)

lemma put_bool_read [simp]: "(put_bool b \<noteq> 0) = b"
  by (simp add: put_bool_def)

subsection \<open>Round trip of the tree\<close>

function ser_ok :: "LeafData ArtNode \<Rightarrow> bool" where
  "ser_ok (ArtLeaf t v d) \<longleftrightarrow> length t = 7 \<and> leaf_ok d"
| "ser_ok (ArtInner256 t v cs e) \<longleftrightarrow> length t = 7 \<and> length cs = 256 \<and> (\<forall>d \<in> set_option e. leaf_ok d) \<and>
     (\<forall>c \<in> set cs. \<forall>n \<in> set c. ser_ok n)"
  by pat_completeness auto
termination
proof (relation "measure size")
  fix t v cs e c n
  assume "c \<in> set (cs :: LeafData ArtNode list list)" "n \<in> set c"
  then have "size n \<le> size_list (size_list size) cs"
    by (intro size_list_estimation' [of c cs] size_list_estimation' [of n c]) simp_all
  then show "(n, ArtInner256 t v cs e) \<in> measure size" by simp
qed simp

definition add_stats :: "nat \<Rightarrow> nat \<Rightarrow> ReadStats \<Rightarrow> ReadStats" where
  "add_stats l i st = st\<lparr>rs_leaves := rs_leaves st + l, rs_inner := rs_inner st + i\<rparr>"

lemma add_stats_simps [simp]:
  "add_stats 0 0 st = st"
  "add_stats l i (add_stats l' i' st) = add_stats (l' + l) (i' + i) st"
  "st\<lparr>rs_leaves := Suc (rs_leaves st)\<rparr> = add_stats 1 0 st"
  "st\<lparr>rs_inner := Suc (rs_inner st)\<rparr> = add_stats 0 1 st"
  "rs_leaves (add_stats l i st) = rs_leaves st + l" "rs_inner (add_stats l i st) = rs_inner st + i"
  by (simp_all add: add_stats_def)

lemma used_slots_le: "used_slots cs \<le> length cs"
  by (simp add: used_slots_def)

lemma u16_slots: "length cs = 256 \<Longrightarrow> \<not> 256 < (of_nat (used_slots cs) :: u16) \<and>
    unat (of_nat (used_slots cs) :: u16) = used_slots cs"
  using used_slots_le [of cs] by (simp add: word_less_nat_alt unsigned_of_nat take_bit_nat_eq_self)

lemma slot_byte: "i < 256 \<Longrightarrow> unat (of_nat i :: byte) = i"
  by (simp add: unsigned_of_nat take_bit_nat_eq_self)

lemma Deserialize_roundtrip:
  shows "ser_ok n \<Longrightarrow> 3 * length (SerializeNode n) < fuel \<Longrightarrow>
      DeserializeNode fuel (at (SerializeNode n @ r)) st =
        Some (Some n, at r, add_stats (weigh 0 1 n) (weigh 1 0 n) st)"
    and "\<forall>n \<in> set c. ser_ok n \<Longrightarrow> c \<noteq> [] \<Longrightarrow> 3 * length (serialize_chain c) < fuel \<Longrightarrow>
      read_chain fuel (at (serialize_chain c @ r)) st =
        Some (Some c, at r, add_stats (chain_weight 0 1 c) (chain_weight 1 0 c) st)"
    and "\<forall>c \<in> set cs. \<forall>n \<in> set c. ser_ok n \<Longrightarrow> length pre = i \<Longrightarrow> i + length cs = 256 \<Longrightarrow>
      3 * length (serialize_slots i cs) < fuel \<Longrightarrow>
      read_slots fuel (used_slots cs) (pre @ replicate (length cs) []) (at (serialize_slots i cs @ r)) st =
        Some (Some (pre @ cs), at r, add_stats (sum_list (map (chain_weight 0 1) cs))
          (sum_list (map (chain_weight 1 0) cs)) st)"
proof (induction n and c and i cs arbitrary: fuel r st and fuel r st and fuel pre r st
    rule: SerializeNode_serialize_chain_serialize_slots.induct)
  case (1 t v cs e)
  then obtain f where f: "fuel = Suc f" by (cases fuel) auto
  define tail where "tail = (case e of None \<Rightarrow> [0] | Some d \<Rightarrow> 1 # PutLeafPayload d) @ r"
  from 1 have len: "length t = 7" "length cs = 256" "\<forall>c \<in> set cs. \<forall>n \<in> set c. ser_ok n" by simp_all
  have "3 * length (serialize_slots 0 cs) < f" using "1.prems"(2) f by (simp split: option.splits)
  from "1.IH" [OF len(3) _ _ this, of "[]" tail "add_stats 0 1 st"] len
  have slots: "read_slots f (used_slots cs) (replicate 256 []) (at (serialize_slots 0 cs @ tail)) (add_stats 0 1 st) =
      Some (Some cs, at tail, add_stats (sum_list (map (chain_weight 0 1) cs))
        (sum_list (map (chain_weight 1 0) cs)) (add_stats 0 1 st))" by simp
  have w: "weigh a b (ArtInner256 t v cs x) =
      a + sum_list (map (chain_weight a b) cs) + (if x = None then 0 else b)" for a b x
    by (simp add: chain_weight_def [abs_def])
  have "SerializeNode (ArtInner256 t v cs e) @ r =
      kTagInner # put_bool v # t @ PutU16 (of_nat (used_slots cs)) @ serialize_slots 0 cs @ tail"
    by (simp add: tail_def)
  with slots u16_slots [OF len(2)] len(1) "1.prems"(1) show ?case
    by (cases e) (simp_all add: f codec_simps w tail_def del: weigh.simps)
next
  case (2 t v d)
  then obtain f where "fuel = Suc f" by (cases fuel) auto
  with 2 show ?case by (simp add: codec_simps kTagLeaf_def kTagInner_def)
next
  case 3
  then show ?case by simp
next
  case (4 n ns)
  then obtain f where f: "fuel = Suc f" by (cases fuel) auto
  show ?case
  proof (cases "ns = []")
    case True
    with 4 f show ?thesis by (simp add: codec_simps put_bool_def chain_weight_def)
  next
    case False
    with 4 f show ?thesis by (simp add: codec_simps put_bool_def chain_weight_def)
  qed
next
  case (5 i)
  then obtain f where f: "fuel = Suc f" by (cases fuel) auto
  then show ?case by (simp add: used_slots_def)
next
  case (6 i c cs)
  then obtain f where f: "fuel = Suc f" by (cases fuel) auto
  show ?case
  proof (cases "c = []")
    case True
    with "6.IH"(2) [of "pre @ [[]]" fuel r st] "6.prems" show ?thesis
      by (simp add: used_slots_def chain_weight_def)
  next
    case False
    let ?st = "add_stats (chain_weight 0 1 c) (chain_weight 1 0 c) st"
    from "6.prems"(2,3) have slot: "unat (of_nat i :: byte) = i" by (intro slot_byte) simp
    have "(pre @ replicate (length (c # cs)) [])[i := c] = (pre @ [c]) @ replicate (length cs) []"
      using "6.prems"(2) by (simp add: list_update_append)
    with "6.IH"(1) [of f "serialize_slots (Suc i) cs @ r" st] "6.IH"(2) [of "pre @ [c]" f r ?st]
      "6.prems" False f slot
    show ?thesis by (simp add: codec_simps used_slots_def add.commute)
  qed
qed

subsection \<open>The deserializer returns on every input\<close>

lemma Need_shrinks: "Need n c = (ok, c') \<Longrightarrow> cp c' = cp c \<and> (ok \<longleftrightarrow> \<not> failed c') \<and> (ok \<longrightarrow> n \<le> length (cp c) \<and> c' = c)"
  by (auto simp: Need_def split: if_splits)

lemma U8_shrinks: "U8 c = (b, c') \<Longrightarrow> length (cp c') \<le> length (cp c) \<and>
    (\<not> failed c' \<longrightarrow> Suc (length (cp c')) = length (cp c) \<and> \<not> failed c)"
  by (auto simp: U8_def Need_def split: if_splits)

lemma U16_shrinks: "U16 c = (b, c') \<Longrightarrow> length (cp c') \<le> length (cp c)"
  by (auto simp: U16_def Need_def split: if_splits)

lemma U32_shrinks: "U32 c = (b, c') \<Longrightarrow> length (cp c') \<le> length (cp c)"
  by (auto simp: U32_def Need_def split: if_splits)

lemma U64_shrinks: "U64 c = (b, c') \<Longrightarrow> length (cp c') \<le> length (cp c)"
  by (auto simp: U64_def Need_def split: if_splits)

lemma Bytes_shrinks: "Bytes n c = (b, c') \<Longrightarrow> length (cp c') \<le> length (cp c)"
  by (auto simp: Bytes_def Need_def split: if_splits)

lemma ReadLeafPayload_shrinks: "ReadLeafPayload c = (d, c') \<Longrightarrow> length (cp c') \<le> length (cp c)"
  unfolding ReadLeafPayload_def Let_def
  by (force split: prod.splits if_splits dest!: U32_shrinks U64_shrinks Bytes_shrinks)

lemma failed_U8 [simp]: "failed c \<Longrightarrow> U8 c = (0, c)"
  by (simp add: U8_def Need_def)

lemma failed_U16 [simp]: "failed c \<Longrightarrow> U16 c = (0, c)"
  by (simp add: U16_def Need_def)

text \<open>
  The outcome of a call on \<open>L\<close> bytes: it is not out of fuel if \<open>enough\<close>, it leaves at most \<open>L\<close> bytes,
  and \<open>s\<close> fewer when it succeeds.
\<close>

fun outcome_ok :: "nat \<Rightarrow> nat \<Rightarrow> bool \<Rightarrow> ('a option \<times> Cursor \<times> ReadStats) option \<Rightarrow> bool" where
  "outcome_ok L s enough None = (\<not> enough)"
| "outcome_ok L s enough (Some (r, c, st)) = (length (cp c) + (if r = None then 0 else s) \<le> L)"

lemma DeserializeNode_step:
  assumes slots: "\<And>k cs c st. outcome_ok (length (cp c)) 0
      (k = 0 \<and> 0 < fuel \<or> 3 * length (cp c) + 3 \<le> fuel) (read_slots fuel k cs c st)"
  shows "outcome_ok (length (cp c)) 1 (3 * length (cp c) + 1 \<le> Suc fuel) (DeserializeNode (Suc fuel) c st)"
proof -
  obtain tag c1 where u: "U8 c = (tag, c1)" by fastforce
  obtain valid c2 where u2: "U8 c1 = (valid, c2)" by fastforce
  obtain edge c3 where u3: "Bytes 7 c2 = (edge, c3)" by fastforce
  obtain k c4 where u4: "U16 c3 = (k, c4)" by fastforce
  obtain dl c5 where u5: "ReadLeafPayload c3 = (dl, c5)" by fastforce
  note sh = U8_shrinks [OF u] U8_shrinks [OF u2] Bytes_shrinks [OF u3] U16_shrinks [OF u4]
    ReadLeafPayload_shrinks [OF u5]
  consider (eof) "failed c1" | (inner) "\<not> failed c1" "tag = kTagInner" "\<not> 256 < k"
    | (other) "\<not> failed c1" "tag = kTagInner \<longrightarrow> 256 < k" by blast
  then show ?thesis
  proof cases
    case eof
    with u sh(1) show ?thesis by simp
  next
    case other
    with u u2 u3 u4 u5 sh show ?thesis by (cases dl) simp_all
  next
    case inner
    let ?st = "add_stats 0 1 st"
    have lt: "length (cp c4) < length (cp c)" using sh inner by linarith
    note s = slots [of c4 "unat k" "replicate 256 []" ?st]
    show ?thesis
    proof (cases "read_slots fuel (unat k) (replicate 256 []) c4 ?st")
      case None
      with s lt u u2 u3 u4 inner show ?thesis by simp
    next
      case (Some res)
      then obtain r c6 st6 where rs: "read_slots fuel (unat k) (replicate 256 []) c4 ?st = Some (r, c6, st6)"
        by (cases res) auto
      with s have l6: "length (cp c6) \<le> length (cp c4)" by simp
      obtain has c7 where u7: "U8 c6 = (has, c7)" by fastforce
      obtain d c8 where u8: "ReadLeafPayload c7 = (d, c8)" by fastforce
      note sh2 = U8_shrinks [OF u7] ReadLeafPayload_shrinks [OF u8]
      show ?thesis
        using u u2 u3 u4 inner rs lt l6 u7 u8 sh2 by (cases r; cases d) simp_all
    qed
  qed
qed

lemma read_chain_step:
  assumes node: "\<And>c st. outcome_ok (length (cp c)) 1 (3 * length (cp c) + 1 \<le> fuel) (DeserializeNode fuel c st)"
    and chain: "\<And>c st. outcome_ok (length (cp c)) 1 (3 * length (cp c) + 2 \<le> fuel) (read_chain fuel c st)"
  shows "outcome_ok (length (cp c)) 1 (3 * length (cp c) + 2 \<le> Suc fuel) (read_chain (Suc fuel) c st)"
proof (cases "DeserializeNode fuel c st")
  case None
  with node [of c st] show ?thesis by simp
next
  case (Some res)
  then obtain n c1 st1 where d: "DeserializeNode fuel c st = Some (n, c1, st1)" by (cases res) auto
  with node [of c st] have l1: "length (cp c1) + (if n = None then 0 else 1) \<le> length (cp c)" by (cases n) simp_all
  obtain cont c2 where u: "U8 c1 = (cont, c2)" by fastforce
  note sh = U8_shrinks [OF u] and ch = chain [of c2 st1]
  show ?thesis
  proof (cases "read_chain fuel c2 st1")
    case None
    with d l1 u sh ch show ?thesis by (cases n) simp_all
  next
    case (Some res)
    then obtain r c3 st3 where "read_chain fuel c2 st1 = Some (r, c3, st3)" by (cases res) auto
    with d l1 u sh ch show ?thesis by (cases n; cases r) simp_all
  qed
qed

lemma read_slots_step:
  assumes chain: "\<And>c st. outcome_ok (length (cp c)) 1 (3 * length (cp c) + 2 \<le> fuel) (read_chain fuel c st)"
    and slots: "\<And>k cs c st. outcome_ok (length (cp c)) 0
      (k = 0 \<and> 0 < fuel \<or> 3 * length (cp c) + 3 \<le> fuel) (read_slots fuel k cs c st)"
  shows "outcome_ok (length (cp c)) 0 (k = 0 \<and> 0 < Suc fuel \<or> 3 * length (cp c) + 3 \<le> Suc fuel)
    (read_slots (Suc fuel) k cs c st)"
proof (cases "k = 0")
  case k: False
  obtain slot c1 where u: "U8 c = (slot, c1)" by fastforce
  note sh = U8_shrinks [OF u] and ch = chain [of c1 st]
  show ?thesis
  proof (cases "read_chain fuel c1 st")
    case None
    with k u sh ch show ?thesis by simp
  next
    case (Some res)
    then obtain r c2 st2 where r: "read_chain fuel c1 st = Some (r, c2, st2)" by (cases res) auto
    with ch have l2: "length (cp c2) + (if r = None then 0 else 1) \<le> length (cp c1)" by (cases r) simp_all
    show ?thesis
    proof (cases r)
      case None
      with k u sh r l2 show ?thesis by simp
    next
      case (Some chain)
      note s = slots [of c2 "k - 1" "cs[unat slot := chain]" st2]
      show ?thesis
      proof (cases "read_slots fuel (k - 1) (cs[unat slot := chain]) c2 st2")
        case None
        with k u sh r l2 Some s show ?thesis by simp
      next
        case (Some res)
        with \<open>r = Some chain\<close> k u sh r l2 s show ?thesis by (cases res) simp
      qed
    qed
  qed
qed simp

lemma Deserialize_outcome:
  "(\<forall>c st. outcome_ok (length (cp c)) 1 (3 * length (cp c) + 1 \<le> fuel) (DeserializeNode fuel c st)) \<and>
   (\<forall>c st. outcome_ok (length (cp c)) 1 (3 * length (cp c) + 2 \<le> fuel) (read_chain fuel c st)) \<and>
   (\<forall>k cs c st. outcome_ok (length (cp c)) 0 (k = 0 \<and> 0 < fuel \<or> 3 * length (cp c) + 3 \<le> fuel)
      (read_slots fuel k cs c st))"
proof (induction fuel)
  case (Suc fuel)
  then show ?case using DeserializeNode_step read_chain_step read_slots_step by blast
qed simp

lemma DeserializeNode_returns: "3 * length (cp c) < fuel \<Longrightarrow> DeserializeNode fuel c st \<noteq> None"
  using Deserialize_outcome [of fuel] by (metis Suc_eq_plus1 Suc_leI outcome_ok.simps(1))

subsection \<open>The snapshot file\<close>

definition kSnapshotVersion :: u32 where "kSnapshotVersion = 3"
definition kSnapshotMagic :: bytes where "kSnapshotMagic = lit ''PART''"
definition kSnapshotHeaderBytes :: nat where "kSnapshotHeaderBytes = 72"

text \<open>What the kernel answers during \<open>Write\<close>, and the outcomes of \<open>Write\<close> and \<open>Read\<close>.\<close>

record snap_env =
  sn_open :: bool
  sn_writes :: "wres list"
  sn_sync :: bool
  sn_rename :: bool

record WriteStats =
  ws_bytes :: nat
  ws_leaves :: nat
  ws_inner :: nat

datatype write_error = HeaderSize | OpenTmp | WriteTmp | SyncTmp | RenameTmp

datatype read_error = OpenSnapshot | TooSmall | BadMagic | BadVersion u32 | BadFlags | HeaderTruncated
  | BodyBytes | Checksum | Malformed | RootNotInner | TrailingBytes | CountMismatch

type_synonym file_map = "bytes \<rightharpoonup> bytes"

fun write_all :: "wres list \<Rightarrow> bytes \<Rightarrow> bytes \<Rightarrow> (bool \<times> bytes \<times> wres list) option" where
  "write_all ws [] f = Some (True, f, ws)"
| "write_all [] (b # d) f = None"
| "write_all (WErr # ws) (b # d) f = Some (False, f, ws)"
| "write_all (WEintr # ws) (b # d) f = write_all ws (b # d) f"
| "write_all (Wrote k # ws) (b # d) f = write_all ws (drop k (b # d)) (f @ take k (b # d))"

definition snapshot_header :: "(bytes \<Rightarrow> bytes) \<Rightarrow> bytes \<Rightarrow> nat \<Rightarrow> nat \<Rightarrow> bytes" where
  "snapshot_header b3 body leaves inner = kSnapshotMagic @ PutU32 kSnapshotVersion @ PutU32 0 @ PutU32 0 @
     PutU64 (of_nat leaves) @ PutU64 (of_nat inner) @ PutU64 (of_nat (length body)) @ b3 body"

text \<open>\<open>None\<close>: the listed write outcomes end before the writes do.\<close>

definition SnapshotWrite ::
    "(bytes \<Rightarrow> bytes) \<Rightarrow> snap_env \<Rightarrow> LeafData ArtIndex \<Rightarrow> bytes \<Rightarrow> file_map \<Rightarrow>
     ((write_error + WriteStats) \<times> file_map) option" where
  "SnapshotWrite b3 e art path fs =
     (let body = SerializeNode (root art);
          leaves = stats_leaves (root art); inner = stats_inner (root art);
          header = snapshot_header b3 body leaves inner;
          tmp = path @ lit ''.tmp''
      in if length header \<noteq> kSnapshotHeaderBytes then Some (Inl HeaderSize, fs)
         else if \<not> sn_open e then Some (Inl OpenTmp, fs)
         else (case write_all (sn_writes e) header [] of
             None \<Rightarrow> None
           | Some (ok1, f1, ws) \<Rightarrow>
             if \<not> ok1 then Some (Inl WriteTmp, fs(tmp := None))
             else (case write_all ws body f1 of
                 None \<Rightarrow> None
               | Some (ok2, f2, ws) \<Rightarrow>
                   if \<not> ok2 then Some (Inl WriteTmp, fs(tmp := None))
                   else if \<not> sn_sync e then Some (Inl SyncTmp, fs(tmp := None))
                   else if \<not> sn_rename e then Some (Inl RenameTmp, fs(tmp := None))
                   else Some (Inr \<lparr>ws_bytes = length header + length body, ws_leaves = leaves, ws_inner = inner\<rparr>,
                     fs(tmp := None, path \<mapsto> f2)))))"

definition SnapshotRead ::
    "(bytes \<Rightarrow> bytes) \<Rightarrow> file_map \<Rightarrow> bytes \<Rightarrow> read_error + LeafData ArtIndex \<times> ReadStats" where
  "SnapshotRead b3 fs path = (case fs path of None \<Rightarrow> Inl OpenSnapshot | Some buf \<Rightarrow>
     if length buf < kSnapshotHeaderBytes then Inl TooSmall
     else
       let c = \<lparr>cp = buf, failed = False\<rparr>;
           (magic, c) = Bytes 4 c in
       if magic \<noteq> kSnapshotMagic then Inl BadMagic
       else let (version, c) = U32 c in
       if version \<noteq> kSnapshotVersion then Inl (BadVersion version)
       else let (flags, c) = U32 c; (reserved, c) = U32 c in
       if flags \<noteq> 0 then Inl BadFlags
       else let (expect_leaves, c) = U64 c; (expect_inner, c) = U64 c; (body_bytes, c) = U64 c;
                (expect_digest, c) = Bytes 32 c in
       if failed c then Inl HeaderTruncated
       else if of_nat (length buf - kSnapshotHeaderBytes) \<noteq> body_bytes then Inl BodyBytes
       else let body = drop kSnapshotHeaderBytes buf in
       if b3 body \<noteq> expect_digest then Inl Checksum
       else (case DeserializeNode (Suc (3 * length body)) \<lparr>cp = body, failed = False\<rparr>
                    \<lparr>rs_leaves = 0, rs_inner = 0\<rparr> of
           None \<Rightarrow> Inl Malformed
         | Some (r, c, st) \<Rightarrow> (case r of
             None \<Rightarrow> Inl Malformed
           | Some n \<Rightarrow>
               if failed c then Inl Malformed
               else (case n of
                   ArtLeaf t v d \<Rightarrow> Inl RootNotInner
                 | ArtInner256 t v cs emb \<Rightarrow>
                     if cp c \<noteq> [] then Inl TrailingBytes
                     else if of_nat (rs_leaves st) \<noteq> expect_leaves \<or> of_nat (rs_inner st) \<noteq> expect_inner
                     then Inl CountMismatch
                     else Inr (\<lparr>root = n, leaf_count = rs_leaves st,
                       node_count = (if 0 < rs_inner st then rs_inner st - 1 else 0),
                       epochs = EpochManager_init\<rparr>, st)))))"

subsection \<open>Publication is atomic and reads back\<close>

lemma write_all_done: "write_all ws d f = Some (True, f', ws') \<Longrightarrow> f' = f @ d"
  by (induction ws d f rule: write_all.induct) (auto split: if_splits)

lemma length_snapshot_header: "length (b3 body) = 32 \<Longrightarrow> length (snapshot_header b3 body l i) = 72"
  by (simp add: snapshot_header_def kSnapshotMagic_def lit_def)

lemma SnapshotWrite_outcome:
  assumes "SnapshotWrite b3 e art path fs = Some (r, fs')"
  shows "case r of Inl err \<Rightarrow> fs' path = fs path
    | Inr st \<Rightarrow> fs' path = Some (snapshot_header b3 (SerializeNode (root art)) (stats_leaves (root art))
        (stats_inner (root art)) @ SerializeNode (root art))"
  using assms
  by (auto simp: SnapshotWrite_def Let_def lit_def split: if_splits option.splits dest!: write_all_done)

lemma SnapshotRead_back:
  assumes "\<And>x. length (b3 x) = 32" and ser: "ser_ok n" and n: "n = ArtInner256 t v cs emb"
    and "fs path = Some (snapshot_header b3 (SerializeNode n) (weigh 0 1 n) (weigh 1 0 n) @ SerializeNode n)"
  shows "SnapshotRead b3 fs path = Inr (\<lparr>root = n, leaf_count = weigh 0 1 n, node_count = weigh 1 0 n - 1,
    epochs = EpochManager_init\<rparr>, \<lparr>rs_leaves = weigh 0 1 n, rs_inner = weigh 1 0 n\<rparr>)"
proof -
  let ?b = "SerializeNode n"
  have magic: "length kSnapshotMagic = 4" by (simp add: kSnapshotMagic_def lit_def)
  have len: "length (snapshot_header b3 ?b (weigh 0 1 n) (weigh 1 0 n)) = 72"
    using assms(1) by (rule length_snapshot_header)
  have d: "DeserializeNode (Suc (3 * length ?b)) (at ?b) \<lparr>rs_leaves = 0, rs_inner = 0\<rparr> =
      Some (Some n, at [], \<lparr>rs_leaves = weigh 0 1 n, rs_inner = weigh 1 0 n\<rparr>)"
    using Deserialize_roundtrip(1) [OF ser, of "Suc (3 * length ?b)" "[]"] by (simp add: add_stats_def)
  show ?thesis
    using assms(1) [of ?b] d magic len unfolding SnapshotRead_def assms(4)
    by (simp add: snapshot_header_def codec_simps Let_def kSnapshotHeaderBytes_def n)
qed

subsection \<open>Every entry of a well-formed tree has a path\<close>

lemma find_child_member:
  assumes "inner_ok cur" "s < 256" "m \<in> set (children cur ! s)"
  shows "find_child cur (of_nat s # edge_tail m) = Some m"
proof -
  let ?h = "of_nat s # edge_tail m"
  have slot: "slot_of ?h = s" using assms(2) by (simp add: slot_of_def slot_byte)
  from assms(3) obtain i where i: "i < length (children cur ! s)" "children cur ! s ! i = m"
    by (auto simp: in_set_conv_nth)
  have ok: "chain_ok (children cur ! s)" using chain_at(1) [OF assms(1), of ?h] slot by simp
  with assms(3) have "EdgeMatches m ?h"
    using node_ok_edge [of m] by (auto simp: EdgeMatches_def edge_of_def chain_ok_def)
  with WalkChain_unique [OF ok i(1), of ?h] i(2) slot show ?thesis by (simp add: find_child_def)
qed

lemma inner_data:
  "d \<in> set_ArtNode (ArtInner256 t v cs e) \<longleftrightarrow> e = Some d \<or> (\<exists>s < length cs. \<exists>m \<in> set (cs ! s). d \<in> set_ArtNode m)"
proof -
  have "d \<in> set_ArtNode (ArtInner256 t v cs e) \<longleftrightarrow> e = Some d \<or> (\<exists>c \<in> set cs. \<exists>m \<in> set c. d \<in> set_ArtNode m)"
    by auto
  then show ?thesis by (metis in_set_conv_nth nth_mem)
qed

lemma node_data_path: "node_ok n \<Longrightarrow> d \<in> set_ArtNode n \<Longrightarrow> \<exists>p. below n p = Some d"
proof (induction n rule: node_ok.induct)
  case (1 t v x)
  then show ?case by (intro exI [of _ "[]"]) simp
next
  case (2 t v cs e)
  let ?n = "ArtInner256 t v cs e"
  from "2.prems"(1) have inner: "inner_ok ?n" by (auto simp: chain_ok_def)
  from "2.prems"(2) consider "e = Some d" | s m where "s < length cs" "m \<in> set (cs ! s)" "d \<in> set_ArtNode m"
    unfolding inner_data by blast
  then show ?case
  proof cases
    case 1
    then show ?thesis by (intro exI [of _ "[]"]) simp
  next
    case (2 s m)
    with "2.prems"(1) have m: "cs ! s \<in> set cs" "node_ok m" "s < 256" by auto
    with "2.IH" [OF m(1) _ m(2)] 2 obtain p where "below m p = Some d" by blast
    with find_child_member [OF inner m(3), of m] 2
    have "below ?n ((of_nat s # edge_tail m) # p) = Some d" by (simp add: exact_walk_Cons del: exact_walk.simps)
    then show ?thesis by blast
  qed
qed

lemma ser_ok_node: "node_ok n \<Longrightarrow> \<forall>d \<in> set_ArtNode n. leaf_ok d \<Longrightarrow> ser_ok n"
proof (induction n rule: node_ok.induct)
  case (2 t v cs e)
  then show ?case by (cases e) fastforce+
qed simp

definition root_ok :: "LeafData ArtIndex \<Rightarrow> bool" where
  "root_ok a \<longleftrightarrow> art_inv a \<and> length (edge_tail (root a)) = 7 \<and> embedded_leaf (root a) = None \<and>
     (\<forall>d \<in> ran (LookupByPath a). leaf_ok d)"

lemma root_ser_ok:
  assumes "root_ok a"
  shows "ser_ok (root a)"
proof -
  from assms have inner: "inner_ok (root a)" by (simp add: root_ok_def art_inv_def index_ok_def)
  then obtain t v cs e where r: "root a = ArtInner256 t v cs e" and cs: "length cs = 256" "\<forall>c \<in> set cs. chain_ok c"
    by (auto elim: inner_ok_cases)
  have "ser_ok n" if "c \<in> set cs" "n \<in> set c" for c n
  proof (rule ser_ok_node)
    from that cs show n: "node_ok n" by (auto simp: chain_ok_def)
    from that(1) cs(1) obtain s where s: "s < 256" "cs ! s = c" by (auto simp: in_set_conv_nth)
    with that r have f: "find_child (root a) (of_nat s # edge_tail n) = Some n"
      by (intro find_child_member [OF inner]) simp_all
    show "\<forall>d \<in> set_ArtNode n. leaf_ok d"
    proof
      fix d assume "d \<in> set_ArtNode n"
      with node_data_path [OF n] obtain p where "below n p = Some d" by blast
      with f have "LookupByPath a ((of_nat s # edge_tail n) # p) = Some d"
        by (simp add: LookupByPath_def exact_walk_Cons del: exact_walk.simps)
      with assms show "leaf_ok d" by (auto simp: root_ok_def ran_def)
    qed
  qed
  with assms cs show ?thesis by (simp add: r root_ok_def)
qed

lemma root_frame:
  assumes "art_inv a" "path_ok (op_key u)"
  shows "edge_tail (root (store_apply art_put art_del u a)) = edge_tail (root a)"
    "embedded_leaf (root (store_apply art_put art_del u a)) = embedded_leaf (root a)"
proof -
  from assms(1) have inner: "inner_ok (root a)" by (simp add: art_inv_def index_ok_def)
  have "edge_tail (root (store_apply art_put art_del u a)) = edge_tail (root a) \<and>
    embedded_leaf (root (store_apply art_put art_del u a)) = embedded_leaf (root a)"
  proof (cases u)
    case (MPut p d)
    obtain cur k r g where w: "insert_walk (root a) p d = (cur, k, r, g)" by (metis prod_cases4)
    with insert_walk_updated [OF inner _ w] assms(2) MPut show ?thesis
      by (simp add: art_put_def Insert_def updated_def)
  next
    case (MDel p)
    with remove_walk_updated [OF inner, of p] assms(2) show ?thesis
      by (auto simp: art_del_def Remove_def updated_def split: option.splits)
  qed
  then show "edge_tail (root (store_apply art_put art_del u a)) = edge_tail (root a)"
    "embedded_leaf (root (store_apply art_put art_del u a)) = embedded_leaf (root a)" by simp_all
qed

definition op_ok :: "(chunk_path, LeafData) map_op \<Rightarrow> bool" where
  "op_ok u \<longleftrightarrow> path_ok (op_key u) \<and> (\<forall>d \<in> set_option (op_value u). leaf_ok d)"

lemma root_ok_apply:
  assumes "root_ok a" "op_ok u"
  shows "root_ok (store_apply art_put art_del u a)"
proof -
  from assms have *: "art_inv a" "path_ok (op_key u)" by (simp_all add: root_ok_def op_ok_def)
  from art.apply_refines [OF *] root_frame [OF *] assms show ?thesis
    by (auto simp: root_ok_def map_apply_def op_ok_def ran_def)
qed

lemma root_ok_new: "root_ok ArtIndex_new"
  using art_inv_new by (simp add: root_ok_def ArtIndex_new_ok(2)) (simp add: ArtIndex_new_def ArtInner256_new_def)

lemma root_ok_replay: "\<forall>u \<in> set us. op_ok u \<Longrightarrow> root_ok a \<Longrightarrow> root_ok (art_replay us a)"
  by (induction us arbitrary: a) (simp_all add: root_ok_apply)

lemma snapshot_of_root_ok:
  assumes b3: "\<And>x. length (b3 x) = 32" and ok: "root_ok a"
    and w: "SnapshotWrite b3 e a path fs = Some (Inr st, fs')"
  shows "\<exists>a' rs. SnapshotRead b3 fs' path = Inr (a', rs) \<and> root a' = root a \<and>
    leaf_count a' = leaf_count a \<and> node_count a' = node_count a"
proof -
  from ok have "inner_ok (root a)" and counts: "counts_ok a" by (simp_all add: root_ok_def art_inv_def index_ok_def)
  then obtain t v cs emb where r: "root a = ArtInner256 t v cs emb" by (auto elim: inner_ok_cases)
  from SnapshotWrite_outcome [OF w] have f: "fs' path = Some (snapshot_header b3 (SerializeNode (root a))
      (weigh 0 1 (root a)) (weigh 1 0 (root a)) @ SerializeNode (root a))"
    by (simp add: stats_leaves_def stats_inner_def)
  from SnapshotRead_back [of b3 "root a" t v cs emb fs' path, OF b3 root_ser_ok [OF ok] r f] counts show ?thesis
    by (auto simp: counts_ok_def)
qed

subsection \<open>Properties\<close>

text \<open>An index and an environment for the instance; the digest is the first 32 bytes, zero-padded.\<close>

definition snap_b3 :: "bytes \<Rightarrow> bytes" where
  "snap_b3 x = take 32 (x @ replicate 32 0)"

definition snap_ops :: "(chunk_path, LeafData) map_op list" where
  "snap_ops = [MPut [hash_a] \<lparr>locator = replicate 64 9, tier_residency_bitmap = 1, refcount = 1,
     sealed_at_nanos = 5, last_access_nanos = 6, bytes_total = 7\<rparr>]"

definition snap_good :: snap_env where
  "snap_good = \<lparr>sn_open = True, sn_writes = [Wrote 72, WEintr, Wrote 200], sn_sync = True,
     sn_rename = True\<rparr>"

lemma snap_b3_length: "length (snap_b3 x) = 32"
  by (auto simp: snap_b3_def min_def)

lemma snap_ops_ok: "\<forall>u \<in> set snap_ops. op_ok u"
  by (simp add: snap_ops_def op_ok_def path_ok_def hash_ok_def hash_a_def leaf_ok_def)

lemma write_all_once: "d \<noteq> [] \<Longrightarrow> length d \<le> k \<Longrightarrow> write_all (Wrote k # ws) d f = Some (True, f @ d, ws)"
  by (cases d) simp_all

lemma snap_written: "\<exists>st fs'. SnapshotWrite snap_b3 snap_good (art_replay snap_ops ArtIndex_new) path fs = Some (Inr st, fs')"
proof -
  let ?a = "art_replay snap_ops ArtIndex_new"
  let ?h = "snapshot_header snap_b3 (SerializeNode (root ?a)) (stats_leaves (root ?a)) (stats_inner (root ?a))"
  have h: "length ?h = 72" by (rule length_snapshot_header) (rule snap_b3_length)
  have b: "length (SerializeNode (root ?a)) = 119" by code_simp
  have "write_all (sn_writes snap_good) ?h [] = Some (True, [] @ ?h, [WEintr, Wrote 200])"
    unfolding snap_good_def snap_env.select_convs using h by (intro write_all_once) auto
  moreover have "write_all [WEintr, Wrote 200] (SerializeNode (root ?a)) ?h = Some (True, ?h @ SerializeNode (root ?a), [])"
    using b write_all_once [of "SerializeNode (root ?a)" 200 "[]" ?h] by (cases "SerializeNode (root ?a)") simp_all
  ultimately show ?thesis
    using h by (auto simp: SnapshotWrite_def Let_def kSnapshotHeaderBytes_def snap_good_def)
qed

text \<open>C19: Taking a snapshot of an index and reading the file back restores it. For every index built by
  inserts and removes, and every way the kernel answers the system calls of \<open>Write\<close>: if \<open>Write\<close>
  fails, the snapshot path holds what it held before; if it succeeds, \<open>Read\<close> accepts the file and
  returns an index with the same entries and the same leaf and node counters.\<close>

theorem snapshot_roundtrip:
  assumes "\<forall>x. length (b3 x) = 32" and "\<forall>u \<in> set us. op_ok u"
    and "SnapshotWrite b3 e (art_replay us ArtIndex_new) path fs = Some (r, fs')"
  shows "case r of
      Inl err \<Rightarrow> fs' path = fs path
    | Inr st \<Rightarrow> \<exists>a rs. SnapshotRead b3 fs' path = Inr (a, rs) \<and> LookupByPath a = fold map_apply us Map.empty \<and>
        leaf_count a = leaf_count (art_replay us ArtIndex_new) \<and>
        node_count a = node_count (art_replay us ArtIndex_new)"
proof (cases r)
  case (Inl err)
  with SnapshotWrite_outcome [OF assms(3)] show ?thesis by simp
next
  case (Inr st)
  have b3: "\<And>x. length (b3 x) = 32" using assms(1) by simp
  have ok: "\<forall>u \<in> set us. path_ok (op_key u)" using assms(2) by (simp add: op_ok_def)
  from snapshot_of_root_ok [of b3, OF b3 root_ok_replay [OF assms(2) root_ok_new]] assms(3) Inr
  obtain a rs where "SnapshotRead b3 fs' path = Inr (a, rs)" "root a = root (art_replay us ArtIndex_new)"
    "leaf_count a = leaf_count (art_replay us ArtIndex_new)" "node_count a = node_count (art_replay us ArtIndex_new)"
    by blast
  moreover from this(2) art_replay_new(2) [OF ok] have "LookupByPath a = fold map_apply us Map.empty"
    by (simp add: LookupByPath_def [abs_def])
  ultimately show ?thesis using Inr by auto
qed

theorem snapshot_roundtrip_witness:
  "\<exists>st fs' a rs. SnapshotWrite snap_b3 snap_good (art_replay snap_ops ArtIndex_new) [1] Map.empty = Some (Inr st, fs') \<and>
     SnapshotRead snap_b3 fs' [1] = Inr (a, rs) \<and> LookupByPath a = fold map_apply snap_ops Map.empty"
proof -
  obtain st fs' where w: "SnapshotWrite snap_b3 snap_good (art_replay snap_ops ArtIndex_new) [1] Map.empty = Some (Inr st, fs')"
    using snap_written by blast
  have b3: "\<forall>x. length (snap_b3 x) = 32" by (simp add: snap_b3_length)
  from snapshot_roundtrip [OF b3 snap_ops_ok w] w show ?thesis by auto
qed

end
