(* ===== verification/ArtWal.thy ===== *)
theory ArtWal
  imports ArtSnapshot
begin

section \<open>The write-ahead log of the prefix index\<close>

text \<open>
  \<open>prefix/art_wal.cpp\<close>: every \<open>Insert\<close> and \<open>Remove\<close> is appended to a log, with a length prefix and a
  CRC, before the in-memory index changes; \<open>Open\<close> loads the last snapshot and replays the log, cutting
  a torn tail; \<open>Checkpoint\<close> takes a snapshot and then empties the log. The log file is its content:
  the descriptor is opened with \<open>O_APPEND\<close>.
\<close>

subsection \<open>Records\<close>

definition kOpInsert :: byte where "kOpInsert = 1"
definition kOpRemove :: byte where "kOpRemove = 2"
definition kLeafPayloadBytes :: nat where "kLeafPayloadBytes = 64 + 4 + 4 + 8 + 8 + 8"

type_synonym wal_op = "(chunk_path, LeafData) map_op"

definition EncodeLeaf :: "LeafData \<Rightarrow> bytes" where
  "EncodeLeaf d = locator d @ PutU32 (tier_residency_bitmap d) @ PutU32 (refcount d) @
     PutU64 (sealed_at_nanos d) @ PutU64 (last_access_nanos d) @ PutU64 (bytes_total d)"

fun record_body :: "wal_op \<Rightarrow> bytes" where
  "record_body (MPut p d) = kOpInsert # of_nat (length p) # concat p @ EncodeLeaf d"
| "record_body (MDel p) = kOpRemove # of_nat (length p) # concat p"

definition record_total :: "wal_op \<Rightarrow> nat" where
  "record_total u = 4 + (1 + 1 + 8 * length (op_key u) +
     (case u of MPut p d \<Rightarrow> kLeafPayloadBytes | MDel p \<Rightarrow> 0)) + 4"

definition EncodeRecord :: "wal_op \<Rightarrow> bytes" where
  "EncodeRecord u = PutU32 (of_nat (record_total u)) @ record_body u @ PutU32 (Crc32_tab (record_body u))"

definition ParseLeafBytes :: "bytes \<Rightarrow> nat \<Rightarrow> LeafData option" where
  "ParseLeafBytes p n =
     (if n < kLeafPayloadBytes then None
      else Some \<lparr>locator = take 64 p, tier_residency_bitmap = GetU32 (drop 64 p), refcount = GetU32 (drop 68 p),
        sealed_at_nanos = GetU64 (drop 72 p), last_access_nanos = GetU64 (drop 80 p),
        bytes_total = GetU64 (drop 88 p)\<rparr>)"

text \<open>
  \<open>DecodeRecord\<close> in two parts: the frame (length and CRC) gives the body and what follows the record;
  the body gives the operation. \<open>None\<close> is a torn or corrupt record.
\<close>

definition decode_frame :: "bytes \<Rightarrow> (bytes \<times> bytes) option" where
  "decode_frame c =
     (if length c < 4 then None
      else let total = unat (GetU32 c) in
      if total < 4 + 1 + 1 + 4 \<or> length c < total then None
      else let body = take (total - 4 - 4) (drop 4 c) in
      if GetU32 (drop (total - 4) c) \<noteq> Crc32_tab body then None
      else Some (body, drop total c))"

definition decode_op :: "bytes \<Rightarrow> wal_op option" where
  "decode_op body =
     (let op = body ! 0; path_len = unat (body ! 1) in
      if op \<noteq> kOpInsert \<and> op \<noteq> kOpRemove then None
      else if path_len = 0 then None
      else if length body \<noteq> 2 + 8 * path_len + (if op = kOpInsert then kLeafPayloadBytes else 0) then None
      else let path = map (\<lambda>i. take 8 (drop (8 * i) (drop 2 body))) [0..<path_len] in
      if op = kOpInsert then
        map_option (MPut path) (ParseLeafBytes (drop (8 * path_len) (drop 2 body)) kLeafPayloadBytes)
      else Some (MDel path))"

definition DecodeRecord :: "bytes \<Rightarrow> (wal_op \<times> bytes) option" where
  "DecodeRecord c = (case decode_frame c of
     None \<Rightarrow> None
   | Some (body, rest) \<Rightarrow> (case decode_op body of None \<Rightarrow> None | Some u \<Rightarrow> Some (u, rest)))"

subsection \<open>Replay\<close>

lemma DecodeRecord_shrinks: "DecodeRecord c = Some (u, rest) \<Longrightarrow> length rest < length c"
  by (auto simp: DecodeRecord_def decode_frame_def Let_def split: if_splits option.splits)

text \<open>The loop of \<open>Open\<close>: the offset of the cursor, the index, and the number of records replayed.\<close>

function wal_replay :: "bytes \<Rightarrow> nat \<Rightarrow> LeafData ArtIndex \<times> nat \<Rightarrow> nat \<times> LeafData ArtIndex \<times> nat" where
  "wal_replay c off s =
     (case DecodeRecord c of
        None \<Rightarrow> (off, s)
      | Some (u, rest) \<Rightarrow>
          wal_replay rest (off + (length c - length rest)) (store_apply art_put art_del u (fst s), snd s + 1))"
  by auto

termination
  by (relation "measure (\<lambda>(c, off, s). length c)") (auto dest: DecodeRecord_shrinks)

declare wal_replay.simps [simp del]

subsection \<open>The wrapper\<close>

record wal_options =
  snapshot_path :: bytes
  wal_path :: bytes
  fsync_each_write :: bool

text \<open>\<open>wal_fd\<close> is whether the descriptor is open; the file is in the file map.\<close>

record ArtWal =
  opts :: wal_options
  art :: "LeafData ArtIndex"
  wal_fd :: bool
  records_replayed :: nat
  wal_records :: nat

text \<open>
  The kernel's part of \<open>Open\<close>: how much of the log the stream delivers (all of it, unless a read
  fails), whether the truncation of a torn tail succeeds (its result is ignored), and whether the log
  can be opened for appending.
\<close>

record open_env =
  oe_read :: "nat option"
  oe_truncate :: bool
  oe_open :: bool

definition load_snapshot :: "(bytes \<Rightarrow> bytes) \<Rightarrow> bytes \<Rightarrow> file_map \<Rightarrow> LeafData ArtIndex \<times> bool" where
  "load_snapshot b3 path fs =
     (if path = [] \<or> fs path = None then (ArtIndex_new, False)
      else (case SnapshotRead b3 fs path of
          Inr (a, st) \<Rightarrow> (a, False)
        | Inl err \<Rightarrow> (ArtIndex_new, True)))"

text \<open>The result: the wrapper (\<open>None\<close> is \<open>nullptr\<close>), whether \<open>*err\<close> is set, and the files.\<close>

definition WalOpen ::
    "(bytes \<Rightarrow> bytes) \<Rightarrow> open_env \<Rightarrow> wal_options \<Rightarrow> file_map \<Rightarrow> ArtWal option \<times> bool \<times> file_map" where
  "WalOpen b3 e os fs =
     (case load_snapshot b3 (snapshot_path os) fs of (a, bad) \<Rightarrow>
        if wal_path os = [] then
          (Some \<lparr>opts = os, art = a, wal_fd = False, records_replayed = 0, wal_records = 0\<rparr>, bad, fs)
        else
          let file = (case fs (wal_path os) of None \<Rightarrow> [] | Some f \<Rightarrow> f);
              buf = (case oe_read e of None \<Rightarrow> file | Some n \<Rightarrow> take n file)
          in (case wal_replay buf 0 (a, 0) of (good_bytes, a', replay_ok) \<Rightarrow>
            let file' = (if good_bytes < length buf \<and> oe_truncate e then take good_bytes file else file)
            in if \<not> oe_open e
               then (None, True, if fs (wal_path os) = None then fs else fs(wal_path os \<mapsto> file'))
               else (Some \<lparr>opts = os, art = a', wal_fd = True, records_replayed = replay_ok,
                       wal_records = replay_ok\<rparr>, bad, fs(wal_path os \<mapsto> file'))))"

text \<open>
  \<open>AppendInsertLocked\<close> and \<open>AppendRemoveLocked\<close>: one \<open>write\<close>, which may store a part of the record,
  and one \<open>fdatasync\<close>. A short write is an error and leaves its bytes in the file.
\<close>

fun stored :: "wres \<Rightarrow> bytes \<Rightarrow> bytes" where
  "stored (Wrote k) d = take k d"
| "stored WEintr d = []"
| "stored WErr d = []"

definition AppendLocked :: "wres \<Rightarrow> bool \<Rightarrow> wal_op \<Rightarrow> ArtWal \<Rightarrow> file_map \<Rightarrow> bool \<times> ArtWal \<times> file_map" where
  "AppendLocked w sync u a fs =
     (let rec = EncodeRecord u; path = wal_path (opts a);
          fs' = fs(path \<mapsto> (case fs path of None \<Rightarrow> [] | Some f \<Rightarrow> f) @ stored w rec)
      in if w \<noteq> Wrote (length rec) then (False, a, fs')
         else if fsync_each_write (opts a) \<and> \<not> sync then (False, a, fs')
         else (True, a\<lparr>wal_records := wal_records a + 1\<rparr>, fs'))"

definition WalInsert ::
    "wres \<Rightarrow> bool \<Rightarrow> chunk_path \<Rightarrow> LeafData \<Rightarrow> ArtWal \<Rightarrow> file_map \<Rightarrow> InsertResult \<times> ArtWal \<times> file_map" where
  "WalInsert w sync p d a fs =
     (case (if wal_fd a then AppendLocked w sync (MPut p d) a fs else (True, a, fs)) of (ok, a, fs) \<Rightarrow>
        if \<not> ok then (kPathConflict, a, fs)
        else (case Insert p d (art a) of (i, r) \<Rightarrow> (r, a\<lparr>art := i\<rparr>, fs)))"

definition WalRemove ::
    "wres \<Rightarrow> bool \<Rightarrow> chunk_path \<Rightarrow> ArtWal \<Rightarrow> file_map \<Rightarrow> bool \<times> ArtWal \<times> file_map" where
  "WalRemove w sync p a fs =
     (case (if wal_fd a then AppendLocked w sync (MDel p) a fs else (True, a, fs)) of (ok, a, fs) \<Rightarrow>
        if \<not> ok then (False, a, fs)
        else (case Remove p (art a) of (i, r) \<Rightarrow> (r, a\<lparr>art := i\<rparr>, fs)))"


subsection \<open>Records round-trip, and torn records are rejected\<close>

definition record_fits :: "wal_op \<Rightarrow> bool" where
  "record_fits u \<longleftrightarrow> op_ok u \<and> length (op_key u) \<le> 255"

lemma EncodeLeaf_payload: "EncodeLeaf d = PutLeafPayload d"
  by (simp add: EncodeLeaf_def PutLeafPayload_def)

lemma ParseLeafBytes_EncodeLeaf: "leaf_ok d \<Longrightarrow> ParseLeafBytes (EncodeLeaf d @ r) kLeafPayloadBytes = Some d"
proof -
  assume d: "leaf_ok d"
  let ?a = "PutU32 (tier_residency_bitmap d)" and ?b = "PutU32 (refcount d)" and ?c = "PutU64 (sealed_at_nanos d)"
    and ?d = "PutU64 (last_access_nanos d)" and ?e = "PutU64 (bytes_total d)"
  have "drop 68 (EncodeLeaf d @ r) = drop 4 (?a @ ?b @ ?c @ ?d @ ?e @ r)"
    "drop 72 (EncodeLeaf d @ r) = drop 8 ((?a @ ?b) @ ?c @ ?d @ ?e @ r)"
    "drop 80 (EncodeLeaf d @ r) = drop 16 ((?a @ ?b @ ?c) @ ?d @ ?e @ r)"
    "drop 88 (EncodeLeaf d @ r) = drop 24 ((?a @ ?b @ ?c @ ?d) @ ?e @ r)"
    using d by (simp_all add: EncodeLeaf_def leaf_ok_def)
  moreover have "take 64 (EncodeLeaf d @ r) = locator d" "drop 64 (EncodeLeaf d @ r) = ?a @ ?b @ ?c @ ?d @ ?e @ r"
    using d by (simp_all add: EncodeLeaf_def leaf_ok_def)
  ultimately show ?thesis unfolding ParseLeafBytes_def kLeafPayloadBytes_def
    by (simp only: drop_append) simp
qed

lemma length_concat_path: "path_ok p \<Longrightarrow> length (concat p) = 8 * length p"
proof -
  have "\<forall>h \<in> set p. length h = 8 \<Longrightarrow> length (concat p) = 8 * length p" by (induction p) simp_all
  then show "path_ok p \<Longrightarrow> length (concat p) = 8 * length p" by (simp add: path_ok_def hash_ok_def)
qed

lemma path_chunks:
  assumes "\<forall>h \<in> set p. length h = 8"
  shows "map (\<lambda>i. take 8 (drop (8 * i) (concat p @ r))) [0..<length p] = p"
  using assms
proof (induction p)
  case (Cons h p)
  have "map (\<lambda>i. take 8 (drop (8 * i) (concat (h # p) @ r))) [0..<length (h # p)] =
      take 8 (concat (h # p) @ r) # map (\<lambda>i. take 8 (drop (8 * Suc i) (concat (h # p) @ r))) [0..<length p]"
    by (simp add: upt_conv_Cons map_Suc_upt [symmetric] del: upt_Suc)
  with Cons show ?case by simp
qed simp

lemma record_fits_frame: "record_fits u \<Longrightarrow> op_ok u \<and> record_total u < 2 ^ 32"
  by (cases u) (simp_all add: record_fits_def record_total_def kLeafPayloadBytes_def)

lemma record_body_props:
  assumes "op_ok u"
  shows "length (record_body u) = record_total u - 8" "10 \<le> record_total u"
    "length (EncodeRecord u) = record_total u"
proof -
  from assms have p: "path_ok (op_key u)" by (simp add: op_ok_def)
  have b: "length (record_body u) = record_total u - 8" using assms length_concat_path [OF p]
    by (cases u) (simp_all add: record_total_def kLeafPayloadBytes_def op_ok_def
        EncodeLeaf_payload length_PutLeafPayload)
  have t: "10 \<le> record_total u" by (simp add: record_total_def)
  from b t show "length (record_body u) = record_total u - 8" "10 \<le> record_total u"
    "length (EncodeRecord u) = record_total u" by (simp_all add: EncodeRecord_def)
qed

lemma decode_frame_EncodeRecord:
  assumes "op_ok u" "record_total u < 2 ^ 32"
  shows "decode_frame (EncodeRecord u @ r) = Some (record_body u, r)"
proof -
  note b = record_body_props [OF assms(1)]
  have g: "unat (GetU32 (EncodeRecord u @ r)) = record_total u"
    using assms(2) by (simp add: EncodeRecord_def unat_u32_of_nat)
  have "take (record_total u - 4 - 4) (drop 4 (EncodeRecord u @ r)) = record_body u"
    using b(1) by (simp add: EncodeRecord_def)
  moreover have "drop (record_total u - 4) (EncodeRecord u @ r) = PutU32 (Crc32_tab (record_body u)) @ r"
  proof -
    have "drop (record_total u - 4) (EncodeRecord u @ r) = drop (record_total u - 8) (drop 4 (EncodeRecord u @ r))"
      using b(2) by (simp add: drop_drop del: drop_append)
    also have "drop 4 (EncodeRecord u @ r) = record_body u @ PutU32 (Crc32_tab (record_body u)) @ r"
      by (simp add: EncodeRecord_def)
    finally show ?thesis using b(1) by simp
  qed
  moreover have "drop (record_total u) (EncodeRecord u @ r) = r" using b(3) by simp
  ultimately show ?thesis using b(2,3) unfolding decode_frame_def Let_def g by simp
qed

lemma decode_op_body:
  assumes "record_fits u"
  shows "decode_op (record_body u) = Some u"
proof -
  from assms have p: "path_ok (op_key u)" "length (op_key u) \<le> 255" and d: "\<forall>d \<in> set_option (op_value u). leaf_ok d"
    by (simp_all add: record_fits_def op_ok_def)
  have plen: "unat (of_nat (length (op_key u)) :: byte) = length (op_key u)"
    using p(2) by (intro slot_byte) simp
  have pne: "0 < length (op_key u)" using p(1) by (simp add: path_ok_def)
  have chunks: "map (\<lambda>i. take 8 (drop (8 * i) (concat (op_key u) @ s))) [0..<length (op_key u)] = op_key u" for s
    using p(1) by (intro path_chunks) (simp add: path_ok_def hash_ok_def)
  note len = length_concat_path [OF p(1)]
  show ?thesis
  proof (cases u)
    case (MPut q x)
    have "length (EncodeLeaf x) = kLeafPayloadBytes" using d MPut
      by (simp add: EncodeLeaf_payload length_PutLeafPayload kLeafPayloadBytes_def)
    with MPut plen pne len chunks [of "EncodeLeaf x"] d ParseLeafBytes_EncodeLeaf [of x "[]"] show ?thesis
      by (simp add: decode_op_def Let_def)
  next
    case (MDel q)
    with plen pne len chunks [of "[]"] show ?thesis
      by (simp add: decode_op_def Let_def kOpInsert_def kOpRemove_def)
  qed
qed

lemma DecodeRecord_EncodeRecord: "record_fits u \<Longrightarrow> DecodeRecord (EncodeRecord u @ r) = Some (u, r)"
  using record_fits_frame [of u] by (simp add: DecodeRecord_def decode_frame_EncodeRecord decode_op_body)

lemma DecodeRecord_torn:
  assumes "record_fits u" "n < length (EncodeRecord u)"
  shows "DecodeRecord (take n (EncodeRecord u)) = None"
proof (cases "n < 4")
  case False
  note t = record_fits_frame [OF assms(1)]
  note b = record_body_props [of u]
  from False have "take n (EncodeRecord u) = PutU32 (of_nat (record_total u)) @
      take (n - 4) (record_body u @ PutU32 (Crc32_tab (record_body u)))"
    by (simp add: EncodeRecord_def)
  then have "unat (GetU32 (take n (EncodeRecord u))) = record_total u"
    using t by (simp add: unat_u32_of_nat)
  with assms(2) b(3) t show ?thesis by (simp add: DecodeRecord_def decode_frame_def Let_def)
next
  case True
  then have "length (take n (EncodeRecord u)) < 4" by simp
  then show ?thesis by (simp only: DecodeRecord_def decode_frame_def) simp
qed

lemma decode_frame_append:
  assumes "decode_frame c = Some (b, r)"
  shows "decode_frame (c @ x) = Some (b, r @ x)"
proof -
  from assms have l: "4 \<le> length c" "10 \<le> unat (GetU32 c)" "unat (GetU32 c) \<le> length c"
    by (auto simp: decode_frame_def Let_def split: if_splits)
  have g: "GetU32 (c @ x) = GetU32 c" using l(1) by (rule GetU32_append)
  have "4 \<le> length (drop (unat (GetU32 c) - 4) c)" using l by simp
  then have "GetU32 (drop (unat (GetU32 c) - 4) (c @ x)) = GetU32 (drop (unat (GetU32 c) - 4) c)"
    by (simp add: GetU32_append)
  with assms l g show ?thesis by (auto simp: decode_frame_def Let_def split: if_splits)
qed

lemma DecodeRecord_append: "DecodeRecord c = Some (u, r) \<Longrightarrow> DecodeRecord (c @ x) = Some (u, r @ x)"
  by (auto simp: DecodeRecord_def decode_frame_append split: option.splits)

subsection \<open>The log satisfies the contract of framed logs\<close>

definition wal_app :: "wal_op \<Rightarrow> LeafData ArtIndex \<times> nat \<Rightarrow> LeafData ArtIndex \<times> nat" where
  "wal_app u s = (store_apply art_put art_del u (fst s), snd s + 1)"

definition wal_log :: "bytes \<Rightarrow> nat \<Rightarrow> LeafData ArtIndex \<times> nat \<Rightarrow> nat + nat \<times> LeafData ArtIndex \<times> nat" where
  "wal_log c off s = Inr (wal_replay c off s)"

lemma wal_replay_None: "DecodeRecord c = None \<Longrightarrow> wal_replay c off s = (off, s)"
  by (simp add: wal_replay.simps [of c])

lemma wal_replay_Some:
  "DecodeRecord c = Some (u, r) \<Longrightarrow> wal_replay c off s = wal_replay r (off + (length c - length r)) (wal_app u s)"
  by (simp add: wal_replay.simps [of c] wal_app_def)

lemma wal_replay_extend:
  "wal_replay c off s = (off + length c, s') \<Longrightarrow> wal_replay (c @ x) off s = wal_replay x (off + length c) s'"
proof (induction c off s rule: wal_replay.induct)
  case (1 c off s)
  show ?case
  proof (cases "DecodeRecord c")
    case None
    with "1.prems" have "c = []" "s' = s" by (auto simp: wal_replay_None)
    then show ?thesis by simp
  next
    case (Some res)
    then obtain u r where d: "DecodeRecord c = Some (u, r)" by (cases res) auto
    note lt = DecodeRecord_shrinks [OF d]
    let ?off = "off + (length c - length r)" and ?s = "wal_app u s"
    from "1.prems" d lt have "wal_replay r ?off ?s = (?off + length r, s')" by (simp add: wal_replay_Some)
    with "1.IH" [OF d refl] have "wal_replay (r @ x) ?off ?s = wal_replay x (?off + length r) s'"
      by (simp add: wal_app_def)
    with DecodeRecord_append [OF d, of x] lt show ?thesis by (simp add: wal_replay_Some)
  qed
qed

interpretation wlog: framed_log EncodeRecord record_fits wal_app wal_log
proof
  fix u :: wal_op and r off s n c s' x
  show "record_fits u \<Longrightarrow> wal_log (EncodeRecord u @ r) off s = wal_log r (off + length (EncodeRecord u)) (wal_app u s)"
    by (simp add: wal_log_def wal_replay_Some [OF DecodeRecord_EncodeRecord])
  show "record_fits u \<Longrightarrow> n < length (EncodeRecord u) \<Longrightarrow> wal_log (take n (EncodeRecord u)) off s = Inr (off, s)"
    by (simp add: wal_log_def wal_replay_None [OF DecodeRecord_torn])
  have "DecodeRecord [] = None" by (simp add: DecodeRecord_def decode_frame_def)
  then show "wal_log [] off s = Inr (off, s)" by (simp add: wal_log_def wal_replay_None)
  show "wal_log c off s = Inr (off + length c, s') \<Longrightarrow> wal_log (c @ x) off s = wal_log x (off + length c) s'"
    by (simp add: wal_log_def wal_replay_extend)
qed

lemma fold_wal_app: "fold wal_app us s = (art_replay us (fst s), snd s + length us)"
  by (induction us arbitrary: s) (simp_all add: wal_app_def)

definition log_of :: "wal_op list \<Rightarrow> bytes" where
  "log_of us = concat (map EncodeRecord us)"



subsection \<open>Runs of the wrapper\<close>

text \<open>An operation that the kernel serves in full, and a sequence of them.\<close>

fun wal_do :: "wal_op \<Rightarrow> ArtWal \<times> file_map \<Rightarrow> ArtWal \<times> file_map" where
  "wal_do (MPut p d) (a, fs) = snd (WalInsert (Wrote (length (EncodeRecord (MPut p d)))) True p d a fs)"
| "wal_do (MDel p) (a, fs) = snd (WalRemove (Wrote (length (EncodeRecord (MDel p)))) True p a fs)"

definition wal_run :: "wal_op list \<Rightarrow> ArtWal \<times> file_map \<Rightarrow> ArtWal \<times> file_map" where
  "wal_run = fold wal_do"

definition granted :: open_env where
  "granted = \<lparr>oe_read = None, oe_truncate = True, oe_open = True\<rparr>"

definition wal_fresh :: "wal_options \<Rightarrow> ArtWal" where
  "wal_fresh os = \<lparr>opts = os, art = ArtIndex_new, wal_fd = True, records_replayed = 0, wal_records = 0\<rparr>"

definition paths_ok :: "wal_options \<Rightarrow> bool" where
  "paths_ok os \<longleftrightarrow> wal_path os \<noteq> [] \<and> snapshot_path os \<noteq> wal_path os \<and>
     snapshot_path os @ lit ''.tmp'' \<noteq> wal_path os"

lemma wal_do_granted:
  assumes "wal_fd a" "fs (wal_path (opts a)) = Some c"
  shows "\<exists>n. wal_do u (a, fs) = (a\<lparr>wal_records := n, art := store_apply art_put art_del u (art a)\<rparr>,
    fs(wal_path (opts a) \<mapsto> c @ EncodeRecord u))"
  using assms
  by (cases u) (auto simp: WalInsert_def WalRemove_def AppendLocked_def Let_def art_put_def art_del_def
      split: prod.splits)

lemma wal_run_granted:
  assumes "wal_fd a" "fs (wal_path (opts a)) = Some c"
  shows "\<exists>n. wal_run us (a, fs) = (a\<lparr>wal_records := n, art := art_replay us (art a)\<rparr>,
    fs(wal_path (opts a) \<mapsto> c @ log_of us))"
  using assms
proof (induction us arbitrary: a fs c)
  case Nil
  then have "fs(wal_path (opts a) \<mapsto> c) = fs" by (auto simp: fun_upd_idem)
  then show ?case by (intro exI [of _ "wal_records a"]) (simp add: wal_run_def log_of_def)
next
  case (Cons u us)
  obtain n where d: "wal_do u (a, fs) = (a\<lparr>wal_records := n, art := store_apply art_put art_del u (art a)\<rparr>,
      fs(wal_path (opts a) \<mapsto> c @ EncodeRecord u))" using wal_do_granted [of a fs, OF Cons.prems] by blast
  let ?a = "a\<lparr>wal_records := n, art := store_apply art_put art_del u (art a)\<rparr>"
  let ?fs = "fs(wal_path (opts a) \<mapsto> c @ EncodeRecord u)"
  have "wal_fd ?a" "?fs (wal_path (opts ?a)) = Some (c @ EncodeRecord u)" using Cons.prems by simp_all
  from Cons.IH [of ?a ?fs, OF this] obtain k where "wal_run us (?a, ?fs) =
      (?a\<lparr>wal_records := k, art := art_replay us (art ?a)\<rparr>, ?fs(wal_path (opts ?a) \<mapsto> (c @ EncodeRecord u) @ log_of us))"
    by blast
  moreover have "log_of (u # us) = EncodeRecord u @ log_of us" by (simp add: log_of_def)
  ultimately show ?case using d by (intro exI [of _ k]) (auto simp: wal_run_def fun_eq_iff)
qed



lemma load_snapshot_none: "fs path = None \<Longrightarrow> load_snapshot b3 path fs = (ArtIndex_new, False)"
  by (simp add: load_snapshot_def)


lemma fits_ok: "list_all record_fits us \<Longrightarrow> \<forall>u \<in> set us. op_ok u"
  "list_all record_fits us \<Longrightarrow> \<forall>u \<in> set (take k us). path_ok (op_key u)"
  by (auto simp: list_all_iff record_fits_def op_ok_def dest: in_set_takeD)






subsection \<open>What a short write and a long path do\<close>

lemma torn_then_record:
  assumes "record_fits u1" "4 \<le> k" "k + length r < length (EncodeRecord u1)"
  shows "DecodeRecord (take k (EncodeRecord u1) @ r) = None"
proof -
  note t = record_fits_frame [OF assms(1)]
  have "take k (EncodeRecord u1) @ r = PutU32 (of_nat (record_total u1)) @
      take (k - 4) (record_body u1 @ PutU32 (Crc32_tab (record_body u1))) @ r"
    using assms(2) by (simp add: EncodeRecord_def)
  then have "unat (GetU32 (take k (EncodeRecord u1) @ r)) = record_total u1" using t by (simp add: unat_u32_of_nat)
  moreover have "length (take k (EncodeRecord u1) @ r) < record_total u1"
    using assms(3) record_body_props(3) [of u1] t by simp
  ultimately show ?thesis by (simp add: DecodeRecord_def decode_frame_def Let_def)
qed

lemma long_path_undecodable:
  assumes "op_ok u" "256 \<le> length (op_key u)" "record_total u < 2 ^ 32"
  shows "DecodeRecord (EncodeRecord u @ r) = None"
proof -
  have "unat (of_nat (length (op_key u)) :: byte) < 256"
    using unsigned_less [of "of_nat (length (op_key u)) :: byte"] by simp
  moreover have "length (record_body u) = 2 + 8 * length (op_key u) + (case u of MPut p d \<Rightarrow> kLeafPayloadBytes | MDel p \<Rightarrow> 0)"
    using record_body_props(1) [OF assms(1)] by (simp add: record_total_def)
  ultimately have "decode_op (record_body u) = None"
    using assms(2) by (cases u) (simp_all add: decode_op_def Let_def kOpInsert_def kOpRemove_def)
  then show ?thesis using assms by (simp add: DecodeRecord_def decode_frame_EncodeRecord)
qed

lemma replay_stops:
  assumes "list_all record_fits us" "DecodeRecord c = None"
  shows "wal_replay (log_of us @ c) 0 (a, 0) = (length (log_of us), art_replay us a, length us)"
  using wlog.replay_log_app [OF assms(1), of c 0 "(a, 0)"] wal_replay_None [OF assms(2)]
  by (simp add: wal_log_def log_of_def fold_wal_app)

lemma WalOpen_stops:
  assumes "wal_path os \<noteq> []" "fs (snapshot_path os) = None"
    and "fs (wal_path os) = Some (log_of us @ c)" "list_all record_fits us" "DecodeRecord c = None"
  shows "\<exists>w fs'. WalOpen b3 granted os fs = (Some w, False, fs') \<and> LookupByPath (art w) = fold map_apply us Map.empty"
  using assms(1-3) art_replay_new(2) [of us] fits_ok(2) [OF assms(4), of "length us"]
  by (auto simp: WalOpen_def load_snapshot_none granted_def Let_def replay_stops [OF assms(4,5)])

subsection \<open>Properties\<close>

definition sample_opts :: wal_options where
  "sample_opts = \<lparr>snapshot_path = [1], wal_path = [2], fsync_each_write = True\<rparr>"

definition sample_leaf :: LeafData where
  "sample_leaf = \<lparr>locator = replicate 64 9, tier_residency_bitmap = 1, refcount = 1, sealed_at_nanos = 5,
     last_access_nanos = 6, bytes_total = 7\<rparr>"


lemma sample_opts_ok: "paths_ok sample_opts" "snapshot_path sample_opts \<noteq> []"
  by (simp_all add: paths_ok_def sample_opts_def lit_def)







text \<open>A wrapper whose log holds the operations that built its index, with no snapshot.\<close>

definition wal_holds :: "wal_options \<Rightarrow> wal_op list \<Rightarrow> ArtWal \<Rightarrow> file_map \<Rightarrow> bool" where
  "wal_holds os us a fs \<longleftrightarrow> paths_ok os \<and> opts a = os \<and> wal_fd a \<and> fs (snapshot_path os) = None \<and>
     fs (wal_path os) = Some (log_of us) \<and> list_all record_fits us \<and> art a = art_replay us ArtIndex_new"

lemma wal_holds_fresh: "paths_ok os \<Longrightarrow> fs (snapshot_path os) = None \<Longrightarrow> fs (wal_path os) = Some [] \<Longrightarrow> wal_holds os [] (wal_fresh os) fs"
  by (simp add: wal_holds_def wal_fresh_def log_of_def)

lemma wal_holds_index: "wal_holds os us a fs \<Longrightarrow> index_ok (art a)"
  using art_replay_new(1) [of us] fits_ok(2) [of us "length us"] by (simp add: wal_holds_def art_inv_def)

lemma WalInsert_full:
  assumes "wal_holds os us a fs" "path_ok p"
    and "WalInsert (Wrote (length (EncodeRecord (MPut p d)))) True p d a fs' = (r, b, fs'')"
  shows "r \<noteq> kPathConflict" "LookupByPath (art b) p = Some d" "wal_fd b" "opts b = os"
    "fs'' = fs'(wal_path os \<mapsto> (case fs' (wal_path os) of None \<Rightarrow> [] | Some f \<Rightarrow> f) @ EncodeRecord (MPut p d))"
proof -
  obtain i r' where ins: "Insert p d (art a) = (i, r')" by fastforce
  note im = Insert_map [OF wal_holds_index [OF assms(1)] assms(2) ins]
  from assms(1,3) ins have "r = r'" "art b = i" "wal_fd b" "opts b = os"
    "fs'' = fs'(wal_path os \<mapsto> (case fs' (wal_path os) of None \<Rightarrow> [] | Some f \<Rightarrow> f) @ EncodeRecord (MPut p d))"
    by (auto simp: WalInsert_def AppendLocked_def Let_def wal_holds_def)
  with im show "r \<noteq> kPathConflict" "LookupByPath (art b) p = Some d" "wal_fd b" "opts b = os"
    "fs'' = fs'(wal_path os \<mapsto> (case fs' (wal_path os) of None \<Rightarrow> [] | Some f \<Rightarrow> f) @ EncodeRecord (MPut p d))"
    by (simp_all split: if_splits)
qed

text \<open>A short \<open>write\<close> to the log makes \<open>Insert\<close> fail and leaves its bytes in the file. When \<open>k\<close> bytes
  of a record are stored and the next \<open>Insert\<close> is logged in full, shorter than what is missing, that
  \<open>Insert\<close> is acknowledged and visible, and the next start drops it: replay stops at the torn bytes
  and recovers what the log held before them.\<close>

theorem short_write_loses_insert:
  assumes "wal_holds os us a fs" and "record_fits (MPut p1 d1)" and "record_fits (MPut p d)"
    and "4 \<le> k" and "k + length (EncodeRecord (MPut p d)) < length (EncodeRecord (MPut p1 d1))"
    and "WalInsert (Wrote k) True p1 d1 a fs = (r1, a1, fs1)"
    and "WalInsert (Wrote (length (EncodeRecord (MPut p d)))) True p d a1 fs1 = (r2, a2, fs2)"
  shows "r1 = kPathConflict \<and> r2 \<noteq> kPathConflict \<and> LookupByPath (art a2) p = Some d \<and>
    (\<exists>w fs3. WalOpen b3 granted os fs2 = (Some w, False, fs3) \<and>
       LookupByPath (art w) = fold map_apply us Map.empty)"
proof -
  have 1: "r1 = kPathConflict" "a1 = a" "fs1 = fs(wal_path os \<mapsto> log_of us @ take k (EncodeRecord (MPut p1 d1)))"
    using assms(1,5,6) by (auto simp: WalInsert_def AppendLocked_def Let_def wal_holds_def)
  have p: "path_ok p" using assms(3) by (simp add: record_fits_def op_ok_def)
  note i = WalInsert_full [OF assms(1) p assms(7) [unfolded 1(2)]]
  have "fs2 (wal_path os) = Some (log_of us @ take k (EncodeRecord (MPut p1 d1)) @ EncodeRecord (MPut p d))"
    "fs2 (snapshot_path os) = None" "wal_path os \<noteq> []" "list_all record_fits us"
    using assms(1) by (simp_all add: i(5) 1(3) wal_holds_def paths_ok_def)
  with WalOpen_stops [OF _ _ _ _ torn_then_record [OF assms(2,4,5)]] 1(1) i(1,2) show ?thesis by blast
qed

theorem short_write_loses_insert_witness:
  "\<exists>r1 a1 fs1 r2 a2 fs2 w fs3.
     WalInsert (Wrote 4) True (replicate 9 hash_a) sample_leaf (wal_fresh sample_opts) [[2] \<mapsto> []] = (r1, a1, fs1) \<and>
     WalInsert (Wrote (length (EncodeRecord (MPut [hash_b] sample_leaf)))) True [hash_b] sample_leaf a1 fs1 = (r2, a2, fs2) \<and>
     LookupByPath (art a2) [hash_b] = Some sample_leaf \<and>
     WalOpen id granted sample_opts fs2 = (Some w, False, fs3) \<and> LookupByPath (art w) = Map.empty"
proof -
  let ?fs = "Map.empty([2] \<mapsto> [])"
  have h: "wal_holds sample_opts [] (wal_fresh sample_opts) ?fs"
    by (rule wal_holds_fresh [OF sample_opts_ok(1)]) (simp_all add: sample_opts_def)
  have f: "record_fits (MPut (replicate 9 hash_a) sample_leaf)" "record_fits (MPut [hash_b] sample_leaf)"
    by (simp_all add: record_fits_def op_ok_def path_ok_def hash_ok_def hash_a_def hash_b_def leaf_ok_def sample_leaf_def)
  then have l: "length (EncodeRecord (MPut (replicate 9 hash_a) sample_leaf)) = 178"
    "length (EncodeRecord (MPut [hash_b] sample_leaf)) = 114"
    by (simp_all add: record_body_props(3) record_fits_def record_total_def kLeafPayloadBytes_def)
  obtain r1 a1 fs1 where 1: "WalInsert (Wrote 4) True (replicate 9 hash_a) sample_leaf (wal_fresh sample_opts) ?fs = (r1, a1, fs1)"
    by (metis prod_cases3)
  obtain r2 a2 fs2 where 2: "WalInsert (Wrote (length (EncodeRecord (MPut [hash_b] sample_leaf)))) True [hash_b] sample_leaf a1 fs1 = (r2, a2, fs2)"
    by (metis prod_cases3)
  from short_write_loses_insert [OF h f _ _ 1 2, of id] l 1 2 show ?thesis by auto
qed

text \<open>A record stores the number of hashes of its path in one byte, and nothing bounds the path.
  Inserting a path of 256 or more hashes is acknowledged and visible, but its record cannot be decoded:
  the next start recovers only what was logged before it, and loses it and every operation
  acknowledged after it.\<close>

theorem long_path_loses_log:
  assumes "wal_holds os us a fs" and "path_ok p" and "leaf_ok d" and "256 \<le> length p" "length p < 2 ^ 28"
    and "WalInsert (Wrote (length (EncodeRecord (MPut p d)))) True p d a fs = (r, a1, fs1)"
    and "wal_run vs (a1, fs1) = (a2, fs2)"
  shows "r \<noteq> kPathConflict \<and> LookupByPath (art a1) p = Some d \<and>
    (\<exists>w fs3. WalOpen b3 granted os fs2 = (Some w, False, fs3) \<and>
       LookupByPath (art w) = fold map_apply us Map.empty)"
proof -
  note i = WalInsert_full [OF assms(1,2,6)]
  have fs1: "fs1 (wal_path os) = Some (log_of us @ EncodeRecord (MPut p d))"
    using assms(1) by (simp add: i(5) wal_holds_def)
  then obtain n where "(a2, fs2) = (a1\<lparr>wal_records := n, art := art_replay vs (art a1)\<rparr>,
      fs1(wal_path os \<mapsto> (log_of us @ EncodeRecord (MPut p d)) @ log_of vs))"
    using wal_run_granted [of a1 fs1 "log_of us @ EncodeRecord (MPut p d)" vs] i(3,4) assms(7) by auto
  then have "fs2 (wal_path os) = Some (log_of us @ EncodeRecord (MPut p d) @ log_of vs)"
    "fs2 (snapshot_path os) = None" "wal_path os \<noteq> []" "list_all record_fits us"
    using assms(1) by (simp_all add: i(5) wal_holds_def paths_ok_def)
  moreover have "DecodeRecord (EncodeRecord (MPut p d) @ log_of vs) = None"
    using assms(2-5) by (intro long_path_undecodable)
      (simp_all add: op_ok_def record_total_def kLeafPayloadBytes_def)
  ultimately show ?thesis using WalOpen_stops i(1,2) by blast
qed

theorem long_path_loses_log_witness:
  "\<exists>r a1 fs1 w fs3. WalInsert (Wrote (length (EncodeRecord (MPut (replicate 256 hash_a) sample_leaf)))) True
       (replicate 256 hash_a) sample_leaf (wal_fresh sample_opts) [[2] \<mapsto> []] = (r, a1, fs1) \<and>
     LookupByPath (art a1) (replicate 256 hash_a) = Some sample_leaf \<and>
     WalOpen id granted sample_opts fs1 = (Some w, False, fs3) \<and> LookupByPath (art w) = Map.empty"
proof -
  let ?fs = "Map.empty([2] \<mapsto> [])"
  have h: "wal_holds sample_opts [] (wal_fresh sample_opts) ?fs"
    by (rule wal_holds_fresh [OF sample_opts_ok(1)]) (simp_all add: sample_opts_def)
  have p: "path_ok (replicate 256 hash_a)" "leaf_ok sample_leaf"
    by (simp_all add: path_ok_def hash_ok_def hash_a_def leaf_ok_def sample_leaf_def)
  obtain r a1 fs1 where 1: "WalInsert (Wrote (length (EncodeRecord (MPut (replicate 256 hash_a) sample_leaf)))) True
      (replicate 256 hash_a) sample_leaf (wal_fresh sample_opts) ?fs = (r, a1, fs1)"
    by (metis prod_cases3)
  have "wal_run [] (a1, fs1) = (a1, fs1)" by (simp add: wal_run_def)
  from long_path_loses_log [OF h p _ _ 1 this, of id] 1 show ?thesis by auto
qed

end
