(* ===== verification/Lpm.thy ===== *)
theory Lpm
  imports ArtIndex ByteCodec
begin

section \<open>Longest-prefix match over token sequences\<close>

text \<open>
  \<open>prefix/lpm.cpp\<close>: a token sequence is cut into chunks of 16 tokens, each chunk is hashed, and the
  path of hashes, after the fingerprint of the (tenant, model) pair, is looked up in the index.
  BLAKE3 is a parameter, used as a function from bytes to 16-byte digests.
\<close>

subsection \<open>Definitions\<close>

definition kChunkTokens :: nat where
  "kChunkTokens = 16"

definition token_bytes :: "u32 list \<Rightarrow> bytes" where
  "token_bytes ts = concat (map PutU32 ts)"

definition Chunkify :: "(bytes \<Rightarrow> bytes) \<Rightarrow> u32 list \<Rightarrow> chunk_path" where
  "Chunkify b3 tokens =
     map (\<lambda>i. take 8 (b3 (token_bytes (take kChunkTokens (drop (i * kChunkTokens) tokens)))))
       [0..<length tokens div kChunkTokens]"

definition NamespaceFingerprint :: "(bytes \<Rightarrow> bytes) \<Rightarrow> u64 \<Rightarrow> u64 \<Rightarrow> ChunkHash" where
  "NamespaceFingerprint b3 tenant_hash model_hash = take 8 (b3 (PutU64 tenant_hash @ PutU64 model_hash))"

definition ChunkifyNS :: "(bytes \<Rightarrow> bytes) \<Rightarrow> u32 list \<Rightarrow> ChunkHash \<Rightarrow> chunk_path" where
  "ChunkifyNS b3 tokens ns = ns # Chunkify b3 tokens"

record 'd LpmOutcome =
  matched_tokens :: u32
  matched_chunks :: u32
  leaf :: "'d option"

definition no_match :: "'d LpmOutcome" where
  "no_match = \<lparr>matched_tokens = 0, matched_chunks = 0, leaf = None\<rparr>"

definition LongestPrefixMatch :: "(bytes \<Rightarrow> bytes) \<Rightarrow> 'd ArtIndex \<Rightarrow> u32 list \<Rightarrow> 'd LpmOutcome" where
  "LongestPrefixMatch b3 art tokens = (let chunks = Chunkify b3 tokens in
     if chunks = [] then no_match
     else (case Lookup art chunks of (k, d) \<Rightarrow>
       \<lparr>matched_tokens = of_nat k * of_nat kChunkTokens, matched_chunks = of_nat k, leaf = d\<rparr>))"

definition LongestPrefixMatchNS ::
    "(bytes \<Rightarrow> bytes) \<Rightarrow> 'd ArtIndex \<Rightarrow> u32 list \<Rightarrow> u64 \<Rightarrow> u64 \<Rightarrow> 'd LpmOutcome" where
  "LongestPrefixMatchNS b3 art tokens tenant_hash model_hash =
     (let ns = NamespaceFingerprint b3 tenant_hash model_hash; chunks = ChunkifyNS b3 tokens ns in
      if length chunks < 2 then no_match
      else (case Lookup art chunks of (k, d) \<Rightarrow>
        if k = 0 then no_match
        else \<lparr>matched_tokens = of_nat (k - 1) * of_nat kChunkTokens, matched_chunks = of_nat (k - 1),
          leaf = d\<rparr>))"

text \<open>BLAKE3-128 digests have 16 bytes.\<close>

definition digest_128 :: "(bytes \<Rightarrow> bytes) \<Rightarrow> bool" where
  "digest_128 b3 \<longleftrightarrow> (\<forall>x. length (b3 x) = 16)"

subsection \<open>Chunks\<close>

lemma length_Chunkify [simp]: "length (Chunkify b3 ts) = length ts div 16"
  by (simp add: Chunkify_def kChunkTokens_def)

lemma take_Chunkify:
  assumes "k \<le> length ts div 16"
  shows "take k (Chunkify b3 ts) = Chunkify b3 (take (k * 16) ts)"
proof -
  from assms have kl: "k * 16 \<le> length ts" by (simp add: less_eq_div_iff_mult_less_eq)
  have "take 16 (drop (i * 16) ts) = take 16 (drop (i * 16) (take (k * 16) ts))" if "i < k" for i
  proof -
    from that have "16 \<le> k * 16 - i * 16" using mult_le_mono1 [of "Suc i" k 16] by simp
    then show ?thesis by (simp add: drop_take min_absorb1)
  qed
  with assms kl show ?thesis
    by (auto simp: Chunkify_def kChunkTokens_def take_map min_absorb1 intro!: map_cong)
qed

lemma Chunkify_hash_ok: "digest_128 b3 \<Longrightarrow> h \<in> set (Chunkify b3 ts) \<Longrightarrow> hash_ok h"
  by (auto simp: Chunkify_def digest_128_def hash_ok_def)

lemma ChunkifyNS_path_ok: "digest_128 b3 \<Longrightarrow> path_ok (ChunkifyNS b3 ts (NamespaceFingerprint b3 t m))"
  using Chunkify_hash_ok [of b3]
  by (auto simp: ChunkifyNS_def path_ok_def NamespaceFingerprint_def hash_ok_def digest_128_def)

subsection \<open>What the namespaced match returns\<close>

lemma lpm_chunks_fit:
  assumes "k \<le> length ts div 16" "length ts < 2 ^ 32"
  shows "unat (of_nat k :: u32) = k" "unat (of_nat k * of_nat kChunkTokens :: u32) = k * 16"
proof -
  from assms(1) have "k * 16 \<le> length ts" by (simp add: less_eq_div_iff_mult_less_eq)
  with assms(2) have "k * 16 < 2 ^ 32" by linarith
  moreover have "(of_nat k * of_nat kChunkTokens :: u32) = of_nat (k * 16)"
    by (simp only: kChunkTokens_def of_nat_mult)
  ultimately show "unat (of_nat k :: u32) = k" "unat (of_nat k * of_nat kChunkTokens :: u32) = k * 16"
    by (simp_all only: unat_u32_of_nat)
qed

lemma LongestPrefixMatchNS_hit:
  assumes "index_ok a" "length ts < 2 ^ 32"
    and "LongestPrefixMatchNS b3 a ts t m = \<lparr>matched_tokens = n, matched_chunks = c, leaf = Some d\<rparr>"
  defines "ns \<equiv> NamespaceFingerprint b3 t m"
  shows "unat n = unat c * 16" "unat n \<le> length ts"
    "LookupByPath a (ChunkifyNS b3 (take (unat n) ts) ns) = Some d"
    "unat c < k \<Longrightarrow> k \<le> length ts div 16 \<Longrightarrow> LookupByPath a (ChunkifyNS b3 (take (k * 16) ts) ns) = None"
proof -
  let ?p = "ChunkifyNS b3 ts ns"
  have len: "length ?p = Suc (length ts div 16)" by (simp add: ChunkifyNS_def)
  obtain i where j: "longest_prefix (LookupByPath a) ?p = Some (Suc i)"
    and out: "n = of_nat i * of_nat kChunkTokens" "c = of_nat i" "LookupByPath a (take (Suc i) ?p) = Some d"
  proof (cases "longest_prefix (LookupByPath a) ?p")
    case None
    with assms(3) Lookup_longest [OF assms(1), of ?p] show ?thesis
      by (simp add: LongestPrefixMatchNS_def no_match_def Let_def ns_def split: if_splits)
  next
    case (Some j)
    then obtain i where i: "j = Suc i" using longest_prefix_Some [OF Some] by (cases j) auto
    with Some have lk: "Lookup a ?p = (Suc i, LookupByPath a (take (Suc i) ?p))"
      using Lookup_longest [OF assms(1), of ?p] by simp
    have "LongestPrefixMatchNS b3 a ts t m = (if length ?p < 2 then no_match
        else \<lparr>matched_tokens = of_nat i * of_nat kChunkTokens, matched_chunks = of_nat i,
          leaf = LookupByPath a (take (Suc i) ?p)\<rparr>)"
      unfolding LongestPrefixMatchNS_def Let_def ns_def [symmetric] lk by simp
    with assms(3) have "n = of_nat i * of_nat kChunkTokens" "c = of_nat i"
      "LookupByPath a (take (Suc i) ?p) = Some d" by (auto simp: no_match_def split: if_splits)
    with Some i show ?thesis by (intro that) simp_all
  qed
  from longest_prefix_Some [OF j] len have jb: "i \<le> length ts div 16" by auto
  note fit = lpm_chunks_fit [OF jb assms(2)]
  show "unat n = unat c * 16" by (simp add: out(1,2) fit)
  have "i * 16 \<le> length ts" using jb by (simp add: less_eq_div_iff_mult_less_eq)
  then show "unat n \<le> length ts" by (simp add: out(1) fit)
  have pre: "take (Suc i) ?p = ChunkifyNS b3 (take (i * 16) ts) ns" if "i \<le> length ts div 16" for i
    using that by (simp add: ChunkifyNS_def take_Chunkify)
  from pre [OF jb] out(3) show "LookupByPath a (ChunkifyNS b3 (take (unat n) ts) ns) = Some d"
    by (simp add: out(1) fit)
  assume k: "unat c < k" "k \<le> length ts div 16"
  then have "Suc i < Suc k" "Suc k \<le> length ?p" using jb len by (simp_all add: out(2) fit)
  with longest_prefix_greatest [OF j] have "LookupByPath a (take (Suc k) ?p) = None" by blast
  with pre [OF k(2)] show "LookupByPath a (ChunkifyNS b3 (take (k * 16) ts) ns) = None" by simp
qed

subsection \<open>Namespaces\<close>

definition in_namespace :: "ChunkHash \<Rightarrow> (chunk_path, 'd) map_op \<Rightarrow> bool" where
  "in_namespace ns u \<longleftrightarrow> hd (op_key u) = ns"

lemma map_replay_namespace:
  "hd p = ns \<Longrightarrow> fold map_apply us m p = fold map_apply (filter (in_namespace ns) us) m p"
  by (induction us arbitrary: m rule: rev_induct) (auto simp: map_apply_def in_namespace_def)

lemma LongestPrefixMatchNS_agree:
  assumes "index_ok a" "index_ok b"
    and "\<And>p. p \<noteq> [] \<Longrightarrow> hd p = NamespaceFingerprint b3 t m \<Longrightarrow> LookupByPath a p = LookupByPath b p"
  shows "LongestPrefixMatchNS b3 a ts t m = LongestPrefixMatchNS b3 b ts t m"
proof -
  define p where "p = ChunkifyNS b3 ts (NamespaceFingerprint b3 t m)"
  then obtain q where q: "p = NamespaceFingerprint b3 t m # q" by (simp add: ChunkifyNS_def)
  have agree: "LookupByPath a (NamespaceFingerprint b3 t m # r) = LookupByPath b (NamespaceFingerprint b3 t m # r)" for r
    by (rule assms(3)) simp_all
  then have lp: "longest_prefix (LookupByPath a) p = longest_prefix (LookupByPath b) p"
    unfolding q longest_prefix_Cons by (simp only: agree)
  have "Lookup a p = Lookup b p"
  proof (cases "longest_prefix (LookupByPath b) p")
    case None
    with lp show ?thesis by (simp add: Lookup_longest [OF assms(1)] Lookup_longest [OF assms(2)])
  next
    case (Some k)
    then obtain j where "k = Suc j" using longest_prefix_Some [OF Some] by (cases k) auto
    with Some lp agree show ?thesis
      by (simp add: Lookup_longest [OF assms(1)] Lookup_longest [OF assms(2)] q)
  qed
  then show ?thesis by (simp add: LongestPrefixMatchNS_def Let_def p_def)
qed

text \<open>A digest function and an index for the instances.\<close>

definition sample_b3 :: "bytes \<Rightarrow> bytes" where
  "sample_b3 x = take 16 (x @ replicate 16 0)"

definition sample_tokens :: "u32 list" where
  "sample_tokens = replicate 16 7 @ replicate 16 8 @ [9]"

definition sample_index_ops :: "(chunk_path, nat) map_op list" where
  "sample_index_ops = [MPut (ChunkifyNS sample_b3 (replicate 16 7) (NamespaceFingerprint sample_b3 1 2)) 40,
     MPut (ChunkifyNS sample_b3 sample_tokens (NamespaceFingerprint sample_b3 3 2)) 50]"

lemma sample_digest: "digest_128 sample_b3"
  by (auto simp: digest_128_def sample_b3_def min_def)

lemma sample_index_ops_ok: "\<forall>u \<in> set sample_index_ops. path_ok (op_key u)"
  using ChunkifyNS_path_ok [OF sample_digest] by (simp add: sample_index_ops_def)

lemma sample_match:
  "LongestPrefixMatchNS sample_b3 (art_replay sample_index_ops ArtIndex_new) sample_tokens 1 2 =
     \<lparr>matched_tokens = 16, matched_chunks = 1, leaf = Some 40\<rparr>"
  by code_simp

subsection \<open>Properties\<close>

text \<open>C30: A namespaced longest-prefix match depends only on the entries of its own (tenant, model)
  namespace: on an index built by any sequence of inserts and removes, the outcome is the one on the
  index built by those of them whose path starts with the namespace's fingerprint. Entries of other
  fingerprints, whatever token chunks they share, never change or appear in it.\<close>

theorem namespace_isolation:
  assumes "\<forall>u \<in> set us. path_ok (op_key u)"
  shows "LongestPrefixMatchNS b3 (art_replay us ArtIndex_new) ts t m =
    LongestPrefixMatchNS b3
      (art_replay (filter (in_namespace (NamespaceFingerprint b3 t m)) us) ArtIndex_new) ts t m"
proof -
  let ?f = "filter (in_namespace (NamespaceFingerprint b3 t m)) us"
  from assms have f: "\<forall>u \<in> set ?f. path_ok (op_key u)" by simp
  show ?thesis
    by (rule LongestPrefixMatchNS_agree)
      (use art_replay_new [OF assms] art_replay_new [OF f]
        map_replay_namespace [of _ "NamespaceFingerprint b3 t m" us] in \<open>simp_all add: art_inv_def\<close>)
qed

theorem namespace_isolation_witness:
  "LongestPrefixMatchNS sample_b3 (art_replay sample_index_ops ArtIndex_new) sample_tokens 1 2 =
   LongestPrefixMatchNS sample_b3
     (art_replay (filter (in_namespace (NamespaceFingerprint sample_b3 1 2)) sample_index_ops) ArtIndex_new)
     sample_tokens 1 2 \<and>
   LongestPrefixMatchNS sample_b3 (art_replay sample_index_ops ArtIndex_new) sample_tokens 1 2 =
     \<lparr>matched_tokens = 16, matched_chunks = 1, leaf = Some 40\<rparr>"
  using namespace_isolation [OF sample_index_ops_ok, of sample_b3 sample_tokens 1 2] sample_match by simp

text \<open>C31: When a namespaced match over fewer than \<open>2\<^sup>3\<^sup>2\<close> tokens returns a leaf, the 32-bit count of
  matched tokens has not wrapped: it is 16 times the count of chunks and at most the number of tokens.
  The leaf is the one stored for exactly that many tokens in the namespace, and no longer whole-chunk
  prefix of the tokens is stored.\<close>

theorem LongestPrefixMatchNS_bounds:
  assumes "\<forall>u \<in> set us. path_ok (op_key u)" and "length ts < 2 ^ 32"
    and "LongestPrefixMatchNS b3 (art_replay us ArtIndex_new) ts t m =
      \<lparr>matched_tokens = n, matched_chunks = c, leaf = Some d\<rparr>"
  shows "unat n = unat c * 16 \<and> unat n \<le> length ts \<and>
    fold map_apply us Map.empty (ChunkifyNS b3 (take (unat n) ts) (NamespaceFingerprint b3 t m)) = Some d \<and>
    (\<forall>k. unat c < k \<and> k \<le> length ts div 16 \<longrightarrow>
       fold map_apply us Map.empty (ChunkifyNS b3 (take (k * 16) ts) (NamespaceFingerprint b3 t m)) = None)"
  using LongestPrefixMatchNS_hit [OF _ assms(2,3)] art_replay_new [OF assms(1)] by (simp add: art_inv_def)

theorem LongestPrefixMatchNS_bounds_witness:
  "unat (16 :: u32) \<le> length sample_tokens \<and>
   fold map_apply sample_index_ops Map.empty
     (ChunkifyNS sample_b3 (take 16 sample_tokens) (NamespaceFingerprint sample_b3 1 2)) = Some 40"
  using LongestPrefixMatchNS_bounds [OF sample_index_ops_ok _ sample_match] by (simp add: sample_tokens_def)

end
