(* ===== verification/DramTier.thy ===== *)
theory DramTier
  imports Prelude
begin

section \<open>The DRAM tier: a 2Q cache with per-kind eviction policies\<close>

text \<open>
  \<open>tier/dram_tier.cpp\<close> and the value policies of \<open>core/common\<close>. A cache of byte blobs in two queues:
  new keys enter \<open>a1in\<close>, keys that come back while they are remembered in the ghost queue \<open>a1out\<close> enter
  \<open>am\<close>. The lists have their newest element in front, as in the code. The hash indices hold the queue
  of a resident key and the set of ghost keys: the list iterators of the code point to the element
  with that key. Eviction asks the policy registered for the kind of an entry; the callback that is
  told about each evicted key is modelled by returning those keys in order. Sizes of blobs in memory
  are natural numbers; the invariant shows that the byte counters are exact, so that they never wrap.
\<close>

subsection \<open>Value policies\<close>

definition SK_KV :: u16 where "SK_KV = 0"
definition SK_TOOL_RESULT :: u16 where "SK_TOOL_RESULT = 3"
definition SK_MEMORY :: u16 where "SK_MEMORY = 16"
definition SK_MAX :: u16 where "SK_MAX = 18"

datatype EvictDecision = kEvictable | kNotEvictable
datatype OnMissAction = kRecompute | kReplayFromPersist | kNone

record 'c CostModel =
  fetch_cost_ms :: 'c
  recompute_cost_ms :: 'c
  reuse_hint :: u32

datatype ValuePolicy = ValuePolicyKv | ValuePolicyToolResult | ValuePolicyPersistentWal | ValuePolicyPersistentStub

text \<open>\<open>shouldStore\<close> reads one bit of the identity, whether the result of the tool is idempotent.\<close>

fun shouldStore :: "ValuePolicy \<Rightarrow> bool \<Rightarrow> 'c::{linorder, zero} CostModel \<Rightarrow> bool" where
  "shouldStore ValuePolicyKv idem cost =
     (if recompute_cost_ms cost \<le> 0 then True else fetch_cost_ms cost < recompute_cost_ms cost)"
| "shouldStore ValuePolicyToolResult idem cost =
     (if \<not> idem then False
      else if recompute_cost_ms cost \<le> 0 then True else fetch_cost_ms cost < recompute_cost_ms cost)"
| "shouldStore ValuePolicyPersistentWal idem cost = True"
| "shouldStore ValuePolicyPersistentStub idem cost = True"

fun shouldEvict :: "ValuePolicy \<Rightarrow> EvictDecision" where
  "shouldEvict ValuePolicyKv = kEvictable"
| "shouldEvict ValuePolicyToolResult = kEvictable"
| "shouldEvict ValuePolicyPersistentWal = kEvictable"
| "shouldEvict ValuePolicyPersistentStub = kNotEvictable"

fun onMiss :: "ValuePolicy \<Rightarrow> OnMissAction" where
  "onMiss ValuePolicyKv = kRecompute"
| "onMiss ValuePolicyToolResult = kRecompute"
| "onMiss ValuePolicyPersistentWal = kReplayFromPersist"
| "onMiss ValuePolicyPersistentStub = kReplayFromPersist"

type_synonym ValuePolicyRegistry = "u16 \<rightharpoonup> ValuePolicy"

definition has_policy :: "ValuePolicyRegistry \<Rightarrow> u16 \<Rightarrow> bool" where
  "has_policy reg kind \<longleftrightarrow> kind < SK_MAX \<and> reg kind \<noteq> None"

subsection \<open>The tier\<close>

type_synonym DramKey = bytes

datatype Queue = A1in | Am
datatype HitWhere = kMiss | kA1in | kAm | kGhost

record Entry =
  ekey :: DramKey
  equeue :: Queue
  edata :: bytes
  state_kind :: u16

record DramTier =
  a1in :: "Entry list"
  am :: "Entry list"
  a1out :: "DramKey list"
  key_index :: "DramKey \<rightharpoonup> Queue"
  ghost_index :: "DramKey set"
  capacity_bytes :: nat
  a1in_capacity :: nat
  a1out_max :: nat
  a1in_bytes_used :: nat
  am_bytes_used :: nat
  registry :: "ValuePolicyRegistry option"

definition DramTier_new :: "nat \<Rightarrow> nat \<Rightarrow> ValuePolicyRegistry option \<Rightarrow> DramTier" where
  "DramTier_new cap ghosts reg =
     \<lparr>a1in = [], am = [], a1out = [], key_index = Map.empty, ghost_index = {}, capacity_bytes = cap,
      a1in_capacity = cap div 4, a1out_max = ghosts, a1in_bytes_used = 0, am_bytes_used = 0, registry = reg\<rparr>"

definition UsedBytes :: "DramTier \<Rightarrow> nat" where
  "UsedBytes d = a1in_bytes_used d + am_bytes_used d"

definition GhostSize :: "DramTier \<Rightarrow> nat" where
  "GhostSize d = length (a1out d)"

text \<open>The element an iterator of the index points to, and the list without it.\<close>

fun entry_at :: "DramKey \<Rightarrow> Entry list \<Rightarrow> Entry option" where
  "entry_at k [] = None"
| "entry_at k (e # es) = (if ekey e = k then Some e else entry_at k es)"

definition queue_of :: "DramTier \<Rightarrow> Queue \<Rightarrow> Entry list" where
  "queue_of d w = (case w of A1in \<Rightarrow> a1in d | Am \<Rightarrow> am d)"

definition resident :: "DramTier \<Rightarrow> DramKey \<Rightarrow> Entry option" where
  "resident d k = (case key_index d k of None \<Rightarrow> None | Some w \<Rightarrow> entry_at k (queue_of d w))"

definition without :: "DramKey \<Rightarrow> Entry list \<Rightarrow> Entry list" where
  "without k es = filter (\<lambda>e. ekey e \<noteq> k) es"

record LookupResult =
  where_hit :: HitWhere
  hit_data :: bytes

definition Lookup :: "DramKey \<Rightarrow> DramTier \<Rightarrow> LookupResult \<times> DramTier" where
  "Lookup key d = (case resident d key of
     Some e \<Rightarrow>
       if equeue e = Am then (\<lparr>where_hit = kAm, hit_data = edata e\<rparr>, d\<lparr>am := e # without key (am d)\<rparr>)
       else (\<lparr>where_hit = kA1in, hit_data = edata e\<rparr>, d)
   | None \<Rightarrow>
       if key \<in> ghost_index d then (\<lparr>where_hit = kGhost, hit_data = []\<rparr>, d)
       else (\<lparr>where_hit = kMiss, hit_data = []\<rparr>, d))"

definition Peek :: "DramKey \<Rightarrow> DramTier \<Rightarrow> LookupResult" where
  "Peek key d = (case resident d key of
     None \<Rightarrow> \<lparr>where_hit = kMiss, hit_data = []\<rparr>
   | Some e \<Rightarrow> \<lparr>where_hit = (if equeue e = Am then kAm else kA1in), hit_data = edata e\<rparr>)"

definition KindOf :: "DramKey \<Rightarrow> DramTier \<Rightarrow> u16 option" where
  "KindOf key d = map_option state_kind (resident d key)"

definition Erase :: "DramKey \<Rightarrow> DramTier \<Rightarrow> bool \<times> DramTier" where
  "Erase key d = (case resident d key of
     None \<Rightarrow>
       if key \<in> ghost_index d then (True, d\<lparr>a1out := filter ((\<noteq>) key) (a1out d), ghost_index := ghost_index d - {key}\<rparr>)
       else (False, d)
   | Some e \<Rightarrow>
       (True, (if equeue e = A1in
         then d\<lparr>a1in_bytes_used := a1in_bytes_used d - length (edata e), a1in := without key (a1in d)\<rparr>
         else d\<lparr>am_bytes_used := am_bytes_used d - length (edata e), am := without key (am d)\<rparr>)
           \<lparr>key_index := (key_index d)(key := None)\<rparr>))"

fun ghost_trim :: "nat \<Rightarrow> DramKey list \<Rightarrow> DramKey set \<Rightarrow> DramKey list \<times> DramKey set" where
  "ghost_trim 0 out idx = (out, idx)"
| "ghost_trim (Suc n) out idx = ghost_trim n (butlast out) (idx - {last out})"

definition GhostInsert :: "DramKey \<Rightarrow> DramTier \<Rightarrow> DramTier" where
  "GhostInsert key d =
     (let out = key # a1out d; idx = insert key (ghost_index d) in
      case ghost_trim (length out - a1out_max d) out idx of (out, idx) \<Rightarrow> d\<lparr>a1out := out, ghost_index := idx\<rparr>)"

definition IsNotEvictable :: "DramTier \<Rightarrow> Entry \<Rightarrow> bool" where
  "IsNotEvictable d e = (case registry d of
     None \<Rightarrow> False
   | Some reg \<Rightarrow> has_policy reg (state_kind e) \<and> shouldEvict (the (reg (state_kind e))) = kNotEvictable)"

text \<open>The walk from the tail to the front: the first entry that may go, and the list without it.\<close>

fun first_victim :: "(Entry \<Rightarrow> bool) \<Rightarrow> Entry list \<Rightarrow> (Entry \<times> Entry list) option" where
  "first_victim stay [] = None"
| "first_victim stay (e # es) =
     (if stay e then map_option (\<lambda>(v, rest). (v, e # rest)) (first_victim stay es) else Some (e, es))"

definition victim :: "(Entry \<Rightarrow> bool) \<Rightarrow> Entry list \<Rightarrow> (Entry \<times> Entry list) option" where
  "victim stay es = map_option (\<lambda>(v, rest). (v, rev rest)) (first_victim stay (rev es))"

definition drop_a1in :: "Entry \<Rightarrow> Entry list \<Rightarrow> DramTier \<Rightarrow> DramTier" where
  "drop_a1in e rest d = (GhostInsert (ekey e) (d\<lparr>a1in_bytes_used := a1in_bytes_used d - length (edata e)\<rparr>))
     \<lparr>key_index := (key_index d)(ekey e := None), a1in := rest\<rparr>"

definition drop_am :: "Entry \<Rightarrow> Entry list \<Rightarrow> DramTier \<Rightarrow> DramTier" where
  "drop_am e rest d = d\<lparr>am_bytes_used := am_bytes_used d - length (edata e),
     key_index := (key_index d)(ekey e := None), am := rest\<rparr>"

lemma first_victim_Some:
  "first_victim stay es = Some (v, rest) \<Longrightarrow> \<exists>xs ys. es = xs @ v # ys \<and> rest = xs @ ys \<and> \<not> stay v \<and> list_all stay xs"
proof (induction es arbitrary: v rest)
  case (Cons e es)
  show ?case
  proof (cases "stay e")
    case True
    with Cons.prems obtain r where "first_victim stay es = Some (v, r)" "rest = e # r" by auto
    with Cons.IH [of v r] True show ?thesis by (metis Cons_eq_appendI list.pred_inject(2))
  next
    case False
    with Cons.prems show ?thesis by (intro exI [of _ "[]"] exI [of _ es]) auto
  qed
qed simp

lemma victim_Some:
  assumes "victim stay es = Some (v, rest)"
  obtains xs ys where "es = xs @ v # ys" "rest = xs @ ys" "\<not> stay v" "list_all stay ys"
proof -
  from assms obtain r where r: "first_victim stay (rev es) = Some (v, r)" "rest = rev r" by (auto simp: victim_def)
  from first_victim_Some [OF r(1)] obtain xs ys where "rev es = xs @ v # ys" "r = xs @ ys" "\<not> stay v" "list_all stay xs" by blast
  with r(2) show ?thesis by (intro that [of "rev ys" "rev xs"]) (auto simp: rev_eq_append_conv)
qed

lemma victim_None: "victim stay es = None \<longleftrightarrow> list_all stay es"
proof -
  have "first_victim stay xs = None \<longleftrightarrow> list_all stay xs" for xs by (induction xs) auto
  then show ?thesis by (simp add: victim_def list_all_iff)
qed

lemma victim_shorter: "victim stay es = Some (v, rest) \<Longrightarrow> length rest < length es"
  by (erule victim_Some) simp

lemma GhostInsert_sel:
  "a1in (GhostInsert k d) = a1in d" "am (GhostInsert k d) = am d" "key_index (GhostInsert k d) = key_index d"
  "a1in_bytes_used (GhostInsert k d) = a1in_bytes_used d" "am_bytes_used (GhostInsert k d) = am_bytes_used d"
  "capacity_bytes (GhostInsert k d) = capacity_bytes d" "a1in_capacity (GhostInsert k d) = a1in_capacity d"
  "a1out_max (GhostInsert k d) = a1out_max d" "registry (GhostInsert k d) = registry d"
  by (simp_all add: GhostInsert_def Let_def split: prod.splits)

function evict_a1in :: "nat \<Rightarrow> DramTier \<Rightarrow> DramTier \<times> DramKey list" where
  "evict_a1in incoming d =
     (if a1in d \<noteq> [] \<and> a1in_bytes_used d + incoming > a1in_capacity d then
        case victim (IsNotEvictable d) (a1in d) of
          None \<Rightarrow> (d, [])
        | Some (e, rest) \<Rightarrow> (case evict_a1in incoming (drop_a1in e rest d) of (d', gone) \<Rightarrow> (d', ekey e # gone))
      else (d, []))"
  by auto
termination
  by (relation "measure (\<lambda>(n, d). length (a1in d))") (auto simp: drop_a1in_def dest: victim_shorter)

text \<open>One round of the second loop: the least recently used entry of \<open>am\<close>, else one of \<open>a1in\<close>.\<close>

definition evict_one :: "DramTier \<Rightarrow> (DramKey \<times> DramTier) option" where
  "evict_one d = (case victim (IsNotEvictable d) (am d) of
     Some (e, rest) \<Rightarrow> Some (ekey e, drop_am e rest d)
   | None \<Rightarrow> (case victim (IsNotEvictable d) (a1in d) of
       Some (e, rest) \<Rightarrow> Some (ekey e, drop_a1in e rest d)
     | None \<Rightarrow> None))"

lemma evict_one_shorter:
  "evict_one d = Some (k, d') \<Longrightarrow> length (a1in d') + length (am d') < length (a1in d) + length (am d)"
  by (auto simp: evict_one_def drop_am_def drop_a1in_def GhostInsert_sel dest: victim_shorter split: option.splits)

function evict_total :: "nat \<Rightarrow> DramTier \<Rightarrow> DramTier \<times> DramKey list" where
  "evict_total incoming d =
     (if a1in_bytes_used d + am_bytes_used d + incoming > capacity_bytes d then
        case evict_one d of
          None \<Rightarrow> (d, [])
        | Some (k, d1) \<Rightarrow> (case evict_total incoming d1 of (d', gone) \<Rightarrow> (d', k # gone))
      else (d, []))"
  by auto
termination
  by (relation "measure (\<lambda>(n, d). length (a1in d) + length (am d))") (auto dest: evict_one_shorter)

declare evict_a1in.simps [simp del] evict_total.simps [simp del]

definition EvictToFit :: "nat \<Rightarrow> DramTier \<Rightarrow> DramTier \<times> DramKey list" where
  "EvictToFit incoming d = (case evict_a1in incoming d of (d1, gone1) \<Rightarrow>
     case evict_total incoming d1 of (d2, gone2) \<Rightarrow> (d2, gone1 @ gone2))"

definition replace_entry :: "DramKey \<Rightarrow> bytes \<Rightarrow> u16 \<Rightarrow> Entry list \<Rightarrow> Entry list" where
  "replace_entry k v kind es = map (\<lambda>e. if ekey e = k then e\<lparr>edata := v, state_kind := kind\<rparr> else e) es"

text \<open>\<open>Insert\<close>: the tier and the keys that were evicted, in order.\<close>

definition Insert :: "DramKey \<Rightarrow> bytes \<Rightarrow> u16 \<Rightarrow> DramTier \<Rightarrow> DramTier \<times> DramKey list" where
  "Insert key v kind d = (case resident d key of
     Some e \<Rightarrow> EvictToFit 0
       (if equeue e = A1in
        then d\<lparr>a1in_bytes_used := a1in_bytes_used d - length (edata e) + length v, a1in := replace_entry key v kind (a1in d)\<rparr>
        else d\<lparr>am_bytes_used := am_bytes_used d - length (edata e) + length v, am := replace_entry key v kind (am d)\<rparr>)
   | None \<Rightarrow>
       let ghost = key \<in> ghost_index d;
           d0 = (if ghost then d\<lparr>a1out := filter ((\<noteq>) key) (a1out d), ghost_index := ghost_index d - {key}\<rparr> else d)
       in case EvictToFit (length v) d0 of (d1, gone) \<Rightarrow>
         (if ghost
          then d1\<lparr>am := \<lparr>ekey = key, equeue = Am, edata = v, state_kind = kind\<rparr> # am d1,
                  key_index := (key_index d1)(key \<mapsto> Am), am_bytes_used := am_bytes_used d1 + length v\<rparr>
          else d1\<lparr>a1in := \<lparr>ekey = key, equeue = A1in, edata = v, state_kind = kind\<rparr> # a1in d1,
                  key_index := (key_index d1)(key \<mapsto> A1in), a1in_bytes_used := a1in_bytes_used d1 + length v\<rparr>,
          gone))"

subsection \<open>Well-formed tiers\<close>

definition bytes_in :: "Entry list \<Rightarrow> nat" where
  "bytes_in es = sum_list (map (\<lambda>e. length (edata e)) es)"

definition index_for :: "Entry list \<Rightarrow> Entry list \<Rightarrow> DramKey \<rightharpoonup> Queue" where
  "index_for xs ys k = (if k \<in> ekey ` set xs then Some A1in else if k \<in> ekey ` set ys then Some Am else None)"

definition dram_inv :: "DramTier \<Rightarrow> bool" where
  "dram_inv d \<longleftrightarrow> distinct (map ekey (a1in d @ am d) @ a1out d) \<and> ghost_index d = set (a1out d) \<and>
     key_index d = index_for (a1in d) (am d) \<and>
     (\<forall>e \<in> set (a1in d). equeue e = A1in) \<and> (\<forall>e \<in> set (am d). equeue e = Am) \<and>
     a1in_bytes_used d = bytes_in (a1in d) \<and> am_bytes_used d = bytes_in (am d) \<and> length (a1out d) \<le> a1out_max d"

text \<open>What the tier stores: the bytes and the kind of each resident key.\<close>

definition contents :: "DramTier \<Rightarrow> DramKey \<rightharpoonup> bytes \<times> u16" where
  "contents d k = map_option (\<lambda>e. (edata e, state_kind e)) (resident d k)"

lemma entry_at_None: "entry_at k es = None \<longleftrightarrow> k \<notin> ekey ` set es"
  by (induction es) auto

lemma entry_at_key: "entry_at k es = Some e \<Longrightarrow> ekey e = k \<and> e \<in> set es"
  by (induction es) (auto split: if_splits)

lemma entry_at_append: "entry_at k (xs @ ys) = (case entry_at k xs of None \<Rightarrow> entry_at k ys | Some e \<Rightarrow> Some e)"
  by (induction xs) auto

lemma entry_at_remove:
  "distinct (map ekey (xs @ v # ys)) \<Longrightarrow> entry_at k (xs @ ys) = (if k = ekey v then None else entry_at k (xs @ v # ys))"
  by (auto simp: entry_at_append entry_at_None split: option.split) (metis entry_at_key image_eqI)+

lemma without_eq: "distinct (map ekey (xs @ v # ys)) \<Longrightarrow> without (ekey v) (xs @ v # ys) = xs @ ys"
  unfolding without_def by (simp add: image_iff) (metis (mono_tags, lifting) filter_True)

lemma resident_entry: "dram_inv d \<Longrightarrow> resident d k = entry_at k (a1in d @ am d)"
  by (auto simp: dram_inv_def index_for_def resident_def queue_of_def entry_at_append entry_at_None split: option.split)
    (metis entry_at_None option.distinct(1))+

lemma bytes_in_simps [simp]:
  "bytes_in [] = 0" "bytes_in (e # es) = length (edata e) + bytes_in es" "bytes_in (xs @ ys) = bytes_in xs + bytes_in ys"
  by (simp_all add: bytes_in_def)

lemma ghost_trim_take:
  "distinct out \<Longrightarrow> n \<le> length out \<Longrightarrow> ghost_trim n out (set out) = (take (length out - n) out, set (take (length out - n) out))"
proof (induction n arbitrary: out)
  case (Suc n)
  then obtain xs x where out: "out = xs @ [x]" by (cases out rule: rev_cases) auto
  with Suc.prems have "set out - {last out} = set xs" by auto
  with Suc.IH [of xs] Suc.prems out show ?case by simp
qed simp

lemma GhostInsert_ghosts:
  assumes "distinct (key # a1out d)" and "ghost_index d = set (a1out d)"
  shows "a1out (GhostInsert key d) = take (a1out_max d) (key # a1out d)"
    and "ghost_index (GhostInsert key d) = set (a1out (GhostInsert key d))"
proof -
  let ?out = "key # a1out d"
  have "ghost_trim (length ?out - a1out_max d) ?out (set ?out) = (take (length ?out - (length ?out - a1out_max d)) ?out,
      set (take (length ?out - (length ?out - a1out_max d)) ?out))" using assms(1) by (intro ghost_trim_take) auto
  moreover have "take (length ?out - (length ?out - a1out_max d)) ?out = take (a1out_max d) ?out"
    by (cases "a1out_max d \<le> length ?out") auto
  ultimately have "ghost_trim (length ?out - a1out_max d) ?out (set ?out) = (take (a1out_max d) ?out, set (take (a1out_max d) ?out))"
    by (simp only:)
  then show "a1out (GhostInsert key d) = take (a1out_max d) ?out"
    "ghost_index (GhostInsert key d) = set (a1out (GhostInsert key d))"
    using assms(2) by (simp_all add: GhostInsert_def Let_def)
qed

text \<open>The fields that no eviction changes, and the effect of evicting the keys of a list in order.\<close>

definition same_limits :: "DramTier \<Rightarrow> DramTier \<Rightarrow> bool" where
  "same_limits d d' \<longleftrightarrow> capacity_bytes d' = capacity_bytes d \<and> a1in_capacity d' = a1in_capacity d \<and>
     a1out_max d' = a1out_max d \<and> registry d' = registry d"

definition evicted :: "DramTier \<Rightarrow> DramKey list \<Rightarrow> DramTier \<Rightarrow> bool" where
  "evicted d gone d' \<longleftrightarrow> dram_inv d' \<and> same_limits d d' \<and> distinct gone \<and> set gone \<subseteq> dom (contents d) \<and>
     contents d' = contents d |` (- set gone) \<and> ghost_index d' \<subseteq> ghost_index d \<union> set gone"

lemma contents_entry: "dram_inv d \<Longrightarrow> contents d k = map_option (\<lambda>e. (edata e, state_kind e)) (entry_at k (a1in d @ am d))"
  by (simp add: contents_def resident_entry)

lemma dom_contents: "dram_inv d \<Longrightarrow> dom (contents d) = ekey ` set (a1in d @ am d)"
  by (auto simp: contents_entry entry_at_None dom_def)

lemma evicted_refl: "dram_inv d \<Longrightarrow> evicted d [] d"
  by (simp add: evicted_def same_limits_def restrict_map_def)

lemma evicted_trans:
  assumes "evicted d g1 d1" and "evicted d1 g2 d2"
  shows "evicted d (g1 @ g2) d2"
proof -
  have "dom (contents d1) \<inter> set g1 = {}" using assms(1) by (auto simp: evicted_def)
  moreover have "dom (contents d1) \<subseteq> dom (contents d)" using assms(1) by (auto simp: evicted_def)
  moreover have "set g2 \<subseteq> dom (contents d1)" using assms(2) by (simp add: evicted_def)
  ultimately have "distinct (g1 @ g2)" "set (g1 @ g2) \<subseteq> dom (contents d)"
    using assms by (auto simp: evicted_def)
  moreover have "contents d2 = contents d |` (- set (g1 @ g2))"
    using assms by (simp add: evicted_def Int_commute)
  moreover have "ghost_index d2 \<subseteq> ghost_index d \<union> set (g1 @ g2)" using assms unfolding evicted_def by auto
  ultimately show ?thesis using assms by (simp add: evicted_def same_limits_def)
qed

lemma drop_a1in_evicted:
  assumes "dram_inv d" and "victim (IsNotEvictable d) (a1in d) = Some (e, rest)"
  shows "evicted d [ekey e] (drop_a1in e rest d)"
proof -
  from assms(2) obtain xs ys where v: "a1in d = xs @ e # ys" "rest = xs @ ys" by (rule victim_Some)
  let ?d = "d\<lparr>a1in_bytes_used := a1in_bytes_used d - length (edata e)\<rparr>"
  have g: "distinct (ekey e # a1out ?d)" "ghost_index ?d = set (a1out ?d)"
    using assms(1) v by (auto simp: dram_inv_def)
  note G = GhostInsert_ghosts [OF g]
  let ?out = "take (a1out_max d) (ekey e # a1out d)"
  have "distinct (map ekey (rest @ am d) @ ekey e # a1out d)" using assms(1) v by (auto simp: dram_inv_def)
  then have "distinct (map ekey (rest @ am d) @ ?out)"
    using set_take_subset [of "a1out_max d" "ekey e # a1out d"] unfolding distinct_append by (blast intro: distinct_take)
  moreover have "(key_index d)(ekey e := None) = index_for rest (am d)"
    using assms(1) v by (auto simp: dram_inv_def fun_eq_iff index_for_def)
  moreover have "a1in_bytes_used d - length (edata e) = bytes_in rest" "\<forall>x \<in> set rest. equeue x = A1in"
    using assms(1) v by (auto simp: dram_inv_def)
  ultimately have inv: "dram_inv (drop_a1in e rest d)"
    using assms(1) G unfolding dram_inv_def drop_a1in_def by (simp add: GhostInsert_sel del: take_Cons')
  have "distinct (map ekey (xs @ e # ys @ am d))" using assms(1) v by (auto simp: dram_inv_def)
  from entry_at_remove [OF this]
  have ent: "entry_at k (rest @ am d) = (if k = ekey e then None else entry_at k (a1in d @ am d))" for k
    by (simp only: v append_assoc append_Cons)
  have "contents (drop_a1in e rest d) k = (contents d |` (- {ekey e})) k" for k
    unfolding restrict_map_def contents_entry [OF inv] contents_entry [OF assms(1)] by (simp add: drop_a1in_def GhostInsert_sel ent)
  then have "contents (drop_a1in e rest d) = contents d |` (- {ekey e})" by (rule ext)
  moreover have "ghost_index (drop_a1in e rest d) \<subseteq> ghost_index d \<union> {ekey e}"
    using G g(2) set_take_subset [of "a1out_max d" "ekey e # a1out d"] by (auto simp: drop_a1in_def simp del: take_Cons')
  moreover have "ekey e \<in> dom (contents d)" using assms(1) v by (simp add: dom_contents)
  ultimately show ?thesis using inv by (simp add: evicted_def same_limits_def drop_a1in_def GhostInsert_sel)
qed

lemma drop_am_evicted:
  assumes "dram_inv d" and "victim (IsNotEvictable d) (am d) = Some (e, rest)"
  shows "evicted d [ekey e] (drop_am e rest d)"
proof -
  from assms(2) obtain xs ys where v: "am d = xs @ e # ys" "rest = xs @ ys" by (rule victim_Some)
  have inv: "dram_inv (drop_am e rest d)"
    using assms(1) v by (auto simp: dram_inv_def drop_am_def fun_eq_iff index_for_def)
  have "distinct (map ekey ((a1in d @ xs) @ e # ys))" using assms(1) v by (auto simp: dram_inv_def)
  from entry_at_remove [OF this]
  have ent: "entry_at k (a1in d @ rest) = (if k = ekey e then None else entry_at k (a1in d @ am d))" for k
    by (simp only: v append_assoc)
  have "contents (drop_am e rest d) k = (contents d |` (- {ekey e})) k" for k
    unfolding restrict_map_def contents_entry [OF inv] contents_entry [OF assms(1)] by (simp add: drop_am_def ent)
  then have "contents (drop_am e rest d) = contents d |` (- {ekey e})" by (rule ext)
  moreover have "ekey e \<in> dom (contents d)" using assms(1) v by (simp add: dom_contents)
  ultimately show ?thesis using inv by (simp add: evicted_def same_limits_def drop_am_def subset_insertI)
qed

lemma evict_a1in_evicted: "dram_inv d \<Longrightarrow> evict_a1in n d = (d', gone) \<Longrightarrow> evicted d gone d'"
proof (induction n d arbitrary: d' gone rule: evict_a1in.induct)
  case (1 n d)
  show ?case
  proof (cases "a1in d \<noteq> [] \<and> a1in_bytes_used d + n > a1in_capacity d")
    case True
    show ?thesis
    proof (cases "victim (IsNotEvictable d) (a1in d)")
      case None
      with 1 True show ?thesis by (simp add: evict_a1in.simps [of n d] evicted_refl)
    next
      case (Some p)
      then obtain e rest where v: "victim (IsNotEvictable d) (a1in d) = Some (e, rest)" by (cases p) auto
      then obtain g where "evict_a1in n (drop_a1in e rest d) = (d', g)" "gone = ekey e # g"
        using 1(3) True by (auto simp: evict_a1in.simps [of n d] split: prod.splits)
      with 1 True v drop_a1in_evicted [OF 1(2) v] evicted_trans [of d "[ekey e]"] show ?thesis
        by (auto simp: evicted_def [of d "[ekey e]"])
    qed
  next
    case False
    with 1 show ?thesis by (simp add: evict_a1in.simps [of n d] evicted_refl)
  qed
qed

lemma evict_one_evicted: "dram_inv d \<Longrightarrow> evict_one d = Some (k, d') \<Longrightarrow> evicted d [k] d'"
  by (auto simp: evict_one_def split: option.splits intro: drop_am_evicted drop_a1in_evicted)

text \<open>After the second loop the tier is within its capacity, or nothing that remains may be evicted.\<close>

lemma evict_total_evicted:
  "dram_inv d \<Longrightarrow> evict_total n d = (d', gone) \<Longrightarrow> evicted d gone d' \<and>
     (UsedBytes d' + n \<le> capacity_bytes d \<or> list_all (IsNotEvictable d) (a1in d' @ am d'))"
proof (induction n d arbitrary: d' gone rule: evict_total.induct)
  case (1 n d)
  show ?case
  proof (cases "a1in_bytes_used d + am_bytes_used d + n > capacity_bytes d")
    case True
    show ?thesis
    proof (cases "evict_one d")
      case None
      then have "list_all (IsNotEvictable d) (a1in d @ am d)"
        by (auto simp: evict_one_def victim_None split: option.splits)
      with 1 True None show ?thesis by (simp add: evict_total.simps [of n d] evicted_refl)
    next
      case (Some p)
      then obtain k d1 where v: "evict_one d = Some (k, d1)" by (cases p) auto
      then obtain g where g: "evict_total n d1 = (d', g)" "gone = k # g"
        using 1(3) True by (auto simp: evict_total.simps [of n d] split: prod.splits)
      note e = evict_one_evicted [OF 1(2) v]
      from e have "dram_inv d1" "capacity_bytes d1 = capacity_bytes d" "IsNotEvictable d1 = IsNotEvictable d"
        by (auto simp: evicted_def same_limits_def IsNotEvictable_def)
      with 1(1) [OF True v refl _ g(1)] evicted_trans [OF e, of g d'] g(2) show ?thesis by auto
    qed
  next
    case False
    with 1 show ?thesis by (simp add: evict_total.simps [of n d] evicted_refl UsedBytes_def)
  qed
qed

lemma EvictToFit_evicted:
  assumes "dram_inv d" and "EvictToFit n d = (d', gone)"
  shows "evicted d gone d' \<and> (UsedBytes d' + n \<le> capacity_bytes d \<or> list_all (IsNotEvictable d) (a1in d' @ am d'))"
proof -
  obtain d1 g1 where 1: "evict_a1in n d = (d1, g1)" by fastforce
  with assms(2) obtain g2 where 2: "evict_total n d1 = (d', g2)" "gone = g1 @ g2"
    by (auto simp: EvictToFit_def split: prod.splits)
  note e = evict_a1in_evicted [OF assms(1) 1]
  then have "dram_inv d1" "capacity_bytes d1 = capacity_bytes d" "IsNotEvictable d1 = IsNotEvictable d"
    by (auto simp: evicted_def same_limits_def IsNotEvictable_def)
  with evict_total_evicted [OF _ 2(1)] evicted_trans [OF e, of g2 d'] 2(2) show ?thesis by auto
qed

lemma map_ekey_replace: "map ekey (replace_entry k v kind es) = map ekey es"
  by (induction es) (auto simp: replace_entry_def)

lemma replace_entry_other: "k \<notin> ekey ` set es \<Longrightarrow> replace_entry k v kind es = es"
  by (induction es) (auto simp: replace_entry_def)

lemma entry_at_replace:
  "entry_at j (replace_entry k v kind es) =
     map_option (\<lambda>e. if j = k then e\<lparr>edata := v, state_kind := kind\<rparr> else e) (entry_at j es)"
  by (induction es) (auto simp: replace_entry_def)

lemma bytes_in_replace:
  "distinct (map ekey es) \<Longrightarrow> entry_at k es = Some e \<Longrightarrow>
     bytes_in (replace_entry k v kind es) = bytes_in es - length (edata e) + length v \<and> length (edata e) \<le> bytes_in es"
proof (induction es)
  case (Cons x es)
  show ?case
  proof (cases "ekey x = k")
    case True
    with Cons.prems have "k \<notin> ekey ` set es" "e = x" by auto
    with True replace_entry_other [of k es] show ?thesis by (simp add: replace_entry_def)
  next
    case False
    with Cons have "bytes_in (replace_entry k v kind es) = bytes_in es - length (edata e) + length v" "length (edata e) \<le> bytes_in es"
      by auto
    with False show ?thesis by (simp add: replace_entry_def)
  qed
qed simp

lemma queues_replace:
  "(\<forall>e \<in> set es. equeue e = w) \<Longrightarrow> (\<forall>e \<in> set (replace_entry k v kind es). equeue e = w)"
  by (auto simp: replace_entry_def)

lemma keys_replace: "ekey ` set (replace_entry k v kind es) = ekey ` set es"
  by (metis map_ekey_replace set_map)

text \<open>Replacing the bytes of a resident key, before the eviction that may follow.\<close>

lemma replace_resident:
  assumes "dram_inv d" and "resident d k = Some e"
    and "d1 = (if equeue e = A1in
        then d\<lparr>a1in_bytes_used := a1in_bytes_used d - length (edata e) + length v, a1in := replace_entry k v kind (a1in d)\<rparr>
        else d\<lparr>am_bytes_used := am_bytes_used d - length (edata e) + length v, am := replace_entry k v kind (am d)\<rparr>)"
  shows "dram_inv d1 \<and> same_limits d d1 \<and> contents d1 = (contents d)(k \<mapsto> (v, kind))"
proof -
  have dist: "distinct (map ekey (a1in d))" "distinct (map ekey (am d))" "ekey ` set (a1in d) \<inter> ekey ` set (am d) = {}"
    using assms(1) by (auto simp: dram_inv_def)
  have e: "entry_at k (a1in d @ am d) = Some e" using assms(2) by (simp add: resident_entry [OF assms(1)])
  have w: "if equeue e = A1in then entry_at k (a1in d) = Some e \<and> k \<notin> ekey ` set (am d)
      else entry_at k (am d) = Some e \<and> k \<notin> ekey ` set (a1in d)"
  proof (cases "entry_at k (a1in d)")
    case None
    with e have "entry_at k (am d) = Some e" by (simp add: entry_at_append)
    with entry_at_key [OF this] None assms(1) show ?thesis by (auto simp: dram_inv_def entry_at_None)
  next
    case (Some x)
    with e have "x = e" by (simp add: entry_at_append)
    with Some entry_at_key [OF Some] dist(3) assms(1) show ?thesis by (auto simp: dram_inv_def)
  qed
  have inv: "dram_inv d1"
  proof (cases "equeue e = A1in")
    case True
    with assms(1) w bytes_in_replace [OF dist(1), of k e v kind] queues_replace [of "a1in d" A1in k v kind] show ?thesis
      unfolding assms(3) by (simp add: dram_inv_def map_ekey_replace keys_replace index_for_def fun_eq_iff)
  next
    case False
    with assms(1) w bytes_in_replace [OF dist(2), of k e v kind] queues_replace [of "am d" Am k v kind] show ?thesis
      unfolding assms(3) by (simp add: dram_inv_def map_ekey_replace keys_replace index_for_def fun_eq_iff)
  qed
  have "a1in d1 @ am d1 = replace_entry k v kind (a1in d @ am d)"
    using w replace_entry_other [of k "a1in d" v kind] replace_entry_other [of k "am d" v kind]
    by (auto simp: assms(3) replace_entry_def)
  then have "contents d1 j = ((contents d)(k \<mapsto> (v, kind))) j" for j
    unfolding fun_upd_apply contents_entry [OF inv] contents_entry [OF assms(1)]
    using e by (cases "entry_at j (a1in d @ am d)") (auto simp: entry_at_replace)
  then have "contents d1 = (contents d)(k \<mapsto> (v, kind))" by (rule ext)
  with inv show ?thesis by (simp add: assms(3) same_limits_def)
qed

lemma no_victim_left: "\<forall>e. \<not> IsNotEvictable d e \<Longrightarrow> list_all (IsNotEvictable d) es \<Longrightarrow> es = []"
  by (cases es) auto

lemma contents_ghosts [simp]: "contents (d\<lparr>a1out := xs, ghost_index := g\<rparr>) = contents d"
  by (rule ext) (simp add: contents_def resident_def queue_of_def split: option.split Queue.split)

lemma forget_ghost:
  assumes "dram_inv d"
    and "d0 = (if key \<in> ghost_index d then d\<lparr>a1out := filter ((\<noteq>) key) (a1out d), ghost_index := ghost_index d - {key}\<rparr> else d)"
  shows "dram_inv d0 \<and> same_limits d d0 \<and> contents d0 = contents d \<and> key \<notin> ghost_index d0"
  using assms by (auto simp: dram_inv_def same_limits_def intro: order_trans [OF length_filter_le])

definition add_entry :: "DramKey \<Rightarrow> Queue \<Rightarrow> bytes \<Rightarrow> u16 \<Rightarrow> DramTier \<Rightarrow> DramTier" where
  "add_entry key w v kind d = (let e = \<lparr>ekey = key, equeue = w, edata = v, state_kind = kind\<rparr> in
     if w = Am then d\<lparr>am := e # am d, key_index := (key_index d)(key \<mapsto> Am), am_bytes_used := am_bytes_used d + length v\<rparr>
     else d\<lparr>a1in := e # a1in d, key_index := (key_index d)(key \<mapsto> A1in), a1in_bytes_used := a1in_bytes_used d + length v\<rparr>)"

lemma add_entry_inv:
  assumes "dram_inv d" and "key \<notin> dom (contents d)" and "key \<notin> ghost_index d"
  shows "dram_inv (add_entry key w v kind d) \<and> same_limits d (add_entry key w v kind d) \<and>
    contents (add_entry key w v kind d) = (contents d)(key \<mapsto> (v, kind)) \<and>
    UsedBytes (add_entry key w v kind d) = UsedBytes d + length v"
proof -
  have k: "key \<notin> ekey ` set (a1in d)" "key \<notin> ekey ` set (am d)" "key \<notin> set (a1out d)"
    using assms by (auto simp: dom_contents dram_inv_def)
  have inv: "dram_inv (add_entry key w v kind d)"
    using assms(1) k by (cases w) (auto simp: dram_inv_def add_entry_def Let_def index_for_def fun_eq_iff)
  have "contents (add_entry key w v kind d) j = ((contents d)(key \<mapsto> (v, kind))) j" for j
    unfolding fun_upd_apply contents_entry [OF inv] contents_entry [OF assms(1)]
    using k entry_at_None [of key "a1in d"]
    by (cases w; cases "entry_at j (a1in d)") (auto simp: add_entry_def Let_def entry_at_append)
  then have "contents (add_entry key w v kind d) = (contents d)(key \<mapsto> (v, kind))" by (rule ext)
  with inv show ?thesis by (cases w) (simp_all add: add_entry_def Let_def same_limits_def UsedBytes_def)
qed

text \<open>What \<open>Insert\<close> does to a well-formed tier.\<close>

definition inserted :: "DramKey \<Rightarrow> bytes \<Rightarrow> u16 \<Rightarrow> DramTier \<Rightarrow> DramKey list \<Rightarrow> DramTier \<Rightarrow> bool" where
  "inserted k v kind d gone d' \<longleftrightarrow> dram_inv d' \<and> same_limits d d' \<and> distinct gone \<and>
     set gone \<subseteq> insert k (dom (contents d)) \<and> contents d' = ((contents d)(k \<mapsto> (v, kind))) |` (- set gone) \<and>
     (k \<notin> dom (contents d) \<longrightarrow> k \<notin> set gone) \<and>
     ((\<forall>e. \<not> IsNotEvictable d e) \<longrightarrow> UsedBytes d' \<le> max (capacity_bytes d) (length v))"

lemma Insert_resident:
  assumes "dram_inv d" and "resident d k = Some e" and "Insert k v kind d = (d', gone)"
  shows "inserted k v kind d gone d'"
proof -
  define d1 where "d1 = (if equeue e = A1in
        then d\<lparr>a1in_bytes_used := a1in_bytes_used d - length (edata e) + length v, a1in := replace_entry k v kind (a1in d)\<rparr>
        else d\<lparr>am_bytes_used := am_bytes_used d - length (edata e) + length v, am := replace_entry k v kind (am d)\<rparr>)"
  note r = replace_resident [OF assms(1,2) d1_def]
  have "EvictToFit 0 d1 = (d', gone)" using assms(2,3) unfolding Insert_def d1_def by simp
  note e = EvictToFit_evicted [OF conjunct1 [OF r] this]
  have k: "k \<in> dom (contents d)" using assms(2) by (simp add: contents_def dom_def)
  have same: "same_limits d d'" "\<forall>x. IsNotEvictable d1 x = IsNotEvictable d x" "capacity_bytes d1 = capacity_bytes d"
    using r e by (auto simp: evicted_def same_limits_def IsNotEvictable_def)
  have "UsedBytes d' \<le> max (capacity_bytes d) (length v)" if "\<forall>x. \<not> IsNotEvictable d x"
    using e that same no_victim_left [of d1 "a1in d' @ am d'"] by (auto simp: UsedBytes_def evicted_def dram_inv_def)
  with e r k same(1) show ?thesis by (auto simp: inserted_def evicted_def)
qed

lemma Insert_new:
  assumes "dram_inv d" and "resident d k = None" and "Insert k v kind d = (d', gone)"
  shows "inserted k v kind d gone d'"
proof -
  define d0 where "d0 = (if k \<in> ghost_index d then d\<lparr>a1out := filter ((\<noteq>) k) (a1out d), ghost_index := ghost_index d - {k}\<rparr> else d)"
  note f = forget_ghost [OF assms(1) d0_def]
  obtain d1 where d1: "EvictToFit (length v) d0 = (d1, gone)"
      "d' = add_entry k (if k \<in> ghost_index d then Am else A1in) v kind d1"
    using assms(2,3) unfolding Insert_def by (auto simp: Let_def add_entry_def d0_def split: prod.splits if_splits)
  note e = EvictToFit_evicted [OF conjunct1 [OF f] d1(1)]
  have k: "k \<notin> dom (contents d)" using assms(2) by (auto simp: contents_def dom_def)
  with e f have k1: "k \<notin> set gone" "k \<notin> dom (contents d1)" "k \<notin> ghost_index d1" by (auto simp: evicted_def)
  note a = add_entry_inv [of d1, OF _ k1(2,3), of "if k \<in> ghost_index d then Am else A1in" v kind]
  have inv1: "dram_inv d1" "same_limits d d1" "\<forall>x. IsNotEvictable d0 x = IsNotEvictable d x" "capacity_bytes d0 = capacity_bytes d"
    using e f by (auto simp: evicted_def same_limits_def IsNotEvictable_def)
  have "UsedBytes d' \<le> max (capacity_bytes d) (length v)" if "\<forall>x. \<not> IsNotEvictable d x"
  proof (cases "UsedBytes d1 + length v \<le> capacity_bytes d")
    case False
    with e inv1 that no_victim_left [of d0 "a1in d1 @ am d1"] have "a1in d1 = []" "am d1 = []" by auto
    then have "UsedBytes d1 = 0" using inv1(1) by (simp add: UsedBytes_def dram_inv_def)
    with a [OF inv1(1)] d1(2) show ?thesis by simp
  qed (use a [OF inv1(1)] d1(2) in simp)
  moreover have "contents d' = ((contents d)(k \<mapsto> (v, kind))) |` (- set gone)"
    using a [OF inv1(1)] d1(2) e f k1(1) by (auto simp: evicted_def restrict_map_def fun_eq_iff)
  ultimately show ?thesis
    using a [OF inv1(1)] d1(2) e f k k1(1) inv1(2) by (auto simp: inserted_def evicted_def same_limits_def)
qed

lemma Insert_inserted: "dram_inv d \<Longrightarrow> Insert k v kind d = (d', gone) \<Longrightarrow> inserted k v kind d gone d'"
  by (cases "resident d k") (auto intro: Insert_new Insert_resident)

subsection \<open>Lookups and removals\<close>

lemma Peek_contents:
  "dram_inv d \<Longrightarrow> (case contents d k of None \<Rightarrow> Peek k d = \<lparr>where_hit = kMiss, hit_data = []\<rparr>
     | Some (v, kind) \<Rightarrow> hit_data (Peek k d) = v \<and> where_hit (Peek k d) \<in> {kA1in, kAm})"
  by (auto simp: Peek_def contents_def split: option.split)

lemma entry_at_without: "entry_at j (without k es) = (if j = k then None else entry_at j es)"
  by (induction es) (auto simp: without_def)

lemma entry_at_front: "entry_at k es = Some e \<Longrightarrow> entry_at j (e # without k es) = entry_at j es"
  using entry_at_key [of k es e] by (auto simp: entry_at_without)

lemma without_id: "k \<notin> ekey ` set es \<Longrightarrow> without k es = es"
  by (auto simp: without_def filter_id_conv)

lemma keys_without: "ekey ` set (without k es) = ekey ` set es - {k}"
  by (auto simp: without_def)

lemma distinct_without: "distinct (map ekey es) \<Longrightarrow> distinct (map ekey (without k es))"
  by (simp add: without_def distinct_map_filter)

lemma bytes_in_without:
  "distinct (map ekey es) \<Longrightarrow> entry_at k es = Some e \<Longrightarrow> bytes_in es = length (edata e) + bytes_in (without k es)"
proof (induction es)
  case (Cons x es)
  show ?case
  proof (cases "ekey x = k")
    case True
    with Cons.prems have "k \<notin> ekey ` set es" "e = x" by auto
    with True without_id [of k es] show ?thesis by (simp add: without_def)
  next
    case False
    with Cons show ?thesis by (simp add: without_def)
  qed
qed simp

text \<open>Where an entry of a well-formed tier is.\<close>

lemma resident_queue:
  assumes "dram_inv d" and "resident d k = Some e"
  shows "if equeue e = Am then entry_at k (am d) = Some e \<and> k \<notin> ekey ` set (a1in d)
    else equeue e = A1in \<and> entry_at k (a1in d) = Some e \<and> k \<notin> ekey ` set (am d)"
proof (cases "entry_at k (a1in d)")
  case None
  with assms have "entry_at k (am d) = Some e" by (simp add: resident_entry entry_at_append)
  with entry_at_key [OF this] None assms(1) show ?thesis by (auto simp: dram_inv_def entry_at_None)
next
  case (Some x)
  with assms have "x = e" by (simp add: resident_entry entry_at_append)
  with Some entry_at_key [OF Some] assms(1) show ?thesis by (auto simp: dram_inv_def)
qed

lemma dram_inv_am:
  assumes "dram_inv d" and "distinct (map ekey es)" and "ekey ` set es = ekey ` set (am d)"
    and "bytes_in es = bytes_in (am d)" and "\<forall>x \<in> set es. equeue x = Am"
  shows "dram_inv (d\<lparr>am := es\<rparr>)"
proof -
  have "index_for (a1in d) es = index_for (a1in d) (am d)" by (rule ext) (simp only: index_for_def assms(3))
  moreover have "set (map ekey es) = set (map ekey (am d))" using assms(3) by simp
  ultimately show ?thesis using assms(1,2,4,5) by (simp add: dram_inv_def)
qed

lemma Lookup_spec:
  assumes "dram_inv d" and "Lookup k d = (r, d')"
  shows "dram_inv d' \<and> same_limits d d' \<and> contents d' = contents d \<and> UsedBytes d' = UsedBytes d \<and>
    (case contents d k of None \<Rightarrow> where_hit r \<in> {kMiss, kGhost} | Some (v, kind) \<Rightarrow> hit_data r = v \<and> where_hit r \<in> {kA1in, kAm})"
proof (cases "resident d k")
  case None
  with assms show ?thesis by (auto simp: Lookup_def contents_def same_limits_def split: if_splits)
next
  case (Some e)
  note w = resident_queue [OF assms(1) Some]
  show ?thesis
  proof (cases "equeue e = Am")
    case False
    with Some assms show ?thesis by (auto simp: Lookup_def contents_def same_limits_def)
  next
    case True
    with Some assms(2) have r: "r = \<lparr>where_hit = kAm, hit_data = edata e\<rparr>" "d' = d\<lparr>am := e # without k (am d)\<rparr>"
      by (auto simp: Lookup_def)
    have am: "distinct (map ekey (am d))" "entry_at k (am d) = Some e" "ekey e = k" "e \<in> set (am d)"
      using assms(1) w True entry_at_key by (auto simp: dram_inv_def)
    have keys: "ekey ` set (e # without k (am d)) = ekey ` set (am d)" using am by (auto simp: keys_without)
    have "bytes_in (e # without k (am d)) = bytes_in (am d)" using bytes_in_without [OF am(1,2)] by simp
    moreover have "\<forall>x \<in> set (e # without k (am d)). equeue x = Am" using assms(1) am by (auto simp: dram_inv_def without_def)
    moreover have "distinct (map ekey (e # without k (am d)))" using am distinct_without [OF am(1)] by (auto simp: keys_without)
    ultimately have inv: "dram_inv d'" unfolding r(2) by (intro dram_inv_am [OF assms(1) _ keys])
    have "contents d' j = contents d j" for j
      unfolding contents_entry [OF inv] contents_entry [OF assms(1)] unfolding r
      using entry_at_front [OF am(2), of j] by (simp add: entry_at_append split: option.split)
    then have "contents d' = contents d" by (rule ext)
    with inv Some r True show ?thesis by (simp add: same_limits_def UsedBytes_def contents_def)
  qed
qed

lemma Erase_spec:
  assumes "dram_inv d" and "Erase k d = (ok, d')"
  shows "dram_inv d' \<and> same_limits d d' \<and> contents d' = (contents d)(k := None) \<and> k \<notin> ghost_index d' \<and>
    ok = (k \<in> dom (contents d) \<or> k \<in> ghost_index d)"
proof (cases "resident d k")
  case None
  note f = forget_ghost [OF assms(1) refl, of k]
  from None assms(2) have "d' = (if k \<in> ghost_index d then d\<lparr>a1out := filter ((\<noteq>) k) (a1out d), ghost_index := ghost_index d - {k}\<rparr> else d)"
    "ok = (k \<in> ghost_index d)" by (auto simp: Erase_def split: if_splits)
  moreover have "contents d k = None" using None by (simp add: contents_def)
  ultimately show ?thesis using f by (auto simp: fun_eq_iff)
next
  case (Some e)
  let ?d = "if equeue e = A1in
      then d\<lparr>a1in_bytes_used := a1in_bytes_used d - length (edata e), a1in := without k (a1in d)\<rparr>
      else d\<lparr>am_bytes_used := am_bytes_used d - length (edata e), am := without k (am d)\<rparr>"
  note w = resident_queue [OF assms(1) Some]
  from Some assms(2) have r: "ok" "d' = ?d\<lparr>key_index := (key_index d)(k := None)\<rparr>" by (auto simp: Erase_def)
  have dist: "distinct (map ekey (a1in d))" "distinct (map ekey (am d))" using assms(1) by (auto simp: dram_inv_def)
  have lists: "a1in d' = without k (a1in d)" "am d' = without k (am d)"
    using w without_id by (auto simp: r split: if_splits)
  have "a1in_bytes_used d' = bytes_in (a1in d')" "am_bytes_used d' = bytes_in (am d')"
    using w assms(1) bytes_in_without [OF dist(1), of k e] bytes_in_without [OF dist(2), of k e] lists
    by (auto simp: r dram_inv_def split: if_splits)
  moreover have "distinct (map ekey (a1in d' @ am d') @ a1out d)"
    using assms(1) distinct_without [OF dist(1), of k] distinct_without [OF dist(2), of k]
    by (auto simp: lists dram_inv_def keys_without)
  moreover have "(key_index d)(k := None) = index_for (a1in d') (am d')"
    using assms(1) by (auto simp: dram_inv_def index_for_def fun_eq_iff lists keys_without)
  moreover have "(\<forall>x \<in> set (a1in d'). equeue x = A1in) \<and> (\<forall>x \<in> set (am d'). equeue x = Am)"
    using assms(1) by (auto simp: dram_inv_def lists without_def)
  moreover have rest: "a1out d' = a1out d" "ghost_index d' = ghost_index d" "same_limits d d'" "key_index d' = (key_index d)(k := None)"
    by (auto simp: r same_limits_def)
  ultimately have inv: "dram_inv d'" using assms(1) by (simp add: dram_inv_def same_limits_def)
  have "contents d' j = ((contents d)(k := None)) j" for j
    unfolding fun_upd_apply contents_entry [OF inv] contents_entry [OF assms(1)] lists
    by (simp add: entry_at_append entry_at_without split: option.split)
  then have "contents d' = (contents d)(k := None)" by (rule ext)
  moreover have "k \<in> dom (contents d)" using Some by (auto simp: contents_def)
  ultimately show ?thesis using inv rest assms(1) r(1) by (auto simp: dram_inv_def dom_contents [OF assms(1)])
qed

text \<open>A sequence of operations on a fresh tier.\<close>

datatype dram_op = DInsert DramKey bytes u16 | DLookup DramKey | DErase DramKey

fun dram_do :: "dram_op \<Rightarrow> DramTier \<Rightarrow> DramTier" where
  "dram_do (DInsert k v kind) d = fst (Insert k v kind d)"
| "dram_do (DLookup k) d = snd (Lookup k d)"
| "dram_do (DErase k) d = snd (Erase k d)"

lemma dram_inv_new: "dram_inv (DramTier_new cap ghosts reg)"
  by (simp add: dram_inv_def DramTier_new_def index_for_def fun_eq_iff)

lemma dram_do_inv: "dram_inv d \<Longrightarrow> dram_inv (dram_do a d) \<and> same_limits d (dram_do a d)"
proof (cases a)
  case (DInsert k v kind)
  then show "dram_inv d \<Longrightarrow> ?thesis" using Insert_inserted [of d k v kind] by (cases "Insert k v kind d") (auto simp: inserted_def)
next
  case (DLookup k)
  then show "dram_inv d \<Longrightarrow> ?thesis" using Lookup_spec [of d k] by (cases "Lookup k d") auto
next
  case (DErase k)
  then show "dram_inv d \<Longrightarrow> ?thesis" using Erase_spec [of d k] by (cases "Erase k d") auto
qed

lemma dram_run_inv: "dram_inv d \<Longrightarrow> dram_inv (fold dram_do as d) \<and> same_limits d (fold dram_do as d)"
proof (induction as arbitrary: d)
  case (Cons a as)
  with dram_do_inv [of d a] Cons.IH [of "dram_do a d"] show ?case by (auto simp: same_limits_def)
qed (simp add: same_limits_def)

text \<open>The registry of the node: every kind it stores may be evicted.\<close>

definition node_registry :: ValuePolicyRegistry where
  "node_registry = [SK_KV \<mapsto> ValuePolicyKv, SK_TOOL_RESULT \<mapsto> ValuePolicyToolResult, SK_MEMORY \<mapsto> ValuePolicyPersistentWal]"

lemma node_registry_evicts: "registry d = Some node_registry \<Longrightarrow> \<not> IsNotEvictable d e"
  by (auto simp: IsNotEvictable_def node_registry_def has_policy_def split: if_splits)

text \<open>C17: The DRAM tier is well formed after every sequence of operations: no key is twice in its queues or
  both resident and a ghost, the hash indices agree with the lists, the byte counters are the sums of
  the stored sizes, and the ghost queue is within its bound. An insertion then stores the bytes under
  the key and drops exactly the keys it reports to the eviction callback, each once and each resident
  before; a key that was not resident is never among them. With the policies of the node the tier
  stays within its capacity, except that a single larger value is kept alone.\<close>

theorem DramTier_correct:
  assumes "d = fold dram_do as (DramTier_new cap ghosts (Some node_registry))" and "Insert k v kind d = (d', gone)"
  shows "dram_inv d \<and> dram_inv d' \<and> contents d' = ((contents d)(k \<mapsto> (v, kind))) |` (- set gone) \<and>
    distinct gone \<and> set gone \<subseteq> insert k (dom (contents d)) \<and> (k \<notin> dom (contents d) \<longrightarrow> k \<notin> set gone) \<and>
    UsedBytes d' \<le> max cap (length v)"
proof -
  have d: "dram_inv d" "registry d = Some node_registry" "capacity_bytes d = cap"
    using dram_run_inv [OF dram_inv_new, of as cap ghosts "Some node_registry"]
    by (auto simp: assms(1) same_limits_def DramTier_new_def)
  with Insert_inserted [OF d(1) assms(2)] node_registry_evicts [of d] show ?thesis by (simp add: inserted_def)
qed

theorem DramTier_correct_witness:
  "\<exists>d' gone. Insert [2] [7, 7, 7] SK_KV (fold dram_do [DInsert [1] [5, 6] SK_KV] (DramTier_new 4 9 (Some node_registry))) = (d', gone) \<and>
     dram_inv d' \<and> contents d' [2] = Some ([7, 7, 7], SK_KV) \<and> UsedBytes d' \<le> 4"
proof -
  let ?d = "fold dram_do [DInsert [1] [5, 6] SK_KV] (DramTier_new 4 9 (Some node_registry))"
  obtain d' gone where i: "Insert [2] [7, 7, 7] SK_KV ?d = (d', gone)" by fastforce
  obtain d1 g1 where 1: "Insert [1] [5, 6] SK_KV (DramTier_new 4 9 (Some node_registry)) = (d1, g1)" by fastforce
  have "contents (DramTier_new 4 9 (Some node_registry)) = Map.empty"
    by (rule ext) (simp add: contents_def resident_def DramTier_new_def)
  with Insert_inserted [OF dram_inv_new 1] 1 have "contents ?d [2] = None" by (simp add: inserted_def restrict_map_def)
  then have "[2] \<notin> dom (contents ?d)" by (simp only: domIff not_not)
  with DramTier_correct [OF refl i] i show ?thesis by (intro exI [of _ d'] exI [of _ gone]) (simp add: restrict_map_def)
qed

end
