(* ===== verification/Ingest.thy ===== *)
theory Ingest
  imports Prelude "HOL-Library.AList" "HOL-Library.Multiset"
begin

section \<open>Pinned slots, ingest handles, watermarks and reference counts\<close>

text \<open>
  \<open>tier/pinned_tier.cpp\<close>, \<open>ingest/mutable_buffer.cpp\<close>, \<open>ingest/watermark.cpp\<close> and \<open>prefix/refcount.h\<close>. The
  pinned tier is a region of memory cut into slots with a stack of free slot numbers; a buffer pool
  hands slots out under ingest handles with a deadline, and a sweeper takes expired slots back. The
  region is the list \<open>pool\<close> of its bytes, an address is an offset into it. The locks make every
  operation one step. Handles come from 64-bit counters that are taken to be unbounded; clocks are
  arguments.

  The lemmas show that every slot is either free or held by exactly one handle after any sequence of
  reservations, releases and sweeps.
\<close>

subsection \<open>The pinned tier\<close>

record PinnedTier =
  pool :: bytes
  slot_bytes :: nat
  slot_count :: nat
  mr_key :: u32
  free_stack :: "nat list"
  in_use :: nat

record SlotDesc =
  addr :: nat
  sbytes :: nat
  smr_key :: u32
  slot_id :: nat

datatype pinned_error = InvalidSizes | NotMultiple | MmapFailed

text \<open>\<open>Create\<close> in a build without CUDA; the mapping, zero-filled by the kernel, succeeds if \<open>mapped\<close>.\<close>

definition PinnedCreate :: "nat \<Rightarrow> nat \<Rightarrow> bool \<Rightarrow> u32 \<Rightarrow> pinned_error + PinnedTier" where
  "PinnedCreate pool_bytes slot_sz mapped key =
     (if pool_bytes = 0 \<or> slot_sz = 0 \<or> pool_bytes < slot_sz then Inl InvalidSizes
      else if pool_bytes mod slot_sz \<noteq> 0 then Inl NotMultiple
      else if \<not> mapped then Inl MmapFailed
      else let n = unat (of_nat (pool_bytes div slot_sz) :: u32) in
        Inr \<lparr>pool = replicate pool_bytes 0, slot_bytes = slot_sz, slot_count = n, mr_key = key,
              free_stack = rev [0..<n], in_use = 0\<rparr>)"

definition PinnedAcquire :: "PinnedTier \<Rightarrow> (SlotDesc \<times> PinnedTier) option" where
  "PinnedAcquire t =
     (if free_stack t = [] then None
      else let idx = last (free_stack t) in
        Some (\<lparr>addr = idx * slot_bytes t, sbytes = slot_bytes t, smr_key = mr_key t, slot_id = idx\<rparr>,
              t\<lparr>free_stack := butlast (free_stack t), in_use := in_use t + 1\<rparr>))"

definition PinnedRelease :: "nat \<Rightarrow> PinnedTier \<Rightarrow> PinnedTier" where
  "PinnedRelease i t =
     (if i = 2 ^ 32 - 1 \<or> i \<ge> slot_count t then t
      else t\<lparr>free_stack := free_stack t @ [i], in_use := in_use t - 1\<rparr>)"

subsection \<open>The buffer pool\<close>

type_synonym IngestHandle = nat

definition kInvalidIngestHandle :: IngestHandle where "kInvalidIngestHandle = 0"

text \<open>The hash map of active handles is an association list; its order stands for the iteration order.\<close>

record MutableBufferPool =
  pinned :: PinnedTier
  active :: "(IngestHandle \<times> SlotDesc \<times> nat) list"
  next_ingest :: IngestHandle
  default_ttl :: nat

definition MutableBufferPool_new :: "PinnedTier \<Rightarrow> nat \<Rightarrow> MutableBufferPool" where
  "MutableBufferPool_new t ttl = \<lparr>pinned = t, active = [], next_ingest = 1, default_ttl = ttl\<rparr>"

definition BufReserve :: "nat \<Rightarrow> nat \<Rightarrow> MutableBufferPool \<Rightarrow> IngestHandle \<times> MutableBufferPool" where
  "BufReserve now ttl b = (case PinnedAcquire (pinned b) of
     None \<Rightarrow> (kInvalidIngestHandle, b)
   | Some (slot, t) \<Rightarrow> (let h = next_ingest b; deadline = now + (if ttl \<noteq> 0 then ttl else default_ttl b) in
       (h, b\<lparr>pinned := t, next_ingest := h + 1, active := AList.update h (slot, deadline) (active b)\<rparr>)))"

definition GetSlot :: "MutableBufferPool \<Rightarrow> IngestHandle \<Rightarrow> SlotDesc option" where
  "GetSlot b h = map_option fst (map_of (active b) h)"

definition BufRelease :: "IngestHandle \<Rightarrow> MutableBufferPool \<Rightarrow> bool \<times> MutableBufferPool" where
  "BufRelease h b = (case map_of (active b) h of
     None \<Rightarrow> (False, b)
   | Some (slot, dl) \<Rightarrow>
       (True, b\<lparr>active := AList.delete h (active b), pinned := PinnedRelease (slot_id slot) (pinned b)\<rparr>))"

definition ActiveCount :: "MutableBufferPool \<Rightarrow> nat" where
  "ActiveCount b = length (active b)"

definition expired :: "nat \<Rightarrow> IngestHandle \<times> SlotDesc \<times> nat \<Rightarrow> bool" where
  "expired now e \<longleftrightarrow> snd (snd e) \<le> now"

definition SweepOnce :: "nat \<Rightarrow> MutableBufferPool \<Rightarrow> MutableBufferPool" where
  "SweepOnce now b = (let to_free = map (\<lambda>(h, slot, dl). slot_id slot) (filter (expired now) (active b)) in
     b\<lparr>active := filter (\<lambda>e. \<not> expired now e) (active b), pinned := fold PinnedRelease to_free (pinned b)\<rparr>)"

subsection \<open>Watermarks\<close>

type_synonym WatermarkTracker = "IngestHandle \<rightharpoonup> u64"

definition Track :: "IngestHandle \<Rightarrow> WatermarkTracker \<Rightarrow> WatermarkTracker" where
  "Track h w = (if w h = None then w(h \<mapsto> 0) else w)"

definition WmPublish :: "IngestHandle \<Rightarrow> u64 \<Rightarrow> WatermarkTracker \<Rightarrow> u64 \<times> WatermarkTracker" where
  "WmPublish h new_wm w = (case w h of
     None \<Rightarrow> (0, w)
   | Some cur \<Rightarrow> if new_wm > cur then (new_wm, w(h \<mapsto> new_wm)) else (cur, w))"

definition WmRead :: "WatermarkTracker \<Rightarrow> IngestHandle \<Rightarrow> u64" where
  "WmRead w h = (case w h of None \<Rightarrow> 0 | Some x \<Rightarrow> x)"

definition WmDrop :: "IngestHandle \<Rightarrow> WatermarkTracker \<Rightarrow> u64 \<times> WatermarkTracker" where
  "WmDrop h w = (case w h of None \<Rightarrow> (0, w) | Some x \<Rightarrow> (x, w(h := None)))"

subsection \<open>Reference counts\<close>

type_synonym Refcount = u32

definition RcAcquire :: "Refcount \<Rightarrow> Refcount \<times> Refcount" where
  "RcAcquire v = (v + 1, v + 1)"

text \<open>\<open>Release\<close>: the new value, and whether an underflow was reported.\<close>

definition RcRelease :: "Refcount \<Rightarrow> Refcount \<times> bool" where
  "RcRelease v = (v - 1, v = 0)"

definition TryAcquireIfNonZero :: "Refcount \<Rightarrow> bool \<times> Refcount" where
  "TryAcquireIfNonZero v = (if v \<noteq> 0 then (True, v + 1) else (False, v))"

definition RcReset :: "u32 \<Rightarrow> Refcount \<Rightarrow> Refcount" where
  "RcReset x v = x"

definition RcIsZero :: "Refcount \<Rightarrow> bool" where
  "RcIsZero v \<longleftrightarrow> v = 0"

definition TryEvict :: "Refcount \<Rightarrow> bool \<times> Refcount" where
  "TryEvict v = (if v = 1 then (True, 0) else (False, v))"

subsection \<open>No slot is lost or handed out twice\<close>

abbreviation slot_of_entry :: "IngestHandle \<times> SlotDesc \<times> nat \<Rightarrow> nat" where
  "slot_of_entry e \<equiv> slot_id (fst (snd e))"

definition slot_ok :: "PinnedTier \<Rightarrow> SlotDesc \<Rightarrow> bool" where
  "slot_ok t s \<longleftrightarrow> slot_id s < slot_count t \<and> addr s = slot_id s * slot_bytes t \<and> sbytes s = slot_bytes t"

definition pool_inv :: "MutableBufferPool \<Rightarrow> bool" where
  "pool_inv b \<longleftrightarrow> (let t = pinned b in
     distinct (free_stack t @ map slot_of_entry (active b)) \<and>
     set (free_stack t @ map slot_of_entry (active b)) = {..<slot_count t} \<and>
     in_use t = length (active b) \<and> slot_count t < 2 ^ 32 \<and> slot_count t * slot_bytes t \<le> length (pool t) \<and>
     distinct (map fst (active b)) \<and> (\<forall>e \<in> set (active b). 0 < fst e \<and> fst e < next_ingest b \<and> slot_ok t (fst (snd e))) \<and>
     0 < next_ingest b)"

lemma PinnedRelease_sel:
  "slot_count (PinnedRelease i t) = slot_count t" "slot_bytes (PinnedRelease i t) = slot_bytes t"
  "pool (PinnedRelease i t) = pool t" "mr_key (PinnedRelease i t) = mr_key t"
  by (simp_all add: PinnedRelease_def)

lemma slot_ok_cong: "slot_count t' = slot_count t \<Longrightarrow> slot_bytes t' = slot_bytes t \<Longrightarrow> slot_ok t' s = slot_ok t s"
  by (simp add: slot_ok_def)

lemma fold_PinnedRelease_sel:
  "slot_count (fold PinnedRelease is t) = slot_count t \<and> slot_bytes (fold PinnedRelease is t) = slot_bytes t \<and>
   pool (fold PinnedRelease is t) = pool t"
  by (induction "is" arbitrary: t) (simp_all add: PinnedRelease_sel)

lemma fold_PinnedRelease:
  "\<forall>i \<in> set is. i < slot_count t \<Longrightarrow> slot_count t < 2 ^ 32 \<Longrightarrow>
   free_stack (fold PinnedRelease is t) = free_stack t @ is \<and> in_use (fold PinnedRelease is t) = in_use t - length is"
  by (induction "is" arbitrary: t) (simp_all add: PinnedRelease_def)

lemma pool_inv_new:
  assumes "PinnedCreate pb sb ok key = Inr t" and "pb < 2 ^ 64"
  shows "pool_inv (MutableBufferPool_new t ttl)"
proof -
  let ?n = "unat (of_nat (pb div sb) :: u32)"
  have "?n \<le> pb div sb" by (simp add: unsigned_of_nat take_bit_nat_less_eq_self)
  then have "?n * sb \<le> pb" by (meson div_times_less_eq_dividend mult_le_mono1 order_trans)
  moreover have "?n < 2 ^ 32" using unsigned_less [of "of_nat (pb div sb) :: u32", where ?'a = nat] by simp
  ultimately show ?thesis using assms(1)
    by (auto simp: PinnedCreate_def pool_inv_def MutableBufferPool_new_def Let_def split: if_splits)
qed

lemma fresh_ingest: "pool_inv b \<Longrightarrow> next_ingest b \<notin> fst ` set (active b)"
  by (auto simp: pool_inv_def Let_def)

lemma update_fresh: "k \<notin> fst ` set al \<Longrightarrow> AList.update k v al = al @ [(k, v)]"
  by (induction al) auto

lemma BufReserve_spec:
  assumes "pool_inv b" and "BufReserve now ttl b = (h, b')"
  shows "pool_inv b' \<and> pool (pinned b') = pool (pinned b) \<and> slot_bytes (pinned b') = slot_bytes (pinned b) \<and>
    slot_count (pinned b') = slot_count (pinned b) \<and>
    (if h = kInvalidIngestHandle then free_stack (pinned b) = [] \<and> b' = b
     else h = next_ingest b \<and> (\<exists>s dl. slot_id s = last (free_stack (pinned b)) \<and> slot_ok (pinned b) s \<and>
       now \<le> dl \<and> active b' = active b @ [(h, s, dl)] \<and> next_ingest b' = h + 1))"
proof (cases "free_stack (pinned b) = []")
  case True
  with assms show ?thesis by (simp add: BufReserve_def PinnedAcquire_def)
next
  case False
  then obtain xs i where f: "free_stack (pinned b) = xs @ [i]" by (cases "free_stack (pinned b)" rule: rev_cases) auto
  let ?s = "\<lparr>addr = i * slot_bytes (pinned b), sbytes = slot_bytes (pinned b), smr_key = mr_key (pinned b), slot_id = i\<rparr>"
  let ?e = "(next_ingest b, ?s, now + (if ttl \<noteq> 0 then ttl else default_ttl b))"
  have h: "h = next_ingest b" "0 < next_ingest b" and
    b': "b' = b\<lparr>pinned := (pinned b)\<lparr>free_stack := xs, in_use := in_use (pinned b) + 1\<rparr>, next_ingest := next_ingest b + 1,
      active := active b @ [?e]\<rparr>"
    using assms f fresh_ingest [OF assms(1)]
    by (auto simp: BufReserve_def PinnedAcquire_def Let_def pool_inv_def update_fresh)
  have i: "i < slot_count (pinned b)" using assms(1) f by (auto simp: pool_inv_def Let_def)
  have "pool_inv b'" using assms(1) f fresh_ingest [OF assms(1)] i
    by (auto simp: pool_inv_def b' Let_def slot_ok_def)
  with h b' f i show ?thesis by (auto simp: kInvalidIngestHandle_def slot_ok_def)
qed

lemma delete_fresh: "h \<notin> fst ` set al \<Longrightarrow> filter (\<lambda>(k, _). h \<noteq> k) al = al"
  by (induction al) auto

lemma in_active_split: "map_of es h = Some (s, dl) \<Longrightarrow> distinct (map fst es) \<Longrightarrow>
    \<exists>xs ys. es = xs @ (h, s, dl) # ys \<and> AList.delete h es = xs @ ys"
proof -
  assume m: "map_of es h = Some (s, dl)" and d: "distinct (map fst es)"
  obtain xs ys where es: "es = xs @ (h, s, dl) # ys" using split_list [OF map_of_SomeD [OF m]] by blast
  with d have "h \<notin> fst ` set xs" "h \<notin> fst ` set ys" by auto
  then have "AList.delete h es = xs @ ys" unfolding es by (simp add: AList.delete_eq delete_fresh)
  with es show ?thesis by blast
qed

lemma BufRelease_spec:
  assumes "pool_inv b" and "BufRelease h b = (ok, b')"
  shows "pool_inv b' \<and> active b' = AList.delete h (active b) \<and> ok = (h \<in> fst ` set (active b)) \<and>
    pool (pinned b') = pool (pinned b) \<and> slot_bytes (pinned b') = slot_bytes (pinned b) \<and>
    slot_count (pinned b') = slot_count (pinned b) \<and> next_ingest b' = next_ingest b"
proof (cases "map_of (active b) h")
  case None
  with assms show ?thesis by (auto simp: BufRelease_def map_of_eq_None_iff AList.delete_eq delete_fresh)
next
  case (Some e)
  obtain s dl where e: "map_of (active b) h = Some (s, dl)" using Some by (cases e) auto
  with assms have b': "ok" "b' = b\<lparr>active := AList.delete h (active b), pinned := PinnedRelease (slot_id s) (pinned b)\<rparr>"
    by (auto simp: BufRelease_def)
  obtain xs ys where a: "active b = xs @ (h, s, dl) # ys" "AList.delete h (active b) = xs @ ys"
    using in_active_split [OF e] assms(1) by (auto simp: pool_inv_def Let_def)
  let ?i = "slot_id s" and ?t = "pinned b"
  have i: "?i < slot_count ?t" "slot_count ?t < 2 ^ 32" using assms(1) a by (auto simp: pool_inv_def Let_def slot_ok_def)
  then have t: "free_stack (PinnedRelease ?i ?t) = free_stack ?t @ [?i]" "in_use (PinnedRelease ?i ?t) = in_use ?t - 1"
    by (auto simp: PinnedRelease_def)
  have ms: "mset (free_stack ?t @ map slot_of_entry (active b)) = mset ((free_stack ?t @ [?i]) @ map slot_of_entry (xs @ ys))"
    by (simp add: a)
  have "distinct ((free_stack ?t @ [?i]) @ map slot_of_entry (xs @ ys))" "set ((free_stack ?t @ [?i]) @ map slot_of_entry (xs @ ys)) = {..<slot_count ?t}"
    using assms(1) mset_eq_imp_distinct_iff [OF ms] mset_eq_setD [OF ms] by (simp_all only: pool_inv_def Let_def)
  moreover have "distinct (map fst (xs @ ys))" "in_use ?t - 1 = length (xs @ ys)"
    "\<forall>e \<in> set (xs @ ys). 0 < fst e \<and> fst e < next_ingest b \<and> slot_ok (PinnedRelease ?i ?t) (fst (snd e))"
    using assms(1) by (auto simp: pool_inv_def Let_def a slot_ok_def PinnedRelease_sel)
  moreover have "slot_count ?t * slot_bytes ?t \<le> length (pool ?t)" "0 < next_ingest b"
    using assms(1) by (auto simp: pool_inv_def Let_def)
  ultimately have "pool_inv b'"
    using i(2) unfolding pool_inv_def Let_def b'(2) a(2) by (simp add: PinnedRelease_sel t)
  moreover have "h \<in> fst ` set (active b)" using a by simp
  ultimately show ?thesis using b' by (simp add: PinnedRelease_sel)
qed

lemma SweepOnce_spec:
  assumes "pool_inv b"
  shows "pool_inv (SweepOnce now b) \<and> active (SweepOnce now b) = filter (\<lambda>e. \<not> expired now e) (active b) \<and>
    pool (pinned (SweepOnce now b)) = pool (pinned b) \<and> slot_bytes (pinned (SweepOnce now b)) = slot_bytes (pinned b) \<and>
    slot_count (pinned (SweepOnce now b)) = slot_count (pinned b) \<and> next_ingest (SweepOnce now b) = next_ingest b"
proof -
  define G where "G = filter (expired now) (active b)"
  define K where "K = filter (\<lambda>e. \<not> expired now e) (active b)"
  let ?t = "pinned b" and ?gone = "map slot_of_entry G"
  have g: "map (\<lambda>(h, slot, dl). slot_id slot) G = ?gone" by auto
  have KG: "mset (active b) = mset G + mset K" by (simp add: G_def K_def)
  have len: "length (active b) = length G + length K" using KG by (metis size_mset size_union)
  have st: "set (active b) = set G \<union> set K" by (auto simp: G_def K_def)
  have ms: "mset (free_stack ?t @ map slot_of_entry (active b)) = mset ((free_stack ?t @ ?gone) @ map slot_of_entry K)"
    by (simp add: KG)
  have ok: "\<forall>i \<in> set ?gone. i < slot_count ?t" "slot_count ?t < 2 ^ 32"
    using assms st by (auto simp: pool_inv_def Let_def slot_ok_def)
  note f = fold_PinnedRelease [OF ok] fold_PinnedRelease_sel [of ?gone ?t]
  have b': "SweepOnce now b = b\<lparr>active := K, pinned := fold PinnedRelease ?gone ?t\<rparr>"
    by (simp add: SweepOnce_def Let_def g flip: G_def K_def)
  have "distinct ((free_stack ?t @ ?gone) @ map slot_of_entry K)" "set ((free_stack ?t @ ?gone) @ map slot_of_entry K) = {..<slot_count ?t}"
    using assms mset_eq_imp_distinct_iff [OF ms] mset_eq_setD [OF ms] by (simp_all only: pool_inv_def Let_def)
  moreover have "distinct (map fst K)" using assms by (simp add: pool_inv_def Let_def K_def distinct_map_filter)
  ultimately have "pool_inv (SweepOnce now b)"
    using assms f st len unfolding pool_inv_def Let_def b' by (simp add: slot_ok_def)
  with f show ?thesis by (simp add: b' K_def)
qed

end
