(* ===== verification/BoundedQueue.thy ===== *)
theory BoundedQueue
  imports Prelude
begin

section \<open>Bounded first-in first-out queues, and ring indices\<close>

text \<open>
  The contract that the ring buffers of the program provide: a push appends to a bounded list or is
  refused when the list is full, a pop takes the front or reports that there is none. The locale
  states it for one push and one pop; its lemma lifts it to every sequence of operations. The last
  part holds the arithmetic of ring indices: a position modulo a power of two, kept in a 64-bit
  counter that may wrap.
\<close>

subsection \<open>The specification\<close>

datatype 'e queue_op = QPush 'e | QPop
datatype 'e queue_res = Pushed bool | Popped "'e option"

fun fifo_step :: "nat \<Rightarrow> 'e queue_op \<Rightarrow> 'e list \<Rightarrow> 'e queue_res \<times> 'e list" where
  "fifo_step cap (QPush e) xs = (if length xs < cap then (Pushed True, xs @ [e]) else (Pushed False, xs))"
| "fifo_step cap QPop xs = (case xs of [] \<Rightarrow> (Popped None, []) | x # xs' \<Rightarrow> (Popped (Some x), xs'))"

fun queue_step ::
    "('e \<Rightarrow> 's \<Rightarrow> bool \<times> 's) \<Rightarrow> ('s \<Rightarrow> 'e option \<times> 's) \<Rightarrow> 'e queue_op \<Rightarrow> 's \<Rightarrow> 'e queue_res \<times> 's" where
  "queue_step push pop (QPush e) q = (case push e q of (ok, q') \<Rightarrow> (Pushed ok, q'))"
| "queue_step push pop QPop q = (case pop q of (r, q') \<Rightarrow> (Popped r, q'))"

fun steps :: "('a \<Rightarrow> 's \<Rightarrow> 'r \<times> 's) \<Rightarrow> 'a list \<Rightarrow> 's \<Rightarrow> 'r list \<times> 's" where
  "steps f [] s = ([], s)"
| "steps f (a # as) s = (case f a s of (r, s') \<Rightarrow> case steps f as s' of (rs, s'') \<Rightarrow> (r # rs, s''))"

locale bounded_queue =
  fixes inv :: "'s \<Rightarrow> bool" and items :: "'s \<Rightarrow> 'e list" and cap :: "'s \<Rightarrow> nat" and fits :: "'s \<Rightarrow> 'e \<Rightarrow> bool"
    and push :: "'e \<Rightarrow> 's \<Rightarrow> bool \<times> 's" and pop :: "'s \<Rightarrow> 'e option \<times> 's"
  assumes push_spec: "inv q \<Longrightarrow> fits q e \<Longrightarrow> push e q = (ok, q') \<Longrightarrow>
      ok = (length (items q) < cap q) \<and> items q' = (if ok then items q @ [e] else items q) \<and>
      inv q' \<and> cap q' = cap q \<and> fits q' = fits q"
    and pop_spec: "inv q \<Longrightarrow> pop q = (r, q') \<Longrightarrow>
      r = (case items q of [] \<Rightarrow> None | x # xs \<Rightarrow> Some x) \<and> items q' = tl (items q) \<and>
      inv q' \<and> cap q' = cap q \<and> fits q' = fits q"
begin

lemma step_refines:
  assumes "inv q" and "\<And>e. p = QPush e \<Longrightarrow> fits q e" and "queue_step push pop p q = (r, q')"
  shows "fifo_step (cap q) p (items q) = (r, items q') \<and> inv q' \<and> cap q' = cap q \<and> fits q' = fits q"
proof (cases p)
  case (QPush e)
  then obtain ok where "push e q = (ok, q')" "r = Pushed ok" using assms(3) by (auto split: prod.splits)
  with push_spec [of q e ok q'] assms(1,2) QPush show ?thesis by auto
next
  case QPop
  then obtain x where "pop q = (x, q')" "r = Popped x" using assms(3) by (auto split: prod.splits)
  with pop_spec [of q x q'] assms(1) QPop show ?thesis by (auto split: list.splits)
qed

lemma steps_refine:
  assumes "inv q" and "\<And>e. QPush e \<in> set ps \<Longrightarrow> fits q e" and "steps (queue_step push pop) ps q = (rs, q')"
  shows "steps (fifo_step (cap q)) ps (items q) = (rs, items q') \<and> inv q'"
  using assms
proof (induction ps arbitrary: q rs)
  case Nil
  then show ?case by simp
next
  case (Cons p ps)
  obtain r q1 where 1: "queue_step push pop p q = (r, q1)" by fastforce
  with Cons.prems(3) obtain rs1 where 2: "steps (queue_step push pop) ps q1 = (rs1, q')" "rs = r # rs1"
    by (auto split: prod.splits)
  have 3: "fifo_step (cap q) p (items q) = (r, items q1)" "inv q1" "cap q1 = cap q" "fits q1 = fits q"
    using step_refines [OF Cons.prems(1) _ 1] Cons.prems(2) by auto
  with Cons.IH [OF 3(2) _ 2(1)] Cons.prems(2) 2(2) show ?case by simp
qed

end

subsection \<open>Ring indices\<close>

text \<open>The slot of a 64-bit position in a ring of \<open>2\<^sup>k\<close> slots, computed with the mask.\<close>

lemma ring_index:
  fixes p :: u64
  assumes "k \<le> 32"
  shows "unat (p AND ucast (2 ^ k - 1 :: u32)) = unat p mod 2 ^ k"
proof -
  have "ucast (2 ^ k - 1 :: u32) = (mask k :: u64)"
    using assms by (simp add: flip: mask_eq_exp_minus_1) (rule bit_word_eqI, auto simp: bit_simps)
  then show ?thesis
    by (simp add: unsigned_take_bit_eq take_bit_nat_def flip: take_bit_eq_mask)
qed

lemma ring_index_offset:
  fixes p :: u64
  assumes "k \<le> 64" and "n < 2 ^ 64"
  shows "unat (p + of_nat n) mod 2 ^ k = (unat p + n) mod 2 ^ k"
proof -
  have "unat (p + of_nat n) = (unat p + n) mod 2 ^ 64"
    using assms(2) by (simp add: unat_word_ariths unsigned_of_nat take_bit_nat_eq_self)
  moreover have "(2 :: nat) ^ k dvd 2 ^ 64" using assms(1) by (rule le_imp_power_dvd)
  ultimately show ?thesis by (simp add: mod_mod_cancel)
qed

lemma mod_offset_inj:
  fixes a :: nat
  assumes "i < n" and "j < n" and "(a + i) mod n = (a + j) mod n"
  shows "i = j"
proof -
  have le: "i' = j'" if "i' \<le> j'" "j' < n" "(a + i') mod n = (a + j') mod n" for i' j'
  proof -
    from that have "n dvd (a + j') - (a + i')" by (metis add_le_cancel_left mod_eq_dvd_iff_nat)
    then have "n dvd j' - i'" by simp
    with that show ?thesis by (auto dest: dvd_imp_le)
  qed
  show ?thesis using le [of i j] le [of j i] assms by (cases "i \<le> j") auto
qed

end
