(* ===== verification/EventStream.thy ===== *)
theory EventStream
  imports BoundedQueue
begin

section \<open>The event stream\<close>

text \<open>
  \<open>prefix/kv_event_stream.cpp\<close>: a ring buffer per subscriber, with 64-bit head and tail counters
  masked by a 32-bit power of two, and the node-wide fan-out that stamps every event with the next
  epoch. The mutex makes \<open>Subscribe\<close>, \<open>Unsubscribe\<close>, \<open>Poll\<close> and the fan-out of \<open>Publish\<close> one step each;
  \<open>Publish\<close> takes its epoch before it locks, so it is two steps, \<open>stamp\<close> and \<open>fan_out\<close>. The clock is
  an argument.

  The lemmas show that rounding a capacity gives the least power of two that holds it, that a ring
  is a bounded queue whatever its counters are and however often they wrap, and that the stream
  refines one list per subscriber.
\<close>

subsection \<open>Events and rings\<close>

record Event =
  etype :: byte
  tier :: byte
  locator :: bytes
  epoch :: u64
  unix_nanos :: u64

text \<open>A value-initialised event, which the buffer is filled with.\<close>

definition Event_zero :: Event where
  "Event_zero = \<lparr>etype = 0, tier = 0, locator = replicate 64 0, epoch = 0, unix_nanos = 0\<rparr>"

definition Roundup :: "u32 \<Rightarrow> u32" where
  "Roundup v =
     (if v < 8 then 8
      else let v = v - 1;
        v = v OR drop_bit 1 v; v = v OR drop_bit 2 v; v = v OR drop_bit 4 v;
        v = v OR drop_bit 8 v; v = v OR drop_bit 16 v
      in v + 1)"

record SubscriberRing =
  capacity :: u32
  rmask :: u32
  buf :: "Event list"
  head :: u64
  tail :: u64
  overflow :: u64

definition SubscriberRing_new :: "u32 \<Rightarrow> SubscriberRing" where
  "SubscriberRing_new capacity_pow2 = (let c = Roundup capacity_pow2 in
     \<lparr>capacity = c, rmask = c - 1, buf = replicate (unat c) Event_zero, head = 0, tail = 0, overflow = 0\<rparr>)"

definition slot_index :: "SubscriberRing \<Rightarrow> u64 \<Rightarrow> nat" where
  "slot_index r p = unat (p AND ucast (rmask r))"

definition TryPush :: "Event \<Rightarrow> SubscriberRing \<Rightarrow> bool \<times> SubscriberRing" where
  "TryPush ev r =
     (if head r - tail r \<ge> ucast (capacity r) then (False, r\<lparr>overflow := overflow r + 1\<rparr>)
      else (True, r\<lparr>buf := (buf r)[slot_index r (head r) := ev], head := head r + 1\<rparr>))"

definition TryPop :: "SubscriberRing \<Rightarrow> Event option \<times> SubscriberRing" where
  "TryPop r =
     (if tail r = head r then (None, r)
      else (Some (buf r ! slot_index r (tail r)), r\<lparr>tail := tail r + 1\<rparr>))"

subsection \<open>The stream\<close>

type_synonym SubscriberHandle = u64

record EventStream =
  subs :: "(SubscriberHandle \<times> SubscriberRing) list"
  next_handle :: u64
  node_epoch :: u64

definition EventStream_new :: EventStream where
  "EventStream_new = \<lparr>subs = [], next_handle = 1, node_epoch = 0\<rparr>"

definition stamp :: "u64 \<Rightarrow> Event \<Rightarrow> EventStream \<Rightarrow> Event \<times> EventStream" where
  "stamp clock ev s =
     (ev\<lparr>epoch := node_epoch s + 1, unix_nanos := if unix_nanos ev = 0 then clock else unix_nanos ev\<rparr>,
      s\<lparr>node_epoch := node_epoch s + 1\<rparr>)"

definition fan_out :: "Event \<Rightarrow> EventStream \<Rightarrow> EventStream" where
  "fan_out stamped s = s\<lparr>subs := map (\<lambda>(h, r). (h, snd (TryPush stamped r))) (subs s)\<rparr>"

definition Publish :: "u64 \<Rightarrow> Event \<Rightarrow> EventStream \<Rightarrow> EventStream" where
  "Publish clock ev s = (case stamp clock ev s of (stamped, s) \<Rightarrow> fan_out stamped s)"

definition Subscribe :: "u32 \<Rightarrow> EventStream \<Rightarrow> SubscriberHandle \<times> EventStream" where
  "Subscribe cap s = (let h = next_handle s in
     (h, s\<lparr>next_handle := h + 1, subs := subs s @ [(h, SubscriberRing_new cap)]\<rparr>))"

fun erase_first :: "SubscriberHandle \<Rightarrow> (SubscriberHandle \<times> 'r) list \<Rightarrow> (SubscriberHandle \<times> 'r) list" where
  "erase_first h [] = []"
| "erase_first h ((h', r) # ss) = (if h' = h then ss else (h', r) # erase_first h ss)"

definition Unsubscribe :: "SubscriberHandle \<Rightarrow> EventStream \<Rightarrow> EventStream" where
  "Unsubscribe h s = s\<lparr>subs := erase_first h (subs s)\<rparr>"

fun poll_first ::
    "('r \<Rightarrow> 'a option \<times> 'r) \<Rightarrow> SubscriberHandle \<Rightarrow> (SubscriberHandle \<times> 'r) list \<Rightarrow> 'a option \<times> (SubscriberHandle \<times> 'r) list" where
  "poll_first pop h [] = (None, [])"
| "poll_first pop h ((h', r) # ss) =
     (if h' = h then (case pop r of (x, r') \<Rightarrow> (x, (h', r') # ss))
      else (case poll_first pop h ss of (x, ss') \<Rightarrow> (x, (h', r) # ss')))"

definition Poll :: "SubscriberHandle \<Rightarrow> EventStream \<Rightarrow> Event option \<times> EventStream" where
  "Poll h s = (case poll_first TryPop h (subs s) of (x, ss) \<Rightarrow> (x, s\<lparr>subs := ss\<rparr>))"

definition NodeEpoch :: "EventStream \<Rightarrow> u64" where
  "NodeEpoch s = node_epoch s"

subsection \<open>Rounding up to a power of two\<close>

lemma smear_step:
  fixes v w :: u32
  assumes "\<forall>n. bit v n \<longleftrightarrow> (\<exists>j < a. bit w (n + j))"
  shows "\<forall>n. bit (v OR drop_bit a v) n \<longleftrightarrow> (\<exists>j < a + a. bit w (n + j))"
proof
  fix n
  have "bit (v OR drop_bit a v) n \<longleftrightarrow> (\<exists>j < a. bit w (n + j)) \<or> (\<exists>j < a. bit w (n + a + j))"
    using assms by (simp add: bit_or_iff bit_drop_bit_eq add.commute)
  also have "\<dots> \<longleftrightarrow> (\<exists>j < a + a. bit w (n + j))"
  proof
    assume "(\<exists>j < a. bit w (n + j)) \<or> (\<exists>j < a. bit w (n + a + j))"
    then show "\<exists>j < a + a. bit w (n + j)"
      by (metis add.assoc add_strict_left_mono trans_less_add1)
  next
    assume "\<exists>j < a + a. bit w (n + j)"
    then obtain j where j: "j < a + a" "bit w (n + j)" by blast
    show "(\<exists>j < a. bit w (n + j)) \<or> (\<exists>j < a. bit w (n + a + j))"
    proof (cases "j < a")
      case False
      with j have "j - a < a" "bit w (n + a + (j - a))" by auto
      then show ?thesis by blast
    qed (use j in blast)
  qed
  finally show "bit (v OR drop_bit a v) n \<longleftrightarrow> (\<exists>j < a + a. bit w (n + j))" .
qed

lemma top_bit:
  fixes w :: u32
  assumes "w \<noteq> 0"
  obtains K where "K < 32" "bit w K" "\<forall>n. K < n \<longrightarrow> \<not> bit w n" "2 ^ K \<le> unat w" "unat w < 2 ^ Suc K"
proof -
  from assms obtain n where n: "bit w n" by (metis bit_eq_iff bit_0_eq bot_apply bot_bool_def)
  let ?P = "\<lambda>n. bit w n"
  have fin: "bit w m \<Longrightarrow> m \<le> 31" for m using bit_imp_le_length [of w m] by simp
  define K where "K = (GREATEST m. bit w m)"
  have K: "bit w K" unfolding K_def by (rule GreatestI_nat [of _ n 31]) (use n fin in auto)
  have mx: "\<forall>m. K < m \<longrightarrow> \<not> bit w m"
    using Greatest_le_nat [of ?P _ 31] fin unfolding K_def by (metis leD)
  have w: "w = take_bit (Suc K) w" by (rule bit_word_eqI) (use mx in \<open>auto simp: bit_simps not_less_eq\<close>)
  then have "unat w = unat w mod 2 ^ Suc K" by (metis take_bit_nat_def unsigned_take_bit_eq)
  then have "unat w < 2 ^ Suc K" by (metis mod_less_divisor zero_less_numeral zero_less_power)
  moreover have "2 ^ K \<le> unat w"
  proof (rule ccontr)
    assume "\<not> 2 ^ K \<le> unat w"
    then have "\<not> bit (unat w) K" by (simp add: bit_iff_odd)
    with K show False by (simp add: bit_unsigned_iff)
  qed
  ultimately show ?thesis using that [of K] K mx fin [OF K] by simp
qed


lemma smear_mask:
  fixes v w :: u32
  assumes "K < 32" and "bit w K" and "\<forall>n. K < n \<longrightarrow> \<not> bit w n"
    and "\<forall>n. bit v n \<longleftrightarrow> (\<exists>j < 32. bit w (n + j))"
  shows "v = mask (Suc K)"
proof (rule bit_word_eqI)
  fix n assume "n < LENGTH(32)"
  show "bit v n \<longleftrightarrow> bit (mask (Suc K) :: u32) n"
  proof (cases "n \<le> K")
    case True
    with assms(1,2) have "K - n < 32" "bit w (n + (K - n))" by auto
    with assms(4) True \<open>n < LENGTH(32)\<close> show ?thesis by (auto simp: bit_mask_iff)
  next
    case False
    then have "\<not> bit w (n + j)" for j using assms(3) by simp
    with assms(4) False show ?thesis by (auto simp: bit_mask_iff)
  qed
qed

lemma Roundup_power:
  "\<exists>K < 32. 2 ^ K \<le> max 7 (unat v - 1) \<and> unat v \<le> 2 ^ Suc K \<and> 2 \<le> K \<and> Roundup v = 2 ^ Suc K"
proof (cases "v < 8")
  case True
  then have "unat v < 8" by (simp add: word_less_nat_alt)
  with True show ?thesis by (intro exI [of _ 2]) (auto simp: Roundup_def)
next
  case False
  define w where "w = v - 1"
  have v: "8 \<le> unat v" using False by (simp add: word_less_nat_alt)
  then have w: "unat w = unat v - 1" using False unfolding w_def by (subst unat_sub) (auto simp: word_le_nat_alt)
  with v have "w \<noteq> 0" by auto
  from top_bit [OF this] obtain K where K: "K < 32" "bit w K" "\<forall>n. K < n \<longrightarrow> \<not> bit w n"
    "2 ^ K \<le> unat w" "unat w < 2 ^ Suc K" by blast
  have "\<forall>n. bit w n \<longleftrightarrow> (\<exists>j < 1. bit w (n + j))" by simp
  from smear_step [OF this, unfolded one_add_one] have 1: "\<forall>n. bit (w OR drop_bit 1 w) n \<longleftrightarrow> (\<exists>j < 2. bit w (n + j))" (is "\<forall>n. bit ?a n \<longleftrightarrow> _") .
  from smear_step [OF 1] have 2: "\<forall>n. bit (?a OR drop_bit 2 ?a) n \<longleftrightarrow> (\<exists>j < 4. bit w (n + j))" (is "\<forall>n. bit ?b n \<longleftrightarrow> _") by simp
  from smear_step [OF 2] have 3: "\<forall>n. bit (?b OR drop_bit 4 ?b) n \<longleftrightarrow> (\<exists>j < 8. bit w (n + j))" (is "\<forall>n. bit ?c n \<longleftrightarrow> _") by simp
  from smear_step [OF 3] have 4: "\<forall>n. bit (?c OR drop_bit 8 ?c) n \<longleftrightarrow> (\<exists>j < 16. bit w (n + j))" (is "\<forall>n. bit ?d n \<longleftrightarrow> _") by simp
  from smear_step [OF 4] have 5: "\<forall>n. bit (?d OR drop_bit 16 ?d) n \<longleftrightarrow> (\<exists>j < 32. bit w (n + j))" (is "\<forall>n. bit ?e n \<longleftrightarrow> _") by simp
  have "Roundup v = ?e + 1" using False by (simp add: Roundup_def Let_def w_def)
  also have "?e = mask (Suc K)" by (rule smear_mask [OF K(1-3) 5])
  also have "mask (Suc K) + 1 = (2 ^ Suc K :: u32)" by (simp add: mask_eq_exp_minus_1)
  finally have R: "Roundup v = 2 ^ Suc K" .
  have "2 \<le> K"
  proof (rule ccontr)
    assume "\<not> 2 \<le> K"
    then have "K = 0 \<or> K = 1" by auto
    with K(5) w v show False by auto
  qed
  with K w v R show ?thesis by (intro exI [of _ K]) auto
qed

subsection \<open>A ring is a bounded queue\<close>

definition ring_items :: "SubscriberRing \<Rightarrow> Event list" where
  "ring_items r = map (\<lambda>i. buf r ! ((unat (tail r) + i) mod length (buf r))) [0..<unat (head r - tail r)]"

definition ring_inv :: "SubscriberRing \<Rightarrow> bool" where
  "ring_inv r \<longleftrightarrow> rmask r = capacity r - 1 \<and> length (buf r) = unat (capacity r) \<and>
     unat (head r - tail r) \<le> unat (capacity r) \<and> (capacity r = 0 \<or> (\<exists>k < 32. capacity r = 2 ^ k))"

lemma unat_pow2_u32: "k < 32 \<Longrightarrow> unat (2 ^ k :: u32) = 2 ^ k"
  using unat_u32_of_nat [of "2 ^ k"] power_strict_increasing [of k 32 "2 :: nat"] by simp

lemma unat_ucast_u32: "unat (ucast (c :: u32) :: u64) = unat c"
proof -
  have "unat c < 2 ^ 64" using unsigned_less [of c, where ?'a = nat] by simp
  then show ?thesis by (simp add: unsigned_ucast_eq take_bit_nat_eq_self)
qed

lemma slot_index_mod:
  assumes "ring_inv r" and "capacity r \<noteq> 0"
  shows "slot_index r p = unat p mod length (buf r)"
proof -
  from assms obtain k where "k < 32" "capacity r = 2 ^ k" by (auto simp: ring_inv_def)
  with assms(1) ring_index [of k p] show ?thesis by (simp add: ring_inv_def slot_index_def unat_pow2_u32)
qed

lemma ring_offset:
  fixes p :: u64
  assumes "ring_inv r" and "capacity r \<noteq> 0" and "n < 2 ^ 64"
  shows "unat (p + of_nat n) mod length (buf r) = (unat p + n) mod length (buf r)"
proof -
  from assms obtain k where "k < 32" "capacity r = 2 ^ k" by (auto simp: ring_inv_def)
  with assms(1,3) ring_index_offset [of k n p] show ?thesis by (simp add: ring_inv_def unat_pow2_u32)
qed

lemma ring_full_iff:
  "ring_inv r \<Longrightarrow> (head r - tail r \<ge> ucast (capacity r)) \<longleftrightarrow> length (ring_items r) = unat (capacity r)"
  by (auto simp: ring_items_def ring_inv_def word_le_nat_alt unat_ucast_u32)

lemma unat_diff_Suc:
  fixes h t :: u64
  shows "unat (h - t) < 2 ^ 64 - 1 \<Longrightarrow> unat (h + 1 - t) = Suc (unat (h - t))"
    and "h \<noteq> t \<Longrightarrow> unat (h - (t + 1)) = unat (h - t) - 1"
proof -
  assume a: "unat (h - t) < 2 ^ 64 - 1"
  have "h + 1 - t = h - t + 1" by simp
  moreover have "unat (h - t + 1) = Suc (unat (h - t))"
    using a by (simp add: unat_word_ariths(1))
  ultimately show "unat (h + 1 - t) = Suc (unat (h - t))" by (simp only:)
next
  assume "h \<noteq> t"
  then have "h - t \<noteq> 0" by simp
  then show "unat (h - (t + 1)) = unat (h - t) - 1" by (simp add: unat_minus_one flip: diff_diff_eq)
qed

lemma ring_length: "ring_inv r \<Longrightarrow> length (ring_items r) \<le> unat (capacity r) \<and> unat (capacity r) < 2 ^ 32"
  using unsigned_less [of "capacity r", where ?'a = nat] by (simp add: ring_items_def ring_inv_def)

lemma TryPush_spec:
  assumes inv: "ring_inv r" and p: "TryPush e r = (ok, r')"
  shows "ok = (length (ring_items r) < unat (capacity r)) \<and>
    ring_items r' = (if ok then ring_items r @ [e] else ring_items r) \<and> ring_inv r' \<and>
    capacity r' = capacity r \<and> overflow r' = (if ok then overflow r else overflow r + 1)"
proof (cases "length (ring_items r) = unat (capacity r)")
  case True
  with inv have f: "head r - tail r \<ge> ucast (capacity r)" by (simp add: ring_full_iff)
  with p have "ok = False" "r' = r\<lparr>overflow := overflow r + 1\<rparr>" by (auto simp: TryPush_def)
  with True inv show ?thesis by (simp add: ring_items_def ring_inv_def)
next
  case False
  let ?n = "unat (head r - tail r)" and ?c = "length (buf r)"
  have c: "?c = unat (capacity r)" "?n < ?c" "?c < 2 ^ 32" "capacity r \<noteq> 0"
    using inv False ring_length [OF inv] by (auto simp: ring_inv_def ring_items_def)
  let ?i = "(unat (tail r) + ?n) mod ?c"
  have h: "head r = tail r + of_nat ?n" by simp
  have i: "slot_index r (head r) = ?i"
    using slot_index_mod [OF inv c(4), of "head r"] ring_offset [OF inv c(4), of ?n "tail r"] c by (simp flip: h)
  from inv False have "\<not> head r - tail r \<ge> ucast (capacity r)" by (simp add: ring_full_iff)
  with p i have r': "ok = True" "r' = r\<lparr>buf := (buf r)[?i := e], head := head r + 1\<rparr>" by (auto simp: TryPush_def)
  have n: "unat (head r + 1 - tail r) = Suc ?n" using c by (intro unat_diff_Suc(1)) simp
  have "(buf r)[?i := e] ! ((unat (tail r) + j) mod ?c) = buf r ! ((unat (tail r) + j) mod ?c)" if "j < ?n" for j
  proof -
    have "(unat (tail r) + j) mod ?c \<noteq> ?i"
      using mod_offset_inj [of j ?c ?n "unat (tail r)"] that c by auto
    then show ?thesis by simp
  qed
  moreover have "(buf r)[?i := e] ! ?i = e" using c by (intro nth_list_update_eq mod_less_divisor) simp
  ultimately have "ring_items r' = ring_items r @ [e]" by (simp add: ring_items_def r' n)
  with r' inv c n show ?thesis by (simp add: ring_inv_def ring_items_def)
qed

lemma TryPop_spec:
  assumes inv: "ring_inv r" and p: "TryPop r = (x, r')"
  shows "x = (case ring_items r of [] \<Rightarrow> None | e # es \<Rightarrow> Some e) \<and> ring_items r' = tl (ring_items r) \<and>
    ring_inv r' \<and> capacity r' = capacity r \<and> overflow r' = overflow r"
proof (cases "tail r = head r")
  case True
  then have "ring_items r = []" by (simp add: ring_items_def)
  with p True inv show ?thesis by (auto simp: TryPop_def)
next
  case False
  let ?n = "unat (head r - tail r)" and ?c = "length (buf r)"
  have "?n \<noteq> 0" using False by (auto simp: unat_eq_0)
  then obtain m where m: "?n = Suc m" by (cases ?n) auto
  have c: "?c = unat (capacity r)" "?n \<le> ?c" "capacity r \<noteq> 0"
    using inv m by (auto simp: ring_inv_def)
  from p False have r': "x = Some (buf r ! slot_index r (tail r))" "r' = r\<lparr>tail := tail r + 1\<rparr>"
    by (auto simp: TryPop_def)
  have items: "ring_items r = buf r ! (unat (tail r) mod ?c) #
      map (\<lambda>i. buf r ! ((unat (tail r) + Suc i) mod ?c)) [0..<m]"
    by (simp add: ring_items_def m upt_conv_Cons map_Suc_upt [symmetric] o_def del: upt_Suc)
  have n: "unat (head r - (tail r + 1)) = m" using unat_diff_Suc(2) [of "head r" "tail r"] False m by simp
  have "(unat (tail r + 1) + i) mod ?c = (unat (tail r) + Suc i) mod ?c" for i
    using ring_offset [OF inv c(3), of 1 "tail r"] by (simp add: mod_add_cong)
  then have "ring_items r' = map (\<lambda>i. buf r ! ((unat (tail r) + Suc i) mod ?c)) [0..<m]"
    by (simp add: ring_items_def r' n)
  with items r' slot_index_mod [OF inv c(3)] inv c m n show ?thesis by (simp add: ring_inv_def)
qed

interpretation ring: bounded_queue ring_inv ring_items "\<lambda>r. unat (capacity r)" "\<lambda>r e. True" TryPush TryPop
  by unfold_locales (drule (1) TryPush_spec, simp, drule (1) TryPop_spec, simp)

subsection \<open>The stream refines a list of events per subscriber\<close>

text \<open>A request to the stream and its answer; \<open>es_step\<close> is the code, \<open>spec_step\<close> the specification.\<close>

datatype es_op = OpPublish u64 Event | OpSubscribe u32 | OpUnsubscribe SubscriberHandle | OpPoll SubscriberHandle
datatype es_res = Silent | Handle SubscriberHandle | Polled "Event option"

fun es_step :: "es_op \<Rightarrow> EventStream \<Rightarrow> es_res \<times> EventStream" where
  "es_step (OpPublish clock ev) s = (Silent, Publish clock ev s)"
| "es_step (OpSubscribe c) s = (case Subscribe c s of (h, s') \<Rightarrow> (Handle h, s'))"
| "es_step (OpUnsubscribe h) s = (Silent, Unsubscribe h s)"
| "es_step (OpPoll h) s = (case Poll h s of (x, s') \<Rightarrow> (Polled x, s'))"

text \<open>A subscriber of the specification: its capacity, its undelivered events, and how many it lost.\<close>

type_synonym subscriber = "nat \<times> Event list \<times> u64"

record spec_stream =
  sp_subs :: "(SubscriberHandle \<times> subscriber) list"
  sp_next :: u64
  sp_epoch :: u64

fun sub_push :: "Event \<Rightarrow> subscriber \<Rightarrow> subscriber" where
  "sub_push e (c, q, lost) = (if length q < c then (c, q @ [e], lost) else (c, q, lost + 1))"

fun sub_pop :: "subscriber \<Rightarrow> Event option \<times> subscriber" where
  "sub_pop (c, q, lost) = (case q of [] \<Rightarrow> (None, (c, [], lost)) | e # q' \<Rightarrow> (Some e, (c, q', lost)))"

text \<open>The least power of two that is at least 8 and holds the request, if 32 bits can hold it.\<close>

definition least_power :: "nat \<Rightarrow> nat" where
  "least_power n = (if n \<le> 2 ^ 31 then (LEAST c. (\<exists>k. c = 2 ^ k) \<and> 8 \<le> c \<and> n \<le> c) else 0)"

fun spec_step :: "es_op \<Rightarrow> spec_stream \<Rightarrow> es_res \<times> spec_stream" where
  "spec_step (OpPublish clock ev) s =
     (let e = sp_epoch s + 1;
          ev' = ev\<lparr>epoch := e, unix_nanos := if unix_nanos ev = 0 then clock else unix_nanos ev\<rparr>
      in (Silent, s\<lparr>sp_epoch := e, sp_subs := map (apsnd (sub_push ev')) (sp_subs s)\<rparr>))"
| "spec_step (OpSubscribe c) s =
     (Handle (sp_next s),
      s\<lparr>sp_next := sp_next s + 1, sp_subs := sp_subs s @ [(sp_next s, least_power (unat c), [], 0)]\<rparr>)"
| "spec_step (OpUnsubscribe h) s = (Silent, s\<lparr>sp_subs := erase_first h (sp_subs s)\<rparr>)"
| "spec_step (OpPoll h) s = (case poll_first sub_pop h (sp_subs s) of (x, ss) \<Rightarrow> (Polled x, s\<lparr>sp_subs := ss\<rparr>))"

definition sub_of :: "SubscriberRing \<Rightarrow> subscriber" where
  "sub_of r = (unat (capacity r), ring_items r, overflow r)"

definition stream_of :: "EventStream \<Rightarrow> spec_stream" where
  "stream_of s = \<lparr>sp_subs = map (apsnd sub_of) (subs s), sp_next = next_handle s, sp_epoch = node_epoch s\<rparr>"

definition stream_inv :: "EventStream \<Rightarrow> bool" where
  "stream_inv s \<longleftrightarrow> list_all ring_inv (map snd (subs s))"

lemma Roundup_least: "unat (Roundup v) = least_power (unat v)"
proof -
  obtain K where K: "K < 32" "2 ^ K \<le> max 7 (unat v - 1)" "unat v \<le> 2 ^ Suc K" "2 \<le> K" "Roundup v = 2 ^ Suc K"
    using Roundup_power by blast
  have eight: "(8 :: nat) \<le> 2 ^ Suc K" using power_increasing [of 3 "Suc K" "2 :: nat"] K(4) by simp
  show ?thesis
  proof (cases "unat v \<le> 2 ^ 31")
    case True
    have "K \<noteq> 31"
    proof
      assume "K = 31"
      with K(2) True show False by (auto simp: max_def split: if_splits)
    qed
    with K(1) have k: "Suc K < 32" by simp
    have "2 ^ Suc K \<le> c" if "c = 2 ^ k" "8 \<le> c" "unat v \<le> c" for c k :: nat
    proof (rule ccontr)
      assume "\<not> 2 ^ Suc K \<le> c"
      then have "k \<le> K" using that(1) power_increasing [of "Suc K" k "2 :: nat"] by (cases "k \<le> K") auto
      then have "c \<le> 2 ^ K" using that(1) by simp
      with K(2) that(2,3) show False by (auto simp: max_def split: if_splits)
    qed
    then have "(LEAST c. (\<exists>k. c = 2 ^ k) \<and> 8 \<le> c \<and> unat v \<le> c) = 2 ^ Suc K"
      by (intro Least_equality conjI exI [of _ "Suc K"] refl) (use K(3) eight in auto)
    then show ?thesis unfolding least_power_def using True K(5) k unat_pow2_u32 [of "Suc K"] by simp
  next
    case False
    with K(3) have "\<not> Suc K \<le> 31" using power_increasing [of "Suc K" 31 "2 :: nat"] by linarith
    with K(1) have "K = 31" by simp
    with K(5) False show ?thesis by (simp add: least_power_def)
  qed
qed

lemma ring_inv_new: "ring_inv (SubscriberRing_new v)" "sub_of (SubscriberRing_new v) = (least_power (unat v), [], 0)"
proof -
  obtain K where K: "K < 32" "Roundup v = 2 ^ Suc K" using Roundup_power by blast
  have "Roundup v = 0 \<or> (\<exists>k < 32. Roundup v = 2 ^ k)"
  proof (cases "K = 31")
    case False
    with K(1) have "Suc K < 32" by simp
    with K(2) show ?thesis by blast
  qed (use K in simp)
  then show "ring_inv (SubscriberRing_new v)" by (auto simp: ring_inv_def SubscriberRing_new_def Let_def)
  show "sub_of (SubscriberRing_new v) = (least_power (unat v), [], 0)"
    by (simp add: sub_of_def SubscriberRing_new_def Let_def ring_items_def Roundup_least)
qed

lemma sub_push_ring: "ring_inv r \<Longrightarrow> ring_inv (snd (TryPush e r)) \<and> sub_of (snd (TryPush e r)) = sub_push e (sub_of r)"
  using TryPush_spec [of r e "fst (TryPush e r)" "snd (TryPush e r)"] by (auto simp: sub_of_def)

lemma sub_pop_ring:
  "ring_inv r \<Longrightarrow> TryPop r = (x, r') \<Longrightarrow> ring_inv r' \<and> sub_pop (sub_of r) = (x, sub_of r')"
  using TryPop_spec [of r x r'] by (auto simp: sub_of_def split: list.splits)

lemma erase_first_map: "erase_first h (map (apsnd f) ss) = map (apsnd f) (erase_first h ss)"
  by (induction h ss rule: erase_first.induct) auto

lemma set_erase_first: "set (erase_first h ss) \<subseteq> set ss"
  by (induction h ss rule: erase_first.induct) auto

lemma poll_first_ring:
  "list_all ring_inv (map snd ss) \<Longrightarrow> poll_first TryPop h ss = (x, ss') \<Longrightarrow> list_all ring_inv (map snd ss') \<and>
    poll_first sub_pop h (map (apsnd sub_of) ss) = (x, map (apsnd sub_of) ss')"
proof (induction ss arbitrary: x ss')
  case (Cons a ss)
  obtain h' r where a: "a = (h', r)" by fastforce
  show ?case
  proof (cases "h' = h")
    case True
    obtain y r' where "TryPop r = (y, r')" by fastforce
    with True a Cons.prems sub_pop_ring [of r y r'] show ?thesis by auto
  next
    case False
    obtain y ss1 where 1: "poll_first TryPop h ss = (y, ss1)" by fastforce
    with False a Cons.prems Cons.IH [of y ss1] show ?thesis by auto
  qed
qed simp

lemma fan_out_ring:
  "list_all ring_inv (map snd ss) \<Longrightarrow>
   list_all ring_inv (map snd (map (\<lambda>(h, r). (h, snd (TryPush e r))) ss)) \<and>
   map (apsnd sub_of) (map (\<lambda>(h, r). (h, snd (TryPush e r))) ss) = map (apsnd (sub_push e)) (map (apsnd sub_of) ss)"
  by (induction ss) (auto simp: sub_push_ring)

lemma es_step_refines:
  assumes "stream_inv s" and "es_step a s = (r, s')"
  shows "stream_inv s' \<and> spec_step a (stream_of s) = (r, stream_of s')"
proof (cases a)
  case (OpPublish clock ev)
  define e where "e = ev\<lparr>epoch := node_epoch s + 1, unix_nanos := if unix_nanos ev = 0 then clock else unix_nanos ev\<rparr>"
  have "s' = fan_out e (s\<lparr>node_epoch := node_epoch s + 1\<rparr>)" "r = Silent"
    using assms(2) OpPublish by (simp_all add: Publish_def stamp_def flip: e_def)
  moreover have "spec_step a (stream_of s) = (Silent, (stream_of s)\<lparr>sp_epoch := node_epoch s + 1,
      sp_subs := map (apsnd (sub_push e)) (sp_subs (stream_of s))\<rparr>)"
    unfolding OpPublish e_def by (simp only: spec_step.simps Let_def) (simp add: stream_of_def)
  ultimately show ?thesis using assms(1) fan_out_ring [of "subs s" e]
    by (simp add: stream_inv_def stream_of_def fan_out_def del: map_map)
next
  case (OpSubscribe c)
  with assms show ?thesis by (auto simp: stream_inv_def stream_of_def Subscribe_def Let_def ring_inv_new)
next
  case (OpUnsubscribe h)
  with assms set_erase_first [of h "subs s"] show ?thesis
    by (auto simp: stream_inv_def stream_of_def Unsubscribe_def erase_first_map list_all_iff)
next
  case (OpPoll h)
  with assms show ?thesis
    by (cases "poll_first TryPop h (subs s)") (auto simp: stream_inv_def stream_of_def Poll_def dest: poll_first_ring)
qed

lemma es_steps_refine:
  assumes "stream_inv s" and "steps es_step as s = (rs, s')"
  shows "stream_inv s' \<and> steps spec_step as (stream_of s) = (rs, stream_of s')"
  using assms
proof (induction as arbitrary: s rs)
  case (Cons a as)
  obtain r s1 where 1: "es_step a s = (r, s1)" by fastforce
  with Cons.prems(2) obtain rs1 where "steps es_step as s1 = (rs1, s')" "rs = r # rs1" by (auto split: prod.splits)
  with Cons.IH [of s1 rs1] es_step_refines [OF Cons.prems(1) 1] show ?case by simp
qed simp

text \<open>
  \<open>Publish\<close> takes its epoch before the lock. Two publishers that stamp in one order and fan out in the
  other deliver a decreasing pair of epochs to every subscriber with room.
\<close>

lemma publish_race:
  assumes "stamp c1 e1 s = (x1, s1)" and "stamp c2 e2 s1 = (x2, s2)" and "node_epoch s = 0"
    and "ring_inv r" and "ring_items r = []" and "subs s = [(h, r)]" and "2 \<le> unat (capacity r)"
  shows "\<exists>s3 s4. Poll h (fan_out x1 (fan_out x2 s2)) = (Some x2, s3) \<and> Poll h s3 = (Some x1, s4) \<and> epoch x1 < epoch x2"
proof -
  have e: "epoch x1 = 1" "epoch x2 = 2" "subs s2 = [(h, r)]" using assms(1,2,3,6) by (auto simp: stamp_def)
  obtain ok1 r1 where p1: "TryPush x2 r = (ok1, r1)" by fastforce
  note q1 = TryPush_spec [OF assms(4) p1]
  obtain ok2 r2 where p2: "TryPush x1 r1 = (ok2, r2)" by fastforce
  from q1 assms(5,7) have i1: "ring_items r1 = [x2]" "ring_inv r1" "capacity r1 = capacity r" by auto
  from TryPush_spec [OF i1(2) p2] i1 assms(7) have i2: "ring_items r2 = [x2, x1]" "ring_inv r2" by auto
  obtain y1 r3 where p3: "TryPop r2 = (y1, r3)" by fastforce
  from TryPop_spec [OF i2(2) p3] i2 have i3: "y1 = Some x2" "ring_items r3 = [x1]" "ring_inv r3" by auto
  obtain y2 r4 where p4: "TryPop r3 = (y2, r4)" by fastforce
  from TryPop_spec [OF i3(3) p4] i3 have "y2 = Some x1" by simp
  with e p1 p2 p3 p4 i3(1) show ?thesis by (simp add: fan_out_def Poll_def)
qed

text \<open>C18: The event stream refines one bounded list of undelivered events per subscriber. For every
  sequence of publications, subscriptions, cancellations and polls, each answer is the one the
  specification gives: a subscriber receives the events published since it subscribed in order, each
  once, stamped with consecutive epochs; an event is lost, and counted as lost, exactly when the
  subscriber's list is full; and the capacity is the least power of two that holds the request. The
  64-bit ring counters and their masks never show, however often they wrap.\<close>

theorem EventStream_refines_lists:
  "steps spec_step as (stream_of EventStream_new) =
     (fst (steps es_step as EventStream_new), stream_of (snd (steps es_step as EventStream_new)))"
  using es_steps_refine [of EventStream_new as "fst (steps es_step as EventStream_new)"]
  by (simp add: stream_inv_def EventStream_new_def)

end
