(* ===== verification/StateWal.thy ===== *)
theory StateWal
  imports StdMap ByteCodec PosixFile
begin

section \<open>The append-only ledger of irreplaceable state\<close>

text \<open>
  \<open>persist/state_wal.cpp\<close>: one file of PUT records, synced on every append and replayed into a map on
  \<open>Open\<close>. The file is its content (the descriptor is opened with \<open>O_APPEND\<close>); what the kernel answers
  is an input. Keys are the 16 bytes of a \<open>DramKey\<close>, identities the 128 bytes of a \<open>StateIdentity\<close>.
\<close>

subsection \<open>Records\<close>

definition kOpPut :: byte where "kOpPut = 1"
definition kKeyLen :: nat where "kKeyLen = 16"
definition kIdLen :: nat where "kIdLen = 128"

record state_put =
  sp_key :: bytes
  sp_id :: bytes
  sp_blob :: bytes

definition sw_body :: "state_put \<Rightarrow> bytes" where
  "sw_body r = kOpPut # sp_key r @ sp_id r @ PutU32 (of_nat (length (sp_blob r))) @ sp_blob r"

definition rec_len_wide :: "nat \<Rightarrow> nat" where
  "rec_len_wide n = 4 + 1 + kKeyLen + kIdLen + 4 + n + 4"

definition sw_encode :: "state_put \<Rightarrow> bytes" where
  "sw_encode r = PutU32 (of_nat (rec_len_wide (length (sp_blob r)))) @ sw_body r @ PutU32 (Crc32_tab (sw_body r))"

text \<open>One iteration of the replay loop: the frame, then the effect of the body; \<open>None\<close> is a \<open>break\<close>.\<close>

definition sw_frame :: "bytes \<Rightarrow> (bytes \<times> bytes) option" where
  "sw_frame c =
     (if length c < 4 then None
      else let rec_len = unat (GetU32 c) in
      if rec_len < 4 + 1 + kKeyLen + kIdLen + 4 + 4 then None
      else if length c < rec_len then None
      else let body = take (rec_len - 4 - 4) (drop 4 c) in
      if Crc32_tab body \<noteq> GetU32 (drop (rec_len - 4) c) then None
      else Some (body, drop rec_len c))"

definition sw_apply :: "bytes \<Rightarrow> (bytes, bytes) stdmap \<Rightarrow> (bytes, bytes) stdmap option" where
  "sw_apply body m =
     (if body ! 0 = kOpPut then
        let blob_len = unat (GetU32 (drop (1 + kKeyLen + kIdLen) body)) in
        if blob_len \<noteq> length body - (1 + kKeyLen + kIdLen + 4) then None
        else Some (map_put (take kKeyLen (drop 1 body)) (take blob_len (drop (1 + kKeyLen + kIdLen + 4) body)) m)
      else Some m)"

lemma sw_frame_shrinks: "sw_frame c = Some (b, rest) \<Longrightarrow> length rest < length c"
  by (auto simp: sw_frame_def Let_def split: if_splits)

function sw_replay :: "bytes \<Rightarrow> nat \<Rightarrow> (bytes, bytes) stdmap \<Rightarrow> nat \<times> (bytes, bytes) stdmap" where
  "sw_replay c off m = (case sw_frame c of
     None \<Rightarrow> (off, m)
   | Some (body, rest) \<Rightarrow> (case sw_apply body m of
       None \<Rightarrow> (off, m)
     | Some m' \<Rightarrow> sw_replay rest (off + (length c - length rest)) m'))"
  by auto

termination
  by (relation "measure (\<lambda>(c, off, m). length c)") (auto dest: sw_frame_shrinks)

declare sw_replay.simps [simp del]

subsection \<open>Opening, appending, reading\<close>

datatype open_result = Opened | NotFound | OpenFailed

text \<open>
  \<open>so_read\<close> is how many bytes the read loop collects before \<open>read\<close> returns 0 or an error
  (\<open>None\<close>: the whole file).
\<close>

record sw_env =
  so_open :: open_result
  so_read :: "nat option"
  so_truncate :: bool
  so_append :: bool

text \<open>The result is the map (\<open>None\<close> is \<open>nullptr\<close>) and the file (\<open>None\<close>: it does not exist).\<close>

definition SwOpen :: "sw_env \<Rightarrow> bytes option \<Rightarrow> (bytes, bytes) stdmap option \<times> bytes option" where
  "SwOpen e file =
     (case (so_open e, file) of
        (OpenFailed, _) \<Rightarrow> (None, file)
      | (Opened, Some f) \<Rightarrow>
          (let buf = (case so_read e of None \<Rightarrow> f | Some n \<Rightarrow> take n f) in
           case sw_replay buf 0 [] of (good_end, m) \<Rightarrow>
             if good_end < length buf \<and> \<not> so_truncate e then (None, file)
             else let f' = (if good_end < length buf then take good_end f else f) in
               if so_append e then (Some m, Some f') else (None, Some f'))
      | _ \<Rightarrow> if so_append e then (Some [], Some (case file of None \<Rightarrow> [] | Some f \<Rightarrow> f)) else (None, file))"

text \<open>\<open>Append\<close>: one \<open>write\<close>, which may store a part of the record, and one \<open>fsync\<close>.\<close>

definition SwAppend ::
    "wres \<Rightarrow> bool \<Rightarrow> state_put \<Rightarrow> (bytes, bytes) stdmap \<times> bytes \<Rightarrow> bool \<times> (bytes, bytes) stdmap \<times> bytes" where
  "SwAppend w sync r s = (case s of (m, f) \<Rightarrow>
     if 2 ^ 32 - 1 < rec_len_wide (length (sp_blob r)) then (False, m, f)
     else let rec = sw_encode r; f' = f @ (case w of Wrote k \<Rightarrow> take k rec | _ \<Rightarrow> []) in
       if w \<noteq> Wrote (length rec) then (False, m, f')
       else if \<not> sync then (False, m, f')
       else (True, map_put (sp_key r) (sp_blob r) m, f'))"

definition SwGet :: "bytes \<Rightarrow> (bytes, bytes) stdmap \<Rightarrow> bytes option" where
  "SwGet key m = map_find m key"

definition SwSize :: "(bytes, bytes) stdmap \<Rightarrow> nat" where
  "SwSize m = length m"

subsection \<open>The contract of framed logs\<close>

definition sw_fits :: "state_put \<Rightarrow> bool" where
  "sw_fits r \<longleftrightarrow> length (sp_key r) = 16 \<and> length (sp_id r) = 128 \<and> rec_len_wide (length (sp_blob r)) < 2 ^ 32"

definition sw_put :: "state_put \<Rightarrow> (bytes, bytes) stdmap \<Rightarrow> (bytes, bytes) stdmap" where
  "sw_put r m = map_put (sp_key r) (sp_blob r) m"

definition sw_log :: "bytes \<Rightarrow> nat \<Rightarrow> (bytes, bytes) stdmap \<Rightarrow> nat + nat \<times> (bytes, bytes) stdmap" where
  "sw_log c off m = Inr (sw_replay c off m)"

lemma sw_lengths:
  assumes "sw_fits r"
  shows "length (sw_body r) = rec_len_wide (length (sp_blob r)) - 8"
    "length (sw_encode r) = rec_len_wide (length (sp_blob r))"
  using assms by (simp_all add: sw_fits_def sw_body_def sw_encode_def rec_len_wide_def kKeyLen_def kIdLen_def)

lemma sw_total: "sw_fits r \<Longrightarrow> unat (GetU32 (sw_encode r @ c)) = rec_len_wide (length (sp_blob r))"
  by (simp add: sw_encode_def sw_fits_def unat_u32_of_nat)

lemma sw_frame_encode:
  assumes "sw_fits r"
  shows "sw_frame (sw_encode r @ c) = Some (sw_body r, c)"
proof -
  let ?n = "rec_len_wide (length (sp_blob r))"
  note l = sw_lengths [OF assms]
  have n: "157 \<le> ?n" by (simp add: rec_len_wide_def kKeyLen_def kIdLen_def)
  have "take (?n - 4 - 4) (drop 4 (sw_encode r @ c)) = sw_body r" using l(1) by (simp add: sw_encode_def)
  moreover have "drop (?n - 4) (sw_encode r @ c) = PutU32 (Crc32_tab (sw_body r)) @ c"
  proof -
    have "drop (?n - 4) (sw_encode r @ c) = drop (?n - 8) (drop 4 (sw_encode r @ c))"
      using n by (simp add: drop_drop del: drop_append)
    also have "drop 4 (sw_encode r @ c) = sw_body r @ PutU32 (Crc32_tab (sw_body r)) @ c"
      by (simp add: sw_encode_def)
    finally show ?thesis using l(1) by simp
  qed
  moreover have "drop ?n (sw_encode r @ c) = c" using l(2) by simp
  ultimately show ?thesis using n l(2) unfolding sw_frame_def Let_def sw_total [OF assms]
    by (simp add: kKeyLen_def kIdLen_def)
qed

lemma sw_apply_body:
  assumes "sw_fits r"
  shows "sw_apply (sw_body r) m = Some (sw_put r m)"
proof -
  from assms have k: "length (sp_key r) = 16" "length (sp_id r) = 128" and b: "length (sp_blob r) < 2 ^ 32"
    by (simp_all add: sw_fits_def rec_len_wide_def)
  let ?t = "PutU32 (of_nat (length (sp_blob r))) @ sp_blob r"
  have d: "drop 144 (sp_key r @ sp_id r @ ?t) = ?t" "drop 148 (sp_key r @ sp_id r @ ?t) = sp_blob r"
    "take 16 (sp_key r @ sp_id r @ ?t) = sp_key r"
    using k by simp_all
  with b show ?thesis
    by (simp add: sw_apply_def sw_body_def Let_def kKeyLen_def kIdLen_def sw_put_def unat_u32_of_nat k)
qed

lemma sw_frame_torn:
  assumes "sw_fits r" "length t < length (sw_encode r)" "4 \<le> k" "t = take k (sw_encode r) @ c"
  shows "sw_frame t = None"
proof -
  have "t = PutU32 (of_nat (rec_len_wide (length (sp_blob r)))) @
      take (k - 4) (sw_body r @ PutU32 (Crc32_tab (sw_body r))) @ c"
    using assms(3) by (simp add: assms(4) sw_encode_def)
  then have "unat (GetU32 t) = rec_len_wide (length (sp_blob r))"
    using assms(1) by (simp add: sw_fits_def unat_u32_of_nat)
  with assms(1,2) show ?thesis by (simp add: sw_frame_def Let_def sw_lengths)
qed

lemma sw_frame_append:
  assumes "sw_frame c = Some (b, r)"
  shows "sw_frame (c @ x) = Some (b, r @ x)"
proof -
  from assms have l: "4 \<le> length c" "8 \<le> unat (GetU32 c)" "unat (GetU32 c) \<le> length c"
    by (auto simp: sw_frame_def Let_def split: if_splits)
  have g: "GetU32 (c @ x) = GetU32 c" using l(1) by (rule GetU32_append)
  have "4 \<le> length (drop (unat (GetU32 c) - 4) c)" using l by simp
  then have "GetU32 (drop (unat (GetU32 c) - 4) (c @ x)) = GetU32 (drop (unat (GetU32 c) - 4) c)"
    by (simp add: GetU32_append)
  with assms l g show ?thesis by (auto simp: sw_frame_def Let_def split: if_splits)
qed

lemma sw_replay_stop: "sw_frame c = None \<Longrightarrow> sw_replay c off m = (off, m)"
  by (simp add: sw_replay.simps [of c])

lemma sw_replay_step:
  "sw_frame c = Some (b, r) \<Longrightarrow> sw_apply b m = Some m' \<Longrightarrow> sw_replay c off m = sw_replay r (off + (length c - length r)) m'"
  by (simp add: sw_replay.simps [of c])

lemma sw_replay_bound: "fst (sw_replay c off m) \<le> off + length c"
proof (induction c off m rule: sw_replay.induct)
  case (1 c off m)
  show ?case
  proof (cases "sw_frame c")
    case (Some res)
    then obtain b r where f: "sw_frame c = Some (b, r)" by (cases res) auto
    show ?thesis
    proof (cases "sw_apply b m")
      case (Some m')
      with "1.IH" [OF f refl Some] sw_frame_shrinks [OF f] show ?thesis by (simp add: sw_replay_step [OF f Some])
    qed (simp add: sw_replay.simps [of c] f)
  qed (simp add: sw_replay_stop)
qed

lemma sw_replay_extend:
  "sw_replay c off m = (off + length c, m') \<Longrightarrow> sw_replay (c @ x) off m = sw_replay x (off + length c) m'"
proof (induction c off m rule: sw_replay.induct)
  case (1 c off m)
  show ?case
  proof (cases "c = []")
    case True
    with "1.prems" show ?thesis by (simp add: sw_replay_stop sw_frame_def)
  next
    case False
    have "sw_frame c \<noteq> None" using "1.prems" False sw_replay_stop [of c off m] by (cases "sw_frame c") auto
    then obtain b r where f: "sw_frame c = Some (b, r)" by auto
    have "sw_apply b m \<noteq> None" using "1.prems" False f by (cases "sw_apply b m") (auto simp: sw_replay.simps [of c])
    then obtain m1 where a: "sw_apply b m = Some m1" by auto
    note lt = sw_frame_shrinks [OF f]
    let ?off = "off + (length c - length r)"
    from "1.prems" lt have "sw_replay r ?off m1 = (?off + length r, m')" by (simp add: sw_replay_step [OF f a])
    with "1.IH" [OF f refl a] have "sw_replay (r @ x) ?off m1 = sw_replay x (?off + length r) m'" by simp
    with lt show ?thesis by (simp add: sw_replay_step [OF sw_frame_append [OF f] a])
  qed
qed

interpretation swlog: framed_log sw_encode sw_fits sw_put sw_log
proof
  fix r c off m n m' x
  show "sw_fits r \<Longrightarrow> sw_log (sw_encode r @ c) off m = sw_log c (off + length (sw_encode r)) (sw_put r m)"
    by (simp add: sw_log_def sw_replay_step [OF sw_frame_encode sw_apply_body])
  show "sw_fits r \<Longrightarrow> n < length (sw_encode r) \<Longrightarrow> sw_log (take n (sw_encode r)) off m = Inr (off, m)"
    using sw_frame_torn [of r "take n (sw_encode r)" n "[]"]
    by (cases "n < 4") (simp_all add: sw_log_def sw_replay_stop sw_frame_def)
  show "sw_log [] off m = Inr (off, m)" by (simp add: sw_log_def sw_replay_stop sw_frame_def)
  show "sw_log c off m = Inr (off + length c, m') \<Longrightarrow> sw_log (c @ x) off m = sw_log x (off + length c) m'"
    by (simp add: sw_log_def sw_replay_extend)
qed

definition sw_file :: "state_put list \<Rightarrow> bytes" where
  "sw_file rs = concat (map sw_encode rs)"

fun sw_run :: "state_put list \<Rightarrow> (bytes, bytes) stdmap \<times> bytes \<Rightarrow> (bytes, bytes) stdmap \<times> bytes" where
  "sw_run [] s = s"
| "sw_run (r # rs) s = sw_run rs (snd (SwAppend (Wrote (length (sw_encode r))) True r s))"

lemma sw_run_granted: "list_all sw_fits rs \<Longrightarrow> sw_run rs (m, f) = (fold sw_put rs m, f @ sw_file rs)"
  by (induction rs arbitrary: m f)
    (simp_all add: SwAppend_def sw_fits_def sw_put_def sw_file_def Let_def)

definition sw_granted :: sw_env where
  "sw_granted = \<lparr>so_open = Opened, so_read = None, so_truncate = True, so_append = True\<rparr>"

lemma SwOpen_granted:
  "SwOpen sw_granted (Some f) = (case sw_replay f 0 [] of (good_end, m) \<Rightarrow> (Some m, Some (take good_end f)))"
  using sw_replay_bound [of f 0 "[]"] by (auto simp: SwOpen_def sw_granted_def Let_def split: prod.splits)

text \<open>A failed append leaves its bytes; a later, acknowledged append behind them is lost on the next start.\<close>

lemma StateWal_short_write_loses:
  assumes "list_all sw_fits rs" "sw_fits r1" "sw_fits r2" "4 \<le> k"
    and "k + length (sw_encode r2) < length (sw_encode r1)"
    and "SwAppend (Wrote k) True r1 (fold sw_put rs [], sw_file rs) = (ok1, s1)"
    and "SwAppend (Wrote (length (sw_encode r2))) True r2 s1 = (ok2, m2, f2)"
  shows "\<not> ok1 \<and> ok2 \<and> SwGet (sp_key r2) m2 = Some (sp_blob r2) \<and>
    SwOpen sw_granted (Some f2) = (Some (fold sw_put rs []), Some (sw_file rs))"
proof -
  let ?t = "take k (sw_encode r1) @ sw_encode r2"
  from assms(2,5,6) have 1: "\<not> ok1" "s1 = (fold sw_put rs [], sw_file rs @ take k (sw_encode r1))"
    by (auto simp: SwAppend_def sw_fits_def Let_def)
  with assms(3,7) have 2: "ok2" "m2 = sw_put r2 (fold sw_put rs [])" "f2 = sw_file rs @ ?t"
    by (auto simp: SwAppend_def sw_fits_def Let_def sw_put_def)
  have "sw_frame ?t = None" using assms(2,4,5) by (intro sw_frame_torn [of r1 _ k "sw_encode r2"]) simp_all
  then have "sw_replay f2 0 [] = (length (sw_file rs), fold sw_put rs [])"
    using swlog.replay_log_app [OF assms(1), of ?t 0 "[]"]
    by (simp add: 2(3) sw_log_def sw_file_def sw_replay_stop)
  with 1 2 show ?thesis by (simp add: SwOpen_granted SwGet_def sw_put_def)
qed

subsection \<open>Properties\<close>

definition sample_put :: state_put where
  "sample_put = \<lparr>sp_key = replicate 16 3, sp_id = replicate 128 0, sp_blob = [1, 2]\<rparr>"

lemma sample_put_fits: "list_all sw_fits [sample_put]"
  by (simp add: sw_fits_def sample_put_def rec_len_wide_def kKeyLen_def kIdLen_def)

text \<open>C25: The ledger recovers from a crash at any byte. After any sequence of acknowledged appends, if
  the file is cut anywhere, \<open>Open\<close> succeeds with the map that the first \<open>k\<close> appends build, truncates
  the file to exactly their records, and \<open>k\<close> is all of them when nothing is cut.\<close>

theorem StateWal_recovers:
  assumes "list_all sw_fits rs" and "sw_run rs ([], []) = (m, f)"
  shows "\<exists>k \<le> length rs. (length f \<le> n \<longrightarrow> k = length rs) \<and>
    SwOpen sw_granted (Some (take n f)) = (Some (fold sw_put (take k rs) []), Some (sw_file (take k rs))) \<and>
    m = fold sw_put rs []"
proof -
  from sw_run_granted [OF assms(1), of "[]" "[]"] assms(2) have mf: "m = fold sw_put rs []" "f = sw_file rs" by simp_all
  from swlog.replay_log_cut [OF assms(1), of n "[]"] obtain k where k: "k \<le> length rs"
    "length (sw_file (take k rs)) \<le> n" "k < length rs \<longrightarrow> n < length (sw_file (take (Suc k) rs))"
    "sw_replay (take n f) 0 [] = (length (sw_file (take k rs)), fold sw_put (take k rs) [])"
    by (auto simp: sw_log_def sw_file_def mf(2))
  have split: "f = sw_file (take j rs) @ sw_file (drop j rs)" for j
    by (simp add: mf(2) sw_file_def flip: concat_append map_append)
  have "k = length rs" if "length f \<le> n"
    using k(1,3) that split [of "Suc k"] by (cases "k = length rs") (auto dest: arg_cong [of f _ length])
  moreover have "take (length (sw_file (take k rs))) (take n f) = sw_file (take k rs)"
    using k(2) by (subst split [of k]) simp
  ultimately show ?thesis using k(1,4) mf(1) by (intro exI [of _ k]) (simp add: SwOpen_granted)
qed

theorem StateWal_recovers_witness:
  "\<exists>m f k. sw_run [sample_put] ([], []) = (m, f) \<and> k \<le> 1 \<and>
     SwOpen sw_granted (Some (take 9 f)) = (Some (fold sw_put (take k [sample_put]) []), Some (sw_file (take k [sample_put])))"
proof -
  obtain m f where r: "sw_run [sample_put] ([], []) = (m, f)" by fastforce
  from StateWal_recovers [OF sample_put_fits r, of 9] r show ?thesis by auto
qed

end
