(* ===== verification/HeadlessNode.thy ===== *)
theory HeadlessNode
  imports Lpm DramTier Ingest EventStream StateWal
begin

section \<open>The cache node\<close>

text \<open>
  \<open>core-abi/src/headless_node.cpp\<close>: the operations behind the C interface, composed from the components.
  A client reserves a pinned slot, writes into it, publishes how far it has written, and seals it:
  the bytes go to the DRAM tier under a key made from the locator, and a leaf with the locator is
  inserted into the prefix index. A lookup takes a reference on the leaf of the longest prefix and
  returns a handle, a fetch copies the bytes of the handle's locator. When the DRAM tier evicts
  bytes, the leaf is removed from the index unless a reader holds it; then it is queued for the sweeper.

  The model is the node without RocksDB, without the write-ahead log of the index (their theories
  treat it) and with the DRAM tier as the only tier. Leaves are allocated in a heap, \<open>leaves\<close>, and the
  index stores their addresses, as the code stores pointers. Each operation is one step: the locks
  and atomics inside it are not interleaved with other operations. Clocks, and whether a transfer
  succeeds, are arguments. An operation whose code would read outside the pinned region returns \<open>None\<close>.
\<close>

subsection \<open>State\<close>

datatype kv_status = KV_OK | KV_E_INVAL | KV_E_NOT_FOUND | KV_E_NOMEM | KV_E_INTERNAL | KV_E_TRANSPORT |
  KV_E_TIER_DOWN | KV_E_SAFETY_NET

text \<open>A locator is its 64 bytes: tenant (16), model hash (8), prefix hash (16), range, version, flags.\<close>

type_synonym kv_locator = bytes
type_synonym kv_handle = nat

record Leaf =
  lf_locator :: kv_locator
  lf_bitmap :: u32
  lf_refcount :: Refcount
  lf_bytes_total :: u64

datatype HandleState =
    IngestHandleState (hs_locator: kv_locator) (ingest_handle: IngestHandle) (hs_tenant: u64) (hs_model: u64)
  | ReadHandleState (hs_locator: kv_locator) (hs_leaf: nat) (hs_tenant: u64) (hs_model: u64)

record DeferredEvict =
  de_path :: chunk_path
  de_leaf :: nat
  de_locator :: kv_locator

record HeadlessNode =
  handles :: "kv_handle \<rightharpoonup> HandleState"
  next_kv_handle :: kv_handle
  dram :: DramTier
  buffers :: MutableBufferPool
  wm :: WatermarkTracker
  nart :: "nat ArtIndex"
  leaves :: "nat \<rightharpoonup> Leaf"
  next_leaf :: nat
  events :: EventStream
  evict_index :: "DramKey \<rightharpoonup> chunk_path"
  deferred_evicts :: "DeferredEvict list"
  state_wal :: "((bytes, bytes) stdmap \<times> bytes) option"

definition Node_new :: "DramTier \<Rightarrow> MutableBufferPool \<Rightarrow> ((bytes, bytes) stdmap \<times> bytes) option \<Rightarrow> HeadlessNode" where
  "Node_new d b w = \<lparr>handles = Map.empty, next_kv_handle = 1, dram = d, buffers = b, wm = Map.empty,
     nart = ArtIndex_new, leaves = Map.empty, next_leaf = 0, events = EventStream_new, evict_index = Map.empty,
     deferred_evicts = [], state_wal = w\<rparr>"

subsection \<open>Keys\<close>

definition loc_tenant :: "kv_locator \<Rightarrow> bytes" where "loc_tenant loc = take 16 loc"
definition loc_model :: "kv_locator \<Rightarrow> u64" where "loc_model loc = GetU64 (drop 16 loc)"
definition loc_prefix :: "kv_locator \<Rightarrow> bytes" where "loc_prefix loc = take 16 (drop 24 loc)"

definition LocatorContentKey :: "kv_locator \<Rightarrow> DramKey" where
  "LocatorContentKey loc =
     map (\<lambda>i. let b = loc_tenant loc ! i XOR loc_prefix loc ! i in
       if i < 8 then b XOR ucast (drop_bit (8 * i) (loc_model loc) AND 0xff) else b) [0..<16]"

text \<open>The identity of a state is its 128 bytes; its content hash starts at byte 16.\<close>

definition StateKeyFromIdentity :: "bytes \<Rightarrow> DramKey" where
  "StateKeyFromIdentity ident = take 16 (drop 16 ident)"

subsection \<open>Lookup and handles\<close>

definition acquire_leaf :: "nat \<Rightarrow> HeadlessNode \<Rightarrow> bool \<times> HeadlessNode" where
  "acquire_leaf l s = (case leaves s l of
     None \<Rightarrow> (False, s)
   | Some lf \<Rightarrow> (case TryAcquireIfNonZero (lf_refcount lf) of
       (False, rc) \<Rightarrow> (False, s)
     | (True, rc) \<Rightarrow> (True, s\<lparr>leaves := (leaves s)(l \<mapsto> lf\<lparr>lf_refcount := rc\<rparr>)\<rparr>)))"

definition NodeLookup ::
    "(bytes \<Rightarrow> bytes) \<Rightarrow> u64 \<Rightarrow> u64 \<Rightarrow> u32 list \<Rightarrow> HeadlessNode \<Rightarrow>
     (kv_status \<times> (kv_locator \<times> kv_handle \<times> u32) option) \<times> HeadlessNode" where
  "NodeLookup b3 tenant_hash model_hash tokens s =
     (if tokens = [] then ((KV_E_INVAL, None), s)
      else let r = LongestPrefixMatchNS b3 (nart s) tokens tenant_hash model_hash in
      case LpmOutcome.leaf r of
        None \<Rightarrow> ((KV_E_NOT_FOUND, None), s)
      | Some l \<Rightarrow>
          if matched_tokens r = 0 then ((KV_E_NOT_FOUND, None), s)
          else (case acquire_leaf l s of
            (False, s) \<Rightarrow> ((KV_E_NOT_FOUND, None), s)
          | (True, s) \<Rightarrow> (let h = next_kv_handle s; loc = lf_locator (the (leaves s l)) in
              ((KV_OK, Some (loc, h, matched_tokens r)),
               s\<lparr>next_kv_handle := h + 1,
                  handles := (handles s)(h \<mapsto> ReadHandleState loc l tenant_hash model_hash)\<rparr>))))"

definition HandleStoredBytes :: "kv_handle \<Rightarrow> HeadlessNode \<Rightarrow> kv_status \<times> u64 option" where
  "HandleStoredBytes h s = (case handles s h of
     None \<Rightarrow> (KV_E_NOT_FOUND, None)
   | Some (IngestHandleState loc ih t m) \<Rightarrow> (KV_E_INVAL, None)
   | Some (ReadHandleState loc l t m) \<Rightarrow> (KV_OK, map_option lf_bytes_total (leaves s l)))"

subsection \<open>Reserve and publish\<close>

definition NodeReserve ::
    "nat \<Rightarrow> kv_locator \<Rightarrow> nat \<Rightarrow> u64 \<Rightarrow> u64 \<Rightarrow> HeadlessNode \<Rightarrow> (kv_status \<times> (kv_handle \<times> SlotDesc) option) \<times> HeadlessNode" where
  "NodeReserve now loc n tenant_hash model_hash s =
     (if n = 0 then ((KV_E_INVAL, None), s)
      else case BufReserve now 0 (buffers s) of (ih, b) \<Rightarrow>
        let s = s\<lparr>buffers := b\<rparr> in
        if ih = kInvalidIngestHandle then ((KV_E_NOMEM, None), s)
        else let s = s\<lparr>wm := Track ih (wm s)\<rparr> in
        case GetSlot b ih of
          None \<Rightarrow> ((KV_E_INTERNAL, None), s\<lparr>buffers := snd (BufRelease ih b)\<rparr>)
        | Some slot \<Rightarrow>
            if sbytes slot < n
            then ((KV_E_NOMEM, None), s\<lparr>buffers := snd (BufRelease ih b), wm := snd (WmDrop ih (wm s))\<rparr>)
            else let h = next_kv_handle s in
              ((KV_OK, Some (h, slot\<lparr>sbytes := n\<rparr>)),
               s\<lparr>next_kv_handle := h + 1, handles := (handles s)(h \<mapsto> IngestHandleState loc ih tenant_hash model_hash)\<rparr>))"

definition NodePublish :: "kv_handle \<Rightarrow> u64 \<Rightarrow> HeadlessNode \<Rightarrow> kv_status \<times> HeadlessNode" where
  "NodePublish h watermark s = (case handles s h of
     Some (IngestHandleState loc ih t m) \<Rightarrow> (KV_OK, s\<lparr>wm := snd (WmPublish ih watermark (wm s))\<rparr>)
   | _ \<Rightarrow> (KV_E_INVAL, s))"

text \<open>The client writes through the address it was given; the node does not see it.\<close>

definition write_pool :: "nat \<Rightarrow> bytes \<Rightarrow> HeadlessNode \<Rightarrow> HeadlessNode" where
  "write_pool off v s = (let b = buffers s; t = pinned b in
     s\<lparr>buffers := b\<lparr>pinned := t\<lparr>pool := take off (pool t) @ v @ drop (off + length v) (pool t)\<rparr>\<rparr>\<rparr>)"

definition read_pool :: "PinnedTier \<Rightarrow> nat \<Rightarrow> nat \<Rightarrow> bytes option" where
  "read_pool t off n = (if off + n \<le> length (pool t) then Some (take n (drop off (pool t))) else None)"

subsection \<open>Eviction\<close>

definition node_event :: "byte \<Rightarrow> kv_locator \<Rightarrow> Event" where
  "node_event ty loc = \<lparr>etype = ty, tier = 3, locator = loc, epoch = 0, unix_nanos = 0\<rparr>"

definition NodeTryEvictNow :: "u64 \<Rightarrow> chunk_path \<Rightarrow> HeadlessNode \<Rightarrow> bool \<times> HeadlessNode" where
  "NodeTryEvictNow clock path s = (case LookupByPath (nart s) path of
     None \<Rightarrow> (False, s)
   | Some l \<Rightarrow> (let lf = the (leaves s l) in
       case TryEvict (lf_refcount lf) of
         (False, rc) \<Rightarrow> (False, s)
       | (True, rc) \<Rightarrow> (let s = s\<lparr>leaves := (leaves s)(l \<mapsto> lf\<lparr>lf_refcount := rc\<rparr>)\<rparr> in
           case Remove path (nart s) of
             (a, False) \<Rightarrow> (False, s\<lparr>nart := a\<rparr>)
           | (a, True) \<Rightarrow> (True, s\<lparr>nart := a, events := EventStream.Publish clock (node_event 2 (lf_locator lf)) (events s)\<rparr>))))"

definition OnDramEvict :: "u64 \<Rightarrow> DramKey \<Rightarrow> HeadlessNode \<Rightarrow> HeadlessNode" where
  "OnDramEvict clock key s = (case evict_index s key of
     None \<Rightarrow> s
   | Some path \<Rightarrow> (let s = s\<lparr>evict_index := (evict_index s)(key := None)\<rparr> in
       if path = [] then s
       else case NodeTryEvictNow clock path s of
         (True, s) \<Rightarrow> s
       | (False, s) \<Rightarrow> (case LookupByPath (nart s) path of
           None \<Rightarrow> s
         | Some l \<Rightarrow> s\<lparr>deferred_evicts := deferred_evicts s @
             [\<lparr>de_path = path, de_leaf = l, de_locator = lf_locator (the (leaves s l))\<rparr>]\<rparr>)))"

text \<open>\<open>StageToDram\<close>: the tier reports each evicted key to \<open>OnDramEvict\<close>, which never calls back into it.\<close>

definition StageToDram :: "u64 \<Rightarrow> DramKey \<Rightarrow> bytes \<Rightarrow> u16 \<Rightarrow> HeadlessNode \<Rightarrow> HeadlessNode" where
  "StageToDram clock key v kind s = (case DramTier.Insert key v kind (dram s) of (d, gone) \<Rightarrow>
     fold (OnDramEvict clock) gone (s\<lparr>dram := d\<rparr>))"

text \<open>One pass of the sweeper over the queue.\<close>

fun sweep_deferred :: "u64 \<Rightarrow> DeferredEvict list \<Rightarrow> HeadlessNode \<Rightarrow> DeferredEvict list \<times> HeadlessNode" where
  "sweep_deferred clock [] s = ([], s)"
| "sweep_deferred clock (e # work) s =
     (if LookupByPath (nart s) (de_path e) \<noteq> Some (de_leaf e) then sweep_deferred clock work s
      else case NodeTryEvictNow clock (de_path e) s of
        (True, s) \<Rightarrow> sweep_deferred clock work s
      | (False, s) \<Rightarrow> (case sweep_deferred clock work s of (pending, s) \<Rightarrow> (e # pending, s)))"

definition SweeperPass :: "u64 \<Rightarrow> HeadlessNode \<Rightarrow> HeadlessNode" where
  "SweeperPass clock s = (case sweep_deferred clock (deferred_evicts s) (s\<lparr>deferred_evicts := []\<rparr>) of
     (pending, s) \<Rightarrow> s\<lparr>deferred_evicts := deferred_evicts s @ pending\<rparr>)"

subsection \<open>Seal\<close>

definition drop_ingest :: "kv_handle \<Rightarrow> IngestHandle \<Rightarrow> HeadlessNode \<Rightarrow> HeadlessNode" where
  "drop_ingest h ih s = s\<lparr>wm := snd (WmDrop ih (wm s)), buffers := snd (BufRelease ih (buffers s)),
     handles := (handles s)(h := None)\<rparr>"

text \<open>The insertion of the leaf: the return code, and the node with the leaf allocated.\<close>

definition seal_insert :: "u64 \<Rightarrow> kv_locator \<Rightarrow> u64 \<Rightarrow> chunk_path \<Rightarrow> HeadlessNode \<Rightarrow> kv_status \<times> HeadlessNode" where
  "seal_insert clock loc watermark path s =
     (let l = next_leaf s;
          lf = \<lparr>lf_locator = loc, lf_bitmap = 8, lf_refcount = snd (RcAcquire 0), lf_bytes_total = watermark\<rparr>
      in case ArtIndex.Insert path l (nart s) of (a, r) \<Rightarrow>
        if r = kPathConflict then (KV_E_INTERNAL, s\<lparr>nart := a\<rparr>)
        else (KV_OK, s\<lparr>nart := a, leaves := (leaves s)(l \<mapsto> lf), next_leaf := l + 1,
          events := EventStream.Publish clock (node_event 1 loc) (events s)\<rparr>))"

definition zero_cost :: "int CostModel" where
  "zero_cost = \<lparr>fetch_cost_ms = 0, recompute_cost_ms = 0, reuse_hint = 0\<rparr>"

definition SealCommit ::
    "u64 \<Rightarrow> kv_handle \<Rightarrow> kv_locator \<Rightarrow> IngestHandle \<Rightarrow> chunk_path \<Rightarrow> HeadlessNode \<Rightarrow> (kv_status \<times> HeadlessNode) option" where
  "SealCommit clock h loc ih path s =
     (if \<not> shouldStore (the (node_registry SK_KV)) False zero_cost then Some (KV_E_SAFETY_NET, drop_ingest h ih s)
      else let watermark = WmRead (wm s) ih; key = LocatorContentKey loc;
        staged = (case GetSlot (buffers s) ih of
            None \<Rightarrow> Some s
          | Some slot \<Rightarrow> if watermark = 0 then Some s
              else map_option (\<lambda>v. StageToDram clock key v SK_KV s) (read_pool (pinned (buffers s)) (addr slot) (unat watermark)))
      in case staged of
        None \<Rightarrow> None
      | Some s \<Rightarrow> (let s = s\<lparr>evict_index := (evict_index s)(key \<mapsto> path)\<rparr> in
          case seal_insert clock loc watermark path s of (rc, s) \<Rightarrow> Some (rc, drop_ingest h ih s)))"

definition NodeSeal ::
    "(bytes \<Rightarrow> bytes) \<Rightarrow> u64 \<Rightarrow> kv_handle \<Rightarrow> u32 list \<Rightarrow> HeadlessNode \<Rightarrow> (kv_status \<times> HeadlessNode) option" where
  "NodeSeal b3 clock h tokens s = (case handles s h of
     Some (IngestHandleState loc ih t m) \<Rightarrow>
       if length tokens < kChunkTokens then Some (KV_E_INVAL, drop_ingest h ih s)
       else SealCommit clock h loc ih (ChunkifyNS b3 tokens (NamespaceFingerprint b3 t m)) s
   | _ \<Rightarrow> Some (KV_E_INVAL, s))"

definition SealByChunkPath ::
    "u64 \<Rightarrow> kv_handle \<Rightarrow> chunk_path \<Rightarrow> HeadlessNode \<Rightarrow> (kv_status \<times> HeadlessNode) option" where
  "SealByChunkPath clock h path s = (case handles s h of
     None \<Rightarrow> Some (KV_E_NOT_FOUND, s)
   | Some (ReadHandleState loc l t m) \<Rightarrow> Some (KV_E_INVAL, s)
   | Some (IngestHandleState loc ih t m) \<Rightarrow> SealCommit clock h loc ih path s)"

subsection \<open>Fetch, replica reads, release\<close>

datatype FetchHit = HitDram | HitMiss

definition TierFetch :: "DramKey \<Rightarrow> HeadlessNode \<Rightarrow> (FetchHit \<times> bytes) \<times> HeadlessNode" where
  "TierFetch key s = (case DramTier.Lookup key (dram s) of (r, d) \<Rightarrow>
     ((if where_hit r \<in> {kA1in, kAm} then (HitDram, hit_data r) else (HitMiss, [])), s\<lparr>dram := d\<rparr>))"

text \<open>
  \<open>Fetch\<close>: the destination has \<open>dst_len\<close> bytes; \<open>src_mr\<close>, \<open>dst_mr\<close> and \<open>xfer\<close> say whether the registrations
  and the transfer succeed. The result carries the bytes that reach the destination.
\<close>

definition NodeFetch ::
    "kv_handle \<Rightarrow> nat \<Rightarrow> bool \<Rightarrow> bool \<Rightarrow> bool \<Rightarrow> HeadlessNode \<Rightarrow> (kv_status \<times> bytes option) \<times> HeadlessNode" where
  "NodeFetch h dst_len src_mr dst_mr xfer s = (case handles s h of
     Some (ReadHandleState loc l t m) \<Rightarrow> (case TierFetch (LocatorContentKey loc) s of
       ((HitMiss, v), s) \<Rightarrow> ((KV_E_NOT_FOUND, None), s)
     | ((HitDram, v), s) \<Rightarrow>
         if dst_len < length v then ((KV_E_NOMEM, None), s)
         else if \<not> src_mr \<or> \<not> dst_mr \<or> \<not> xfer then ((KV_E_TRANSPORT, None), s)
         else ((KV_OK, Some v), s))
   | _ \<Rightarrow> ((KV_E_INVAL, None), s))"

definition ReplicaFetch :: "kv_locator \<Rightarrow> HeadlessNode \<Rightarrow> kv_status \<times> (chunk_path \<times> bytes) option" where
  "ReplicaFetch loc s = (let key = LocatorContentKey loc in
     case evict_index s key of
       None \<Rightarrow> (KV_E_NOT_FOUND, None)
     | Some path \<Rightarrow> (let p = Peek key (dram s) in
         if where_hit p \<in> {kMiss, kGhost} then (KV_E_NOT_FOUND, None) else (KV_OK, Some (path, hit_data p))))"

definition NodeRelease :: "kv_handle \<Rightarrow> HeadlessNode \<Rightarrow> kv_status \<times> HeadlessNode" where
  "NodeRelease h s = (case handles s h of
     None \<Rightarrow> (KV_E_INVAL, s)
   | Some (IngestHandleState loc ih t m) \<Rightarrow> (KV_OK, drop_ingest h ih s)
   | Some (ReadHandleState loc l t m) \<Rightarrow> (let s = s\<lparr>handles := (handles s)(h := None)\<rparr> in
       (KV_OK, (case leaves s l of
          None \<Rightarrow> s
        | Some lf \<Rightarrow> s\<lparr>leaves := (leaves s)(l \<mapsto> lf\<lparr>lf_refcount := fst (RcRelease (lf_refcount lf))\<rparr>)\<rparr>))))"

text \<open>The sweeper of the buffer pool, which runs beside the node.\<close>

definition NodeSweepBuffers :: "nat \<Rightarrow> HeadlessNode \<Rightarrow> HeadlessNode" where
  "NodeSweepBuffers now s = s\<lparr>buffers := SweepOnce now (buffers s)\<rparr>"

subsection \<open>The state plane\<close>

definition StatePut ::
    "wres \<Rightarrow> bool \<Rightarrow> u64 \<Rightarrow> bytes \<Rightarrow> bytes \<Rightarrow> HeadlessNode \<Rightarrow> kv_status \<times> HeadlessNode" where
  "StatePut w sync clock ident v s = (case state_wal s of
     None \<Rightarrow> (KV_E_TIER_DOWN, s)
   | Some wl \<Rightarrow> (let key = StateKeyFromIdentity ident in
       case SwAppend w sync \<lparr>sp_key = key, sp_id = ident, sp_blob = v\<rparr> wl of (ok, wl') \<Rightarrow>
         let s = s\<lparr>state_wal := Some wl'\<rparr> in
         if \<not> ok then (KV_E_INTERNAL, s) else (KV_OK, StageToDram clock key v SK_MEMORY s)))"

definition StateGet :: "u64 \<Rightarrow> bytes \<Rightarrow> HeadlessNode \<Rightarrow> (kv_status \<times> bytes) \<times> HeadlessNode" where
  "StateGet clock ident s = (case state_wal s of
     None \<Rightarrow> ((KV_E_TIER_DOWN, []), s)
   | Some (m, f) \<Rightarrow> (let key = StateKeyFromIdentity ident in
       case DramTier.Lookup key (dram s) of (r, d) \<Rightarrow>
         let s = s\<lparr>dram := d\<rparr> in
         if where_hit r \<in> {kA1in, kAm} then ((KV_OK, hit_data r), s)
         else if onMiss (the (node_registry SK_MEMORY)) = kReplayFromPersist then
           (case SwGet key m of
              Some v \<Rightarrow> ((KV_OK, v), StageToDram clock key v SK_MEMORY s)
            | None \<Rightarrow> ((KV_E_NOT_FOUND, []), s))
         else ((KV_E_NOT_FOUND, []), s)))"

subsection \<open>Leaves and their readers\<close>

definition readers :: "(kv_handle \<rightharpoonup> HandleState) \<Rightarrow> nat \<Rightarrow> kv_handle set" where
  "readers hs l = {h. \<exists>loc t m. hs h = Some (ReadHandleState loc l t m)}"

text \<open>
  The index maps a path to at most one address, no address twice, and only to allocated leaves; a leaf
  that is mapped or held has one reference for the index and one for each of its readers.
\<close>

definition counted :: "HeadlessNode \<Rightarrow> nat \<Rightarrow> bool" where
  "counted s l \<longleftrightarrow> l < next_leaf s \<and> lf_refcount (the (leaves s l)) = of_nat (1 + card (readers (handles s) l))"

definition leaf_inv :: "HeadlessNode \<Rightarrow> bool" where
  "leaf_inv s \<longleftrightarrow> index_ok (nart s) \<and> dom (leaves s) = {..<next_leaf s} \<and>
     (\<forall>h \<in> dom (handles s). 0 < h \<and> h < next_kv_handle s) \<and> 0 < next_kv_handle s \<and>
     (\<forall>p l. LookupByPath (nart s) p = Some l \<longrightarrow> counted s l) \<and>
     (\<forall>l. readers (handles s) l \<noteq> {} \<longrightarrow> counted s l) \<and>
     inj_on (LookupByPath (nart s)) (dom (LookupByPath (nart s)))"

text \<open>As long as fewer than \<open>2\<^sup>3\<^sup>2 - 1\<close> handles are live, no reference count has wrapped.\<close>

definition few_handles :: "HeadlessNode \<Rightarrow> bool" where
  "few_handles s \<longleftrightarrow> card (dom (handles s)) + 1 < 2 ^ 32"

lemma few_handles_other [simp]:
  "few_handles (s\<lparr>dram := d\<rparr>) = few_handles s" "few_handles (s\<lparr>evict_index := ei\<rparr>) = few_handles s"
  "few_handles (s\<lparr>deferred_evicts := de\<rparr>) = few_handles s"
  by (simp_all add: few_handles_def)

lemma readers_bound:
  assumes "leaf_inv s" and "few_handles s"
  shows "finite (readers (handles s) l)" "unat (of_nat (1 + card (readers (handles s) l)) :: u32) = 1 + card (readers (handles s) l)"
proof -
  have "dom (handles s) \<subseteq> {..<next_kv_handle s}" using assms(1) by (auto simp: leaf_inv_def)
  then have fin: "finite (dom (handles s))" using finite_subset by blast
  have sub: "readers (handles s) l \<subseteq> dom (handles s)" by (auto simp: readers_def)
  with fin show "finite (readers (handles s) l)" by (rule rev_finite_subset)
  have "1 + card (readers (handles s) l) < 2 ^ 32" using card_mono [OF fin sub] assms(2) by (simp add: few_handles_def)
  then show "unat (of_nat (1 + card (readers (handles s) l)) :: u32) = 1 + card (readers (handles s) l)" by (rule unat_u32_of_nat)
qed

lemma unread_refcount:
  assumes "leaf_inv s" and "few_handles s" and "counted s l"
  shows "lf_refcount (the (leaves s l)) = 1 \<longleftrightarrow> readers (handles s) l = {}" "lf_refcount (the (leaves s l)) \<noteq> 0"
proof -
  note b = readers_bound [OF assms(1,2), of l]
  have "(of_nat (1 + card (readers (handles s) l)) :: u32) = 1 \<longleftrightarrow> card (readers (handles s) l) = 0"
    using b(2) by (metis add.right_neutral add_left_cancel of_nat_1 unat_1)
  with b(1) assms(3) show "lf_refcount (the (leaves s l)) = 1 \<longleftrightarrow> readers (handles s) l = {}"
    by (simp add: counted_def del: of_nat_add of_nat_Suc)
  have "(of_nat (1 + card (readers (handles s) l)) :: u32) \<noteq> 0" using b(2) by (metis add_eq_0_iff_both_eq_0 unat_0 zero_neq_one)
  with assms(3) show "lf_refcount (the (leaves s l)) \<noteq> 0" by (simp add: counted_def del: of_nat_add of_nat_Suc)
qed

text \<open>What the steps of the evictor leave alone.\<close>

definition evict_frame :: "HeadlessNode \<Rightarrow> HeadlessNode \<Rightarrow> bool" where
  "evict_frame s s' \<longleftrightarrow> handles s' = handles s \<and> next_kv_handle s' = next_kv_handle s \<and> dram s' = dram s \<and>
     buffers s' = buffers s \<and> wm s' = wm s \<and> next_leaf s' = next_leaf s \<and> state_wal s' = state_wal s"

lemma evict_frame_refl [simp]: "evict_frame s s"
  by (simp add: evict_frame_def)

lemma evict_frame_trans: "evict_frame s s' \<Longrightarrow> evict_frame s' s'' \<Longrightarrow> evict_frame s s''"
  by (simp add: evict_frame_def)

text \<open>The evictor only forgets leaves that nobody reads.\<close>

definition pruned :: "HeadlessNode \<Rightarrow> HeadlessNode \<Rightarrow> bool" where
  "pruned s s' \<longleftrightarrow> leaf_inv s' \<and> evict_frame s s' \<and>
     (\<forall>p. LookupByPath (nart s') p = LookupByPath (nart s) p \<or>
       (LookupByPath (nart s') p = None \<and> (\<exists>l. LookupByPath (nart s) p = Some l \<and> readers (handles s) l = {}))) \<and>
     (\<forall>l. lf_locator (the (leaves s' l)) = lf_locator (the (leaves s l)) \<and>
       lf_bytes_total (the (leaves s' l)) = lf_bytes_total (the (leaves s l)))"

lemma pruned_refl: "leaf_inv s \<Longrightarrow> pruned s s"
  by (simp add: pruned_def)

lemma pruned_trans: "pruned s s' \<Longrightarrow> pruned s' s'' \<Longrightarrow> pruned s s''"
proof -
  assume a: "pruned s s'" and b: "pruned s' s''"
  have h: "handles s' = handles s" using a by (simp add: pruned_def evict_frame_def)
  have "LookupByPath (nart s'') p = LookupByPath (nart s) p \<or>
      (LookupByPath (nart s'') p = None \<and> (\<exists>l. LookupByPath (nart s) p = Some l \<and> readers (handles s) l = {}))" for p
    using a b h unfolding pruned_def by (elim conjE allE [of _ p]) auto
  with a b show ?thesis unfolding pruned_def by (auto intro: evict_frame_trans)
qed

lemma lookup_path_ok: "index_ok a \<Longrightarrow> LookupByPath a p = Some l \<Longrightarrow> path_ok p"
  using exact_walk_path_ok [of "root a" p] by (simp add: index_ok_def LookupByPath_def)

lemma one_path: "leaf_inv s \<Longrightarrow> LookupByPath (nart s) p = Some l \<Longrightarrow> LookupByPath (nart s) q = Some l \<Longrightarrow> p = q"
  unfolding leaf_inv_def by (elim conjE) (erule inj_onD, auto)

lemma NodeTryEvictNow_spec:
  assumes "leaf_inv s" and "few_handles s" and "NodeTryEvictNow clock p s = (ok, s')"
  shows "pruned s s' \<and> evict_index s' = evict_index s \<and> deferred_evicts s' = deferred_evicts s \<and>
    (if ok then \<exists>l. LookupByPath (nart s) p = Some l \<and> readers (handles s) l = {} \<and> LookupByPath (nart s') p = None
     else s' = s \<and> (\<forall>l. LookupByPath (nart s) p = Some l \<longrightarrow> readers (handles s) l \<noteq> {}))"
proof (cases "LookupByPath (nart s) p")
  case None
  with assms show ?thesis by (simp add: NodeTryEvictNow_def pruned_refl)
next
  case (Some l)
  have c: "counted s l" using assms(1) Some by (simp add: leaf_inv_def)
  note rc = unread_refcount [OF assms(1,2) c]
  show ?thesis
  proof (cases "readers (handles s) l = {}")
    case False
    with Some rc(1) assms show ?thesis by (simp add: NodeTryEvictNow_def TryEvict_def Let_def pruned_refl)
  next
    case True
    let ?lf = "the (leaves s l)"
    obtain a r where a: "Remove p (nart s) = (a, r)" by fastforce
    have ix: "index_ok (nart s)" using assms(1) by (simp add: leaf_inv_def)
    note R = Remove_map [OF ix lookup_path_ok [OF ix Some] a]
    from R(3) Some have "r" by simp
    with Some rc(1) True a assms(3) have s': "ok"
      "s' = s\<lparr>leaves := (leaves s)(l \<mapsto> ?lf\<lparr>lf_refcount := 0\<rparr>), nart := a, events := EventStream.Publish clock (node_event 2 (lf_locator ?lf)) (events s)\<rparr>"
      by (auto simp: NodeTryEvictNow_def TryEvict_def Let_def)
    have "l < next_leaf s" using c by (simp add: counted_def)
    then have dom': "dom (leaves s') = {..<next_leaf s'}" using assms(1) by (auto simp: s'(2) leaf_inv_def)
    have cnt: "counted s' m = counted s m" if "m \<noteq> l" for m using that by (simp add: counted_def s'(2))
    have gone: "LookupByPath a q \<noteq> Some l" for q using one_path [OF assms(1) Some, of q] R(2) by auto
    have mapped: "counted s' m" if "LookupByPath a q = Some m" for q m
      using that gone [of q] cnt [of m] R(2) assms(1) by (auto simp: leaf_inv_def split: if_splits)
    have held: "counted s' m" if "readers (handles s) m \<noteq> {}" for m
      using that True cnt [of m] assms(1) unfolding leaf_inv_def by (cases "m = l") auto
    have "inj_on (LookupByPath a) (dom (LookupByPath a))"
      using one_path [OF assms(1)] R(2) by (auto simp: inj_on_def split: if_splits)
    with dom' mapped held have inv: "leaf_inv s'"
      using assms(1) R(1) unfolding leaf_inv_def by (simp add: s'(2))
    with s' R(2) Some True show ?thesis by (auto simp: pruned_def evict_frame_def)
  qed
qed

lemma leaf_inv_other [simp]:
  "leaf_inv (s\<lparr>dram := d\<rparr>) = leaf_inv s" "leaf_inv (s\<lparr>buffers := b\<rparr>) = leaf_inv s" "leaf_inv (s\<lparr>wm := w\<rparr>) = leaf_inv s"
  "leaf_inv (s\<lparr>evict_index := ei\<rparr>) = leaf_inv s" "leaf_inv (s\<lparr>deferred_evicts := de\<rparr>) = leaf_inv s"
  "leaf_inv (s\<lparr>state_wal := sw\<rparr>) = leaf_inv s" "leaf_inv (s\<lparr>events := ev\<rparr>) = leaf_inv s"
  by (simp_all add: leaf_inv_def counted_def)

lemma pruned_other:
  "pruned (s\<lparr>evict_index := ei\<rparr>) s' = pruned s s'" "pruned s (s'\<lparr>deferred_evicts := de\<rparr>) = pruned s s'"
  "pruned (s\<lparr>deferred_evicts := de\<rparr>) s' = pruned s s'" "pruned s (s'\<lparr>evict_index := ei\<rparr>) = pruned s s'"
  by (simp_all add: pruned_def evict_frame_def)

lemma pruned_bound: "pruned s s' \<Longrightarrow> leaf_inv s' \<and> next_kv_handle s' = next_kv_handle s \<and> handles s' = handles s"
  by (simp add: pruned_def evict_frame_def)

lemma OnDramEvict_spec:
  assumes "leaf_inv s" and "few_handles s"
  shows "pruned s (OnDramEvict clock key s) \<and> evict_index (OnDramEvict clock key s) = (evict_index s)(key := None)"
proof (cases "evict_index s key")
  case None
  then show ?thesis using assms by (auto simp: OnDramEvict_def pruned_refl)
next
  case (Some path)
  let ?s = "s\<lparr>evict_index := (evict_index s)(key := None)\<rparr>"
  obtain ok s1 where t: "NodeTryEvictNow clock path ?s = (ok, s1)" by fastforce
  from NodeTryEvictNow_spec [OF _ _ t] assms have "pruned ?s s1" "evict_index s1 = (evict_index s)(key := None)" by simp_all
  with Some t assms show ?thesis
    by (auto simp: OnDramEvict_def Let_def pruned_other pruned_refl split: bool.split option.split)
qed

lemma fold_OnDramEvict_spec:
  "leaf_inv s \<Longrightarrow> few_handles s \<Longrightarrow> pruned s (fold (OnDramEvict clock) ks s) \<and>
     evict_index (fold (OnDramEvict clock) ks s) = evict_index s |` (- set ks)"
proof (induction ks arbitrary: s)
  case (Cons k ks)
  let ?s = "OnDramEvict clock k s"
  note o = OnDramEvict_spec [OF Cons.prems, of clock k]
  with pruned_bound [of s ?s] Cons.prems have "leaf_inv ?s" "few_handles ?s" by (auto simp: few_handles_def)
  from Cons.IH [OF this] o show ?case
    by (auto simp: restrict_map_def fun_eq_iff intro: pruned_trans)
qed (simp add: pruned_refl restrict_map_def)

lemma StageToDram_spec:
  assumes "leaf_inv s" and "few_handles s" and "dram_inv (dram s)"
  obtains d gone where "DramTier.Insert key v kind (dram s) = (d, gone)" "inserted key v kind (dram s) gone d"
    "dram (StageToDram clock key v kind s) = d" "pruned (s\<lparr>dram := d\<rparr>) (StageToDram clock key v kind s)"
    "evict_index (StageToDram clock key v kind s) = evict_index s |` (- set gone)"
proof -
  obtain d gone where i: "DramTier.Insert key v kind (dram s) = (d, gone)" by fastforce
  let ?s = "s\<lparr>dram := d\<rparr>"
  have "pruned ?s (fold (OnDramEvict clock) gone ?s) \<and> evict_index (fold (OnDramEvict clock) gone ?s) = evict_index ?s |` (- set gone)"
    using assms by (intro fold_OnDramEvict_spec) simp_all
  with i Insert_inserted [OF assms(3) i] show ?thesis
    by (intro that [of d gone]) (auto simp: StageToDram_def pruned_def evict_frame_def)
qed

lemma sweep_deferred_spec:
  "leaf_inv s \<Longrightarrow> few_handles s \<Longrightarrow> sweep_deferred clock work s = (pending, s') \<Longrightarrow>
     pruned s s' \<and> evict_index s' = evict_index s \<and> deferred_evicts s' = deferred_evicts s \<and>
     set pending \<subseteq> set work \<and> (\<forall>e \<in> set work. e \<notin> set pending \<longrightarrow> LookupByPath (nart s') (de_path e) \<noteq> Some (de_leaf e)) \<and>
     (\<forall>e \<in> set pending. readers (handles s) (de_leaf e) \<noteq> {})"
proof (induction clock work s arbitrary: pending s' rule: sweep_deferred.induct)
  case (2 clock e work s)
  show ?case
  proof (cases "LookupByPath (nart s) (de_path e) \<noteq> Some (de_leaf e)")
    case True
    with 2 have IH: "pruned s s'" "evict_index s' = evict_index s" "deferred_evicts s' = deferred_evicts s" "set pending \<subseteq> set work"
      "\<forall>x \<in> set work. x \<notin> set pending \<longrightarrow> LookupByPath (nart s') (de_path x) \<noteq> Some (de_leaf x)"
      "\<forall>x \<in> set pending. readers (handles s) (de_leaf x) \<noteq> {}"
      by simp_all
    from IH(1) True have "LookupByPath (nart s') (de_path e) \<noteq> Some (de_leaf e)" unfolding pruned_def by (metis option.distinct(1))
    with IH show ?thesis by auto
  next
    case False
    obtain ok s1 where t: "NodeTryEvictNow clock (de_path e) s = (ok, s1)" by fastforce
    note T = NodeTryEvictNow_spec [OF 2(4,5) t]
    then have b: "leaf_inv s1" "few_handles s1" "handles s1 = handles s" using pruned_bound [of s s1] 2(5) by (auto simp: few_handles_def)
    show ?thesis
    proof (cases ok)
      case True
      with 2(6) False t have w: "sweep_deferred clock work s1 = (pending, s')" by simp
      have k: "ok = True" using True by simp
      note IH = 2(2) [OF False t [symmetric] k b(1,2) w]
      have "LookupByPath (nart s1) (de_path e) = None" using T True by auto
      with IH have "LookupByPath (nart s') (de_path e) \<noteq> Some (de_leaf e)" unfolding pruned_def by (metis option.distinct(1))
      with IH T b(3) show ?thesis by (auto intro: pruned_trans)
    next
      case no: False
      with 2(6) False t obtain p where w: "sweep_deferred clock work s1 = (p, s')" "pending = e # p" by (auto split: prod.splits)
      from T no False have "s1 = s" "readers (handles s) (de_leaf e) \<noteq> {}" by auto
      moreover have "ok = False" using no by simp
      note 2(3) [OF False t [symmetric] this b(1,2) w(1)]
      ultimately show ?thesis using w(2) by auto
    qed
  qed
qed (simp add: pruned_refl)

subsection \<open>Handles come and go\<close>

lemma readers_upd:
  "readers (hs(h \<mapsto> IngestHandleState loc ih t m)) l = readers hs l - {h}"
  "readers (hs(h := None)) l = readers hs l - {h}"
  "readers (hs(h \<mapsto> ReadHandleState loc k t m)) l = (if k = l then insert h (readers hs l) else readers hs l - {h})"
  by (auto simp: readers_def split: if_splits)

lemma fresh_handle: "leaf_inv s \<Longrightarrow> handles s (next_kv_handle s) = None"
  by (auto simp: leaf_inv_def dom_def)

lemma handle_bound: "leaf_inv s \<Longrightarrow> handles s h = Some y \<Longrightarrow> 0 < h \<and> h < next_kv_handle s"
  by (auto simp: leaf_inv_def)

lemma held_counted: "leaf_inv s \<Longrightarrow> h \<in> readers (handles s) l \<Longrightarrow> counted s l"
  by (auto simp: leaf_inv_def)

lemma fresh_reader: "leaf_inv s \<Longrightarrow> next_kv_handle s \<notin> readers (handles s) l"
  using fresh_handle [of s] by (auto simp: readers_def)

lemma no_reader: "handles s h = Some (IngestHandleState loc ih t m) \<Longrightarrow> readers (handles s) l - {h} = readers (handles s) l"
  by (auto simp: readers_def)

text \<open>A change of the handles and of the counts that keeps every mapped or held leaf counted.\<close>

lemma leaf_inv_handles:
  assumes "leaf_inv s" and "dom lv = dom (leaves s)" and "\<forall>h \<in> dom hs. 0 < h \<and> h < n" and "0 < n"
    and "\<And>l. counted s l \<Longrightarrow> lf_refcount (the (lv l)) = of_nat (1 + card (readers hs l))"
    and "\<And>l. readers hs l \<noteq> {} \<Longrightarrow> counted s l"
  shows "leaf_inv (s\<lparr>leaves := lv, next_kv_handle := n, handles := hs\<rparr>)"
proof -
  have c: "counted (s\<lparr>leaves := lv, next_kv_handle := n, handles := hs\<rparr>) l" if "counted s l" for l
    using that assms(5) [OF that] by (simp add: counted_def del: of_nat_add of_nat_Suc)
  show ?thesis using assms(1-4) c assms(6) unfolding leaf_inv_def by simp
qed

lemma acquire_inv:
  assumes "leaf_inv s" and "few_handles s" and "counted s l"
  obtains lf where "leaves s l = Some lf"
    "acquire_leaf l s = (True, s\<lparr>leaves := (leaves s)(l \<mapsto> lf\<lparr>lf_refcount := lf_refcount lf + 1\<rparr>)\<rparr>)"
    "leaf_inv (s\<lparr>leaves := (leaves s)(l \<mapsto> lf\<lparr>lf_refcount := lf_refcount lf + 1\<rparr>), next_kv_handle := next_kv_handle s + 1,
       handles := (handles s)(next_kv_handle s \<mapsto> ReadHandleState loc l t m)\<rparr>)"
proof -
  have "l \<in> dom (leaves s)" using assms(1,3) by (auto simp: leaf_inv_def counted_def)
  then obtain lf where lf: "leaves s l = Some lf" by blast
  with unread_refcount(2) [OF assms] have "acquire_leaf l s = (True, s\<lparr>leaves := (leaves s)(l \<mapsto> lf\<lparr>lf_refcount := lf_refcount lf + 1\<rparr>)\<rparr>)"
    by (simp add: acquire_leaf_def TryAcquireIfNonZero_def)
  moreover have "leaf_inv (s\<lparr>leaves := (leaves s)(l \<mapsto> lf\<lparr>lf_refcount := lf_refcount lf + 1\<rparr>), next_kv_handle := next_kv_handle s + 1,
       handles := (handles s)(next_kv_handle s \<mapsto> ReadHandleState loc l t m)\<rparr>)"
  proof (rule leaf_inv_handles [OF assms(1)])
    fix k
    show "counted s k" if "readers ((handles s)(next_kv_handle s \<mapsto> ReadHandleState loc l t m)) k \<noteq> {}"
      using that assms(3) held_counted [OF assms(1)] unfolding readers_upd by (cases "l = k") auto
    show "lf_refcount (the (((leaves s)(l \<mapsto> lf\<lparr>lf_refcount := lf_refcount lf + 1\<rparr>)) k)) =
        of_nat (1 + card (readers ((handles s)(next_kv_handle s \<mapsto> ReadHandleState loc l t m)) k))" if "counted s k"
      using that lf readers_bound(1) [OF assms(1,2), of k] fresh_reader [OF assms(1), of k]
      unfolding readers_upd counted_def by (cases "l = k") simp_all
  qed (use lf handle_bound [OF assms(1)] assms(1) in \<open>auto simp: less_Suc_eq leaf_inv_def\<close>)
  ultimately show ?thesis using lf that by blast
qed

lemma release_inv:
  assumes "leaf_inv s" and "few_handles s" and "handles s h = Some (ReadHandleState loc l t m)"
  obtains lf where "leaves s l = Some lf" "counted s l"
    "leaf_inv (s\<lparr>leaves := (leaves s)(l \<mapsto> lf\<lparr>lf_refcount := lf_refcount lf - 1\<rparr>), handles := (handles s)(h := None)\<rparr>)"
proof -
  have r: "h \<in> readers (handles s) l" using assms(3) by (auto simp: readers_def)
  then have c: "counted s l" by (rule held_counted [OF assms(1)])
  then have "l \<in> dom (leaves s)" using assms(1) by (auto simp: leaf_inv_def counted_def)
  then obtain lf where lf: "leaves s l = Some lf" by blast
  have "leaf_inv (s\<lparr>leaves := (leaves s)(l \<mapsto> lf\<lparr>lf_refcount := lf_refcount lf - 1\<rparr>), next_kv_handle := next_kv_handle s,
       handles := (handles s)(h := None)\<rparr>)"
  proof (rule leaf_inv_handles [OF assms(1)])
    fix k
    show "counted s k" if "readers ((handles s)(h := None)) k \<noteq> {}"
    proof -
      from that obtain j where "j \<in> readers (handles s) k" unfolding readers_upd by blast
      then show ?thesis by (rule held_counted [OF assms(1)])
    qed
    show "lf_refcount (the (((leaves s)(l \<mapsto> lf\<lparr>lf_refcount := lf_refcount lf - 1\<rparr>)) k)) =
        of_nat (1 + card (readers ((handles s)(h := None)) k))" if "counted s k"
    proof (cases "l = k")
      case True
      have "card (readers (handles s) k) = Suc (card (readers (handles s) k - {h}))"
        using r True card_Suc_Diff1 [OF readers_bound(1) [OF assms(1,2), of k], of h] by simp
      with that lf True show ?thesis unfolding readers_upd counted_def by simp
    next
      case False
      with assms(3) have "readers (handles s) k - {h} = readers (handles s) k" by (auto simp: readers_def)
      with that False show ?thesis unfolding readers_upd counted_def by simp
    qed
  qed (use lf handle_bound [OF assms(1)] assms(1) in \<open>auto simp: less_Suc_eq leaf_inv_def\<close>)
  with lf c show ?thesis by (intro that) simp_all
qed

subsection \<open>Ingest handles, their slots and their watermarks\<close>

definition ingest_of :: "(kv_handle \<rightharpoonup> HandleState) \<Rightarrow> kv_handle \<rightharpoonup> IngestHandle" where
  "ingest_of hs h = (case hs h of Some (IngestHandleState loc ih t m) \<Rightarrow> Some ih | _ \<Rightarrow> None)"

definition ingest_inv :: "HeadlessNode \<Rightarrow> bool" where
  "ingest_inv s \<longleftrightarrow> (let f = ingest_of (handles s) in pool_inv (buffers s) \<and> inj_on f (dom f) \<and> ran f = dom (wm s) \<and>
     fst ` set (active (buffers s)) \<subseteq> ran f \<and> (\<forall>i \<in> ran f. 0 < i \<and> i < next_ingest (buffers s)))"

lemma ingest_of_upd [simp]:
  "ingest_of (hs(h \<mapsto> IngestHandleState loc ih t m)) = (ingest_of hs)(h \<mapsto> ih)"
  "ingest_of (hs(h \<mapsto> ReadHandleState loc l t m)) = (ingest_of hs)(h := None)"
  "ingest_of (hs(h := None)) = (ingest_of hs)(h := None)"
  by (auto simp: ingest_of_def fun_eq_iff)

lemma ingest_of_None: "hs h = None \<Longrightarrow> ingest_of hs h = None" "hs h = Some (ReadHandleState loc l t m) \<Longrightarrow> ingest_of hs h = None"
  "hs h = Some (IngestHandleState loc ih t m) \<Longrightarrow> ingest_of hs h = Some ih"
  by (simp_all add: ingest_of_def)

lemma ingest_inv_other [simp]:
  "ingest_inv (s\<lparr>dram := d\<rparr>) = ingest_inv s" "ingest_inv (s\<lparr>evict_index := ei\<rparr>) = ingest_inv s" "ingest_inv (s\<lparr>leaves := lv\<rparr>) = ingest_inv s"
  "ingest_inv (s\<lparr>deferred_evicts := de\<rparr>) = ingest_inv s" "ingest_inv (s\<lparr>next_kv_handle := n\<rparr>) = ingest_inv s" "ingest_inv (s\<lparr>nart := a\<rparr>) = ingest_inv s"
  "ingest_inv (s\<lparr>events := ev\<rparr>) = ingest_inv s" "ingest_inv (s\<lparr>next_leaf := nl\<rparr>) = ingest_inv s" "ingest_inv (s\<lparr>state_wal := sw\<rparr>) = ingest_inv s"
  by (simp_all add: ingest_inv_def)

lemma ingest_inv_pruned: "pruned s s' \<Longrightarrow> ingest_inv s' = ingest_inv s"
  by (simp add: pruned_def evict_frame_def ingest_inv_def)

lemma inj_map_drop:
  assumes "inj_on f (dom f)" and "f h = Some i"
  shows "inj_on (f(h := None)) (dom (f(h := None)))" "ran (f(h := None)) = ran f - {i}"
proof -
  show "inj_on (f(h := None)) (dom (f(h := None)))" using assms(1) by (auto simp: inj_on_def)
  show "ran (f(h := None)) = ran f - {i}"
  proof (intro equalityI subsetI)
    fix x assume "x \<in> ran (f(h := None))"
    then obtain k where k: "k \<noteq> h" "f k = Some x" by (auto simp: ran_def split: if_splits)
    then have "x \<noteq> i" using inj_onD [OF assms(1), of k h] assms(2) by auto
    with k(2) show "x \<in> ran f - {i}" by (auto intro: ranI)
  next
    fix x assume "x \<in> ran f - {i}"
    then obtain k where "f k = Some x" "x \<noteq> i" by (auto simp: ran_def)
    with assms(2) have "(f(h := None)) k = Some x" by auto
    then show "x \<in> ran (f(h := None))" by (rule ranI)
  qed
qed

lemma inj_map_add:
  assumes "inj_on f (dom f)" and "f h = None" and "i \<notin> ran f"
  shows "inj_on (f(h \<mapsto> i)) (dom (f(h \<mapsto> i)))" "ran (f(h \<mapsto> i)) = insert i (ran f)"
proof -
  have "f k \<noteq> Some i" for k using assms(3) by (auto simp: ran_def)
  then show "inj_on (f(h \<mapsto> i)) (dom (f(h \<mapsto> i)))" using assms(1,2) by (auto simp: inj_on_def)
  show "ran (f(h \<mapsto> i)) = insert i (ran f)" using assms(2) by (rule ran_map_upd)
qed

lemma ingest_invD:
  assumes "ingest_inv s"
  shows "pool_inv (buffers s)" "inj_on (ingest_of (handles s)) (dom (ingest_of (handles s)))" "ran (ingest_of (handles s)) = dom (wm s)"
    "fst ` set (active (buffers s)) \<subseteq> ran (ingest_of (handles s))" "\<forall>i \<in> ran (ingest_of (handles s)). 0 < i \<and> i < next_ingest (buffers s)"
  using assms unfolding ingest_inv_def Let_def by blast+

lemma drop_ingest_inv:
  assumes "ingest_inv s" and "handles s h = Some (IngestHandleState loc ih t m)"
  shows "ingest_inv (drop_ingest h ih s)"
proof -
  let ?f = "ingest_of (handles s)" and ?b = "snd (BufRelease ih (buffers s))"
  have f: "?f h = Some ih" using assms(2) by (rule ingest_of_None)
  have i: "inj_on ?f (dom ?f)" "pool_inv (buffers s)" "ran ?f = dom (wm s)" by (rule ingest_invD [OF assms(1)])+
  have B: "pool_inv ?b" "active ?b = AList.delete ih (active (buffers s))" "next_ingest ?b = next_ingest (buffers s)"
    using BufRelease_spec [OF i(2), of ih "fst (BufRelease ih (buffers s))" ?b] by simp_all
  have a: "fst ` set (AList.delete ih (active (buffers s))) \<subseteq> fst ` set (active (buffers s)) - {ih}"
    by (auto simp: AList.delete_eq)
  have w: "dom (snd (WmDrop ih (wm s))) = dom (wm s) - {ih}" by (auto simp: WmDrop_def split: option.split)
  from ingest_invD(4,5) [OF assms(1)] a B have "fst ` set (active ?b) \<subseteq> ran ?f - {ih}" "\<forall>i \<in> ran ?f - {ih}. 0 < i \<and> i < next_ingest ?b"
    unfolding B by (blast, simp)
  with B(1) i w show ?thesis unfolding ingest_inv_def Let_def drop_ingest_def
    by (simp add: inj_map_drop [OF i(1) f] del: dom_fun_upd)
qed

lemma drop_ingest_leaf_inv:
  assumes "leaf_inv s" and "handles s h = Some (IngestHandleState loc ih t m)"
  shows "leaf_inv (drop_ingest h ih s)"
proof -
  have "leaf_inv (s\<lparr>leaves := leaves s, next_kv_handle := next_kv_handle s, handles := (handles s)(h := None)\<rparr>)"
  proof (rule leaf_inv_handles [OF assms(1)])
    fix l
    have r: "readers ((handles s)(h := None)) l = readers (handles s) l" by (simp only: readers_upd no_reader [OF assms(2)])
    show "counted s l" if "readers ((handles s)(h := None)) l \<noteq> {}" using that held_counted [OF assms(1)] unfolding r by blast
    show "lf_refcount (the (leaves s l)) = of_nat (1 + card (readers ((handles s)(h := None)) l))" if "counted s l"
      using that unfolding r counted_def by simp
  qed (use handle_bound [OF assms(1)] assms(1) in \<open>auto simp: leaf_inv_def split: if_splits\<close>)
  then have "leaf_inv (s\<lparr>handles := (handles s)(h := None)\<rparr>)" by simp
  then show ?thesis by (simp add: drop_ingest_def leaf_inv_def counted_def)
qed

subsection \<open>Sealing\<close>

lemma fresh_leaf: "leaf_inv s \<Longrightarrow> readers (handles s) (next_leaf s) = {}" "leaf_inv s \<Longrightarrow> LookupByPath (nart s) p \<noteq> Some (next_leaf s)"
  using held_counted [of s _ "next_leaf s"] by (auto simp: counted_def leaf_inv_def)

lemma seal_insert_empty: "seal_insert clock loc w [] s = (KV_E_INTERNAL, s)"
  by (simp add: seal_insert_def empty_path)

lemma seal_insert_spec:
  assumes "leaf_inv s" and "path_ok path"
  obtains s' where "seal_insert clock loc w path s = (KV_OK, s')" "leaf_inv s'"
    "LookupByPath (nart s') = (LookupByPath (nart s))(path \<mapsto> next_leaf s)" "next_leaf s' = next_leaf s + 1"
    "leaves s' = (leaves s)(next_leaf s \<mapsto> \<lparr>lf_locator = loc, lf_bitmap = 8, lf_refcount = 1, lf_bytes_total = w\<rparr>)"
    "handles s' = handles s" "next_kv_handle s' = next_kv_handle s" "dram s' = dram s" "buffers s' = buffers s" "wm s' = wm s"
    "evict_index s' = evict_index s" "state_wal s' = state_wal s"
proof -
  let ?l = "next_leaf s" and ?lf = "\<lparr>lf_locator = loc, lf_bitmap = 8, lf_refcount = 1, lf_bytes_total = w\<rparr>"
  obtain a r where a: "ArtIndex.Insert path ?l (nart s) = (a, r)" by fastforce
  have ix: "index_ok (nart s)" using assms(1) by (simp add: leaf_inv_def)
  note I = Insert_map [OF ix assms(2) a]
  define s' where "s' = s\<lparr>nart := a, leaves := (leaves s)(?l \<mapsto> ?lf), next_leaf := ?l + 1,
    events := EventStream.Publish clock (node_event 1 loc) (events s)\<rparr>"
  have s: "seal_insert clock loc w path s = (KV_OK, s')"
    using a I(3) by (simp add: seal_insert_def Let_def s'_def RcAcquire_def)
  have new: "counted s' ?l" using fresh_leaf(1) [OF assms(1)] by (simp add: counted_def s'_def)
  have old: "counted s' k" if "counted s k" for k using that by (simp add: counted_def s'_def)
  have mapped: "counted s' k" if "LookupByPath a p = Some k" for p k
    using that new old assms(1) unfolding I(2) by (auto simp: leaf_inv_def split: if_splits)
  have held: "counted s' k" if "readers (handles s) k \<noteq> {}" for k
    using that old held_counted [OF assms(1)] by blast
  have inj: "inj_on (LookupByPath a) (dom (LookupByPath a))"
  proof (rule inj_onI)
    fix p q assume "p \<in> dom (LookupByPath a)" and e: "LookupByPath a p = LookupByPath a q"
    then obtain k where k: "LookupByPath a p = Some k" by blast
    with e fresh_leaf(2) [OF assms(1)] one_path [OF assms(1), of p k q] show "p = q"
      unfolding I(2) by (auto split: if_splits)
  qed
  have "leaf_inv s'" using assms(1) I(1) mapped held inj unfolding leaf_inv_def by (simp add: s'_def lessThan_Suc)
  with s I(2) show ?thesis by (intro that [of s']) (simp_all add: s'_def)
qed

definition node_inv :: "HeadlessNode \<Rightarrow> bool" where
  "node_inv s \<longleftrightarrow> leaf_inv s \<and> ingest_inv s \<and> dram_inv (dram s) \<and> registry (dram s) = Some node_registry"

text \<open>
  What a seal stages: nothing when the slot is gone or nothing was published, otherwise the bytes of
  the pool from the start of the slot, which may not exist.
\<close>

definition sealed_value :: "HeadlessNode \<Rightarrow> IngestHandle \<Rightarrow> bytes option option" where
  "sealed_value s ih = (case GetSlot (buffers s) ih of
     None \<Rightarrow> Some None
   | Some slot \<Rightarrow> if WmRead (wm s) ih = 0 then Some None
       else map_option Some (read_pool (pinned (buffers s)) (addr slot) (unat (WmRead (wm s) ih))))"

text \<open>How the leaves change when a leaf is stored at a path, the empty path standing for none.\<close>

definition leaf_step :: "chunk_path \<Rightarrow> HeadlessNode \<Rightarrow> HeadlessNode \<Rightarrow> bool" where
  "leaf_step path s s' \<longleftrightarrow> next_leaf s \<le> next_leaf s' \<and>
     (\<forall>p. p \<noteq> path \<longrightarrow> LookupByPath (nart s') p = LookupByPath (nart s) p \<or>
       (LookupByPath (nart s') p = None \<and> (\<exists>l. LookupByPath (nart s) p = Some l \<and> readers (handles s) l = {}))) \<and>
     (\<forall>l < next_leaf s. lf_locator (the (leaves s' l)) = lf_locator (the (leaves s l)) \<and>
       lf_bytes_total (the (leaves s' l)) = lf_bytes_total (the (leaves s l)))"

definition sealed ::
    "kv_handle \<Rightarrow> kv_locator \<Rightarrow> IngestHandle \<Rightarrow> chunk_path \<Rightarrow> HeadlessNode \<Rightarrow> bytes option \<Rightarrow> DramKey list \<Rightarrow> HeadlessNode \<Rightarrow> bool" where
  "sealed h loc ih path s vo gone s' \<longleftrightarrow> node_inv s' \<and> leaf_step path s s' \<and> handles s' = (handles s)(h := None) \<and>
     next_kv_handle s' = next_kv_handle s \<and> buffers s' = snd (BufRelease ih (buffers s)) \<and> wm s' = snd (WmDrop ih (wm s)) \<and> state_wal s' = state_wal s \<and>
     (path \<noteq> [] \<longrightarrow> LookupByPath (nart s') path = Some (next_leaf s) \<and> next_leaf s' = next_leaf s + 1 \<and>
       lf_locator (the (leaves s' (next_leaf s))) = loc \<and> lf_bytes_total (the (leaves s' (next_leaf s))) = WmRead (wm s) ih) \<and>
     (case vo of None \<Rightarrow> dram s' = dram s \<and> gone = []
      | Some v \<Rightarrow> DramTier.Insert (LocatorContentKey loc) v SK_KV (dram s) = (dram s', gone)) \<and>
     evict_index s' = ((evict_index s) |` (- set gone))(LocatorContentKey loc \<mapsto> path)"

lemma node_inv_other [simp]:
  "node_inv (s\<lparr>evict_index := ei\<rparr>) = node_inv s"
  "node_inv (s\<lparr>deferred_evicts := de\<rparr>) = node_inv s" "node_inv (s\<lparr>state_wal := sw\<rparr>) = node_inv s"
  by (simp_all add: node_inv_def)

lemma StageToDram_sealed:
  assumes "node_inv s" and "few_handles s"
  obtains gone where "DramTier.Insert key v kind (dram s) = (dram (StageToDram clock key v kind s), gone)"
    "node_inv (StageToDram clock key v kind s)" "pruned s (StageToDram clock key v kind s\<lparr>dram := dram s\<rparr>)"
    "evict_index (StageToDram clock key v kind s) = evict_index s |` (- set gone)"
proof -
  from assms(1) have "leaf_inv s" "dram_inv (dram s)" by (simp_all add: node_inv_def)
  then obtain d gone where S: "DramTier.Insert key v kind (dram s) = (d, gone)" "inserted key v kind (dram s) gone d"
    "dram (StageToDram clock key v kind s) = d" "pruned (s\<lparr>dram := d\<rparr>) (StageToDram clock key v kind s)"
    "evict_index (StageToDram clock key v kind s) = evict_index s |` (- set gone)"
    using StageToDram_spec assms(2) by metis
  let ?s = "StageToDram clock key v kind s"
  have "ingest_inv ?s = ingest_inv s" using ingest_inv_pruned [OF S(4)] by simp
  with S(2-4) assms(1) have "node_inv ?s" by (auto simp: node_inv_def inserted_def same_limits_def pruned_def)
  moreover have "pruned s (?s\<lparr>dram := dram s\<rparr>)" using S(4) by (simp add: pruned_def evict_frame_def)
  ultimately show ?thesis using S(1,3,5) that by blast
qed

lemma staged_sealed:
  assumes "node_inv s" and "few_handles s"
  obtains gone s1 where "s1 = (case vo of None \<Rightarrow> s | Some v \<Rightarrow> StageToDram clock key v SK_KV s)"
    "node_inv s1" "pruned s (s1\<lparr>dram := dram s\<rparr>)" "evict_index s1 = evict_index s |` (- set gone)"
    "case vo of None \<Rightarrow> dram s1 = dram s \<and> gone = [] | Some v \<Rightarrow> DramTier.Insert key v SK_KV (dram s) = (dram s1, gone)"
proof (cases vo)
  case None
  with assms show ?thesis by (intro that [of s "[]"]) (simp_all add: node_inv_def pruned_refl restrict_map_def)
next
  case (Some v)
  let ?s = "StageToDram clock key v SK_KV s"
  obtain gone where "DramTier.Insert key v SK_KV (dram s) = (dram ?s, gone)" "node_inv ?s" "pruned s (?s\<lparr>dram := dram s\<rparr>)"
    "evict_index ?s = evict_index s |` (- set gone)" by (rule StageToDram_sealed [OF assms])
  with Some show ?thesis by (intro that [of ?s gone]) simp_all
qed

lemma drop_ingest_sel [simp]:
  "nart (drop_ingest h ih s) = nart s" "leaves (drop_ingest h ih s) = leaves s" "next_leaf (drop_ingest h ih s) = next_leaf s"
  "dram (drop_ingest h ih s) = dram s" "evict_index (drop_ingest h ih s) = evict_index s" "next_kv_handle (drop_ingest h ih s) = next_kv_handle s"
  "handles (drop_ingest h ih s) = (handles s)(h := None)" "buffers (drop_ingest h ih s) = snd (BufRelease ih (buffers s))"
  "wm (drop_ingest h ih s) = snd (WmDrop ih (wm s))" "state_wal (drop_ingest h ih s) = state_wal s"
  by (simp_all add: drop_ingest_def)

lemma drop_ingest_node_inv:
  "node_inv s \<Longrightarrow> handles s h = Some (IngestHandleState loc ih t m) \<Longrightarrow> node_inv (drop_ingest h ih s)"
  using drop_ingest_inv [of s h loc ih t m] drop_ingest_leaf_inv [of s h loc ih t m] by (simp add: node_inv_def)

lemma SealCommit_eq:
  "SealCommit clock h loc ih path s = (case sealed_value s ih of None \<Rightarrow> None
   | Some vo \<Rightarrow> (case seal_insert clock loc (WmRead (wm s) ih) path
       ((case vo of None \<Rightarrow> s | Some v \<Rightarrow> StageToDram clock (LocatorContentKey loc) v SK_KV s)
         \<lparr>evict_index := (evict_index (case vo of None \<Rightarrow> s | Some v \<Rightarrow> StageToDram clock (LocatorContentKey loc) v SK_KV s))
           (LocatorContentKey loc \<mapsto> path)\<rparr>) of (rc, s') \<Rightarrow> Some (rc, drop_ingest h ih s')))"
proof -
  have "node_registry SK_KV = Some ValuePolicyKv"
    by (simp add: node_registry_def SK_KV_def SK_TOOL_RESULT_def SK_MEMORY_def)
  then show ?thesis
    by (cases "GetSlot (buffers s) ih") (simp_all add: SealCommit_def sealed_value_def zero_cost_def Let_def split: option.split)
qed

lemma SealCommit_sealed:
  assumes "node_inv s" and "few_handles s" and "handles s h = Some (IngestHandleState loc ih t m)"
    and "path = [] \<or> path_ok path" and "sealed_value s ih = Some vo"
  obtains gone s' where "SealCommit clock h loc ih path s = Some (if path = [] then KV_E_INTERNAL else KV_OK, s')"
    "sealed h loc ih path s vo gone s'"
proof -
  let ?key = "LocatorContentKey loc" and ?w = "WmRead (wm s) ih"
  from staged_sealed [OF assms(1,2), where vo = vo and clock = clock and key = ?key]
  obtain gone s1 where s1: "s1 = (case vo of None \<Rightarrow> s | Some v \<Rightarrow> StageToDram clock ?key v SK_KV s)" "node_inv s1"
    and pr: "pruned s (s1\<lparr>dram := dram s\<rparr>)" and ei: "evict_index s1 = evict_index s |` (- set gone)"
    and dr: "case vo of None \<Rightarrow> dram s1 = dram s \<and> gone = [] | Some v \<Rightarrow> DramTier.Insert ?key v SK_KV (dram s) = (dram s1, gone)" by metis
  define s2 where "s2 = s1\<lparr>evict_index := (evict_index s1)(?key \<mapsto> path)\<rparr>"
  have s2: "node_inv s2" "dram s2 = dram s1" "evict_index s2 = (evict_index s |` (- set gone))(?key \<mapsto> path)"
    using s1(2) ei by (simp_all add: s2_def)
  have fr: "handles s2 = handles s" "next_kv_handle s2 = next_kv_handle s" "buffers s2 = buffers s" "wm s2 = wm s"
    "next_leaf s2 = next_leaf s" "state_wal s2 = state_wal s"
    using pr by (simp_all add: s2_def pruned_def evict_frame_def)
  have ls: "leaf_step q s s2" for q using pr by (simp add: leaf_step_def pruned_def s2_def fr(5) evict_frame_def)
  have eq: "SealCommit clock h loc ih path s = (case seal_insert clock loc ?w path s2 of (rc, s') \<Rightarrow> Some (rc, drop_ingest h ih s'))"
    by (simp add: SealCommit_eq assms(5) s2_def s1(1))
  have h2: "handles s2 h = Some (IngestHandleState loc ih t m)" using assms(3) fr(1) by simp
  show ?thesis
  proof (cases "path = []")
    case True
    have "sealed h loc ih path s vo gone (drop_ingest h ih s2)"
      using True ls [of "[]"] s2 fr dr drop_ingest_node_inv [OF s2(1) h2] unfolding sealed_def leaf_step_def by (cases vo) simp_all
    with eq True that show ?thesis by (simp add: seal_insert_empty)
  next
    case False
    with assms(4) have "path_ok path" by simp
    with s2(1) obtain s3 where s3: "seal_insert clock loc ?w path s2 = (KV_OK, s3)" "leaf_inv s3"
      "LookupByPath (nart s3) = (LookupByPath (nart s2))(path \<mapsto> next_leaf s2)" "next_leaf s3 = next_leaf s2 + 1"
      "leaves s3 = (leaves s2)(next_leaf s2 \<mapsto> \<lparr>lf_locator = loc, lf_bitmap = 8, lf_refcount = 1, lf_bytes_total = ?w\<rparr>)"
      "handles s3 = handles s2" "next_kv_handle s3 = next_kv_handle s2" "dram s3 = dram s2" "buffers s3 = buffers s2" "wm s3 = wm s2"
      "evict_index s3 = evict_index s2" "state_wal s3 = state_wal s2"
      unfolding node_inv_def by (elim conjE) (rule seal_insert_spec)
    have "node_inv s3" using s2(1) s3 by (simp add: node_inv_def ingest_inv_def)
    with h2 s3(6) have inv: "node_inv (drop_ingest h ih s3)" by (intro drop_ingest_node_inv) simp_all
    have "leaf_step path s s3" using ls [of path] fr(5) unfolding leaf_step_def s3(3,4,5) by (auto simp: less_Suc_eq)
    with False inv s2 fr dr s3 have "sealed h loc ih path s vo gone (drop_ingest h ih s3)"
      unfolding sealed_def leaf_step_def by (cases vo) simp_all
    with eq s3(1) False that show ?thesis by simp
  qed
qed

end
