(* ===== verification/NodeRuns.thy ===== *)
theory NodeRuns
  imports HeadlessNode
begin

section \<open>Runs of the cache node\<close>

text \<open>
  Every operation of the node keeps the invariant of \<open>HeadlessNode\<close>: the reference counts are the
  numbers of readers, ingest handles and slots correspond, the tiers are well formed. This theory
  proves it for each operation, lifts it to runs and states what it gives for the whole node.
\<close>

subsection \<open>Runs of the node\<close>

datatype node_op =
    OpLookup u64 u64 "u32 list"
  | OpReserve nat kv_locator nat u64 u64
  | OpWrite nat bytes
  | OpPublish kv_handle u64
  | OpSeal u64 kv_handle "u32 list"
  | OpSealPath u64 kv_handle chunk_path
  | OpFetch kv_handle nat bool bool bool
  | OpRelease kv_handle
  | OpSweep u64
  | OpSweepBuffers nat

text \<open>The client writes inside the pinned region; a step that reads outside it has no result.\<close>

fun node_do :: "(bytes \<Rightarrow> bytes) \<Rightarrow> node_op \<Rightarrow> HeadlessNode \<Rightarrow> HeadlessNode option" where
  "node_do b3 (OpLookup t m tokens) s = Some (snd (NodeLookup b3 t m tokens s))"
| "node_do b3 (OpReserve now loc n t m) s = Some (snd (NodeReserve now loc n t m s))"
| "node_do b3 (OpWrite off v) s =
     (if off + length v \<le> length (pool (pinned (buffers s))) then Some (write_pool off v s) else None)"
| "node_do b3 (OpPublish h w) s = Some (snd (NodePublish h w s))"
| "node_do b3 (OpSeal clock h tokens) s = map_option snd (NodeSeal b3 clock h tokens s)"
| "node_do b3 (OpSealPath clock h path) s = map_option snd (SealByChunkPath clock h path s)"
| "node_do b3 (OpFetch h n a b c) s = Some (snd (NodeFetch h n a b c s))"
| "node_do b3 (OpRelease h) s = Some (snd (NodeRelease h s))"
| "node_do b3 (OpSweep clock) s = Some (SweeperPass clock s)"
| "node_do b3 (OpSweepBuffers now) s = Some (NodeSweepBuffers now s)"

text \<open>Hashes have eight bytes.\<close>

fun node_op_ok :: "node_op \<Rightarrow> bool" where
  "node_op_ok (OpSealPath clock h path) = list_all hash_ok path"
| "node_op_ok _ = True"

text \<open>The path at which an operation stores a leaf, empty if it does not.\<close>

fun sealing :: "(bytes \<Rightarrow> bytes) \<Rightarrow> node_op \<Rightarrow> HeadlessNode \<Rightarrow> chunk_path" where
  "sealing b3 (OpSeal clock h tokens) s = (case handles s h of
     Some (IngestHandleState loc ih t m) \<Rightarrow>
       if length tokens < kChunkTokens then [] else ChunkifyNS b3 tokens (NamespaceFingerprint b3 t m)
   | _ \<Rightarrow> [])"
| "sealing b3 (OpSealPath clock h path) s = (case handles s h of Some (IngestHandleState loc ih t m) \<Rightarrow> path | _ \<Rightarrow> [])"
| "sealing b3 _ s = []"

text \<open>What a step keeps: the invariant, the leaves that are read, and every read handle but the one it releases.\<close>

definition node_step :: "node_op \<Rightarrow> chunk_path \<Rightarrow> HeadlessNode \<Rightarrow> HeadlessNode \<Rightarrow> bool" where
  "node_step op path s s' \<longleftrightarrow> node_inv s' \<and> leaf_step path s s' \<and>
     (\<forall>h loc l t m. handles s h = Some (ReadHandleState loc l t m) \<longrightarrow> op \<noteq> OpRelease h \<longrightarrow>
        handles s' h = Some (ReadHandleState loc l t m))"

lemma leaf_step_refl: "nart s' = nart s \<Longrightarrow> leaves s' = leaves s \<Longrightarrow> next_leaf s' = next_leaf s \<Longrightarrow> leaf_step path s s'"
  by (simp add: leaf_step_def)

lemma node_step_refl: "node_inv s \<Longrightarrow> node_step op path s s"
  by (simp add: node_step_def leaf_step_refl)

lemma leaf_step_pruned: "pruned s s' \<Longrightarrow> leaf_step path s s'"
  by (simp add: pruned_def leaf_step_def evict_frame_def)

lemma NodeLookup_step:
  assumes "node_inv s" and "few_handles s" and "op = OpLookup t m tokens"
  shows "node_step op [] s (snd (NodeLookup b3 t m tokens s))"
proof (cases "snd (NodeLookup b3 t m tokens s) = s")
  case True
  then show ?thesis using assms(1) by (simp add: node_step_refl)
next
  case False
  let ?r = "LongestPrefixMatchNS b3 (nart s) tokens t m"
  from False obtain l where l: "LpmOutcome.leaf ?r = Some l" and ne: "tokens \<noteq> []" "matched_tokens ?r \<noteq> 0"
    by (auto simp: NodeLookup_def Let_def split: if_splits option.splits)
  have inv: "leaf_inv s" using assms(1) by (simp add: node_inv_def)
  have "LookupByPath (nart s) (take (fst (ArtIndex.Lookup (nart s) (ChunkifyNS b3 tokens (NamespaceFingerprint b3 t m))))
      (ChunkifyNS b3 tokens (NamespaceFingerprint b3 t m))) = Some l"
    using l Lookup_longest [of "nart s"] inv
    by (auto simp: LongestPrefixMatchNS_def Let_def no_match_def leaf_inv_def split: if_splits prod.splits option.splits)
  then have c: "counted s l" using inv unfolding leaf_inv_def by blast
  from acquire_inv [OF inv assms(2) c, of "lf_locator (the (leaves s l))" t m] obtain lf where lf: "leaves s l = Some lf"
    and a: "acquire_leaf l s = (True, s\<lparr>leaves := (leaves s)(l \<mapsto> lf\<lparr>lf_refcount := lf_refcount lf + 1\<rparr>)\<rparr>)"
    and li: "leaf_inv (s\<lparr>leaves := (leaves s)(l \<mapsto> lf\<lparr>lf_refcount := lf_refcount lf + 1\<rparr>), next_kv_handle := next_kv_handle s + 1,
       handles := (handles s)(next_kv_handle s \<mapsto> ReadHandleState (lf_locator (the (leaves s l))) l t m)\<rparr>)" by metis
  let ?s = "s\<lparr>leaves := (leaves s)(l \<mapsto> lf\<lparr>lf_refcount := lf_refcount lf + 1\<rparr>), next_kv_handle := next_kv_handle s + 1,
       handles := (handles s)(next_kv_handle s \<mapsto> ReadHandleState (lf_locator lf) l t m)\<rparr>"
  have eq: "snd (NodeLookup b3 t m tokens s) = ?s" using l ne a lf by (simp add: NodeLookup_def Let_def)
  have f: "(ingest_of (handles s))(next_kv_handle s := None) = ingest_of (handles s)"
    using ingest_of_None(1) [of "handles s", OF fresh_handle [OF inv]] by (simp add: fun_upd_idem_iff)
  have "ingest_inv ?s = ingest_inv s" by (simp add: ingest_inv_def f Let_def del: dom_fun_upd)
  with li lf assms(1) have "node_inv ?s" by (simp add: node_inv_def)
  moreover have "leaf_step [] s ?s" using lf by (simp add: leaf_step_def)
  ultimately show ?thesis using fresh_handle [OF inv] unfolding eq node_step_def by auto
qed

text \<open>A step that only moves slots, watermarks and ingest handles.\<close>

lemma ingest_step:
  assumes "node_inv s" and "leaf_inv s'" and "ingest_inv s'" and "dram s' = dram s"
    and "nart s' = nart s" "leaves s' = leaves s" "next_leaf s' = next_leaf s"
    and "\<And>h loc l t m. handles s h = Some (ReadHandleState loc l t m) \<Longrightarrow> handles s' h = handles s h"
  shows "node_step op path s s'"
  using assms by (simp add: node_step_def node_inv_def leaf_step_refl)

lemma BufReserve_new:
  assumes "pool_inv b" and "BufReserve now ttl b = (ih, b')" and "ih \<noteq> kInvalidIngestHandle"
  obtains sl dl where "pool_inv b'" "ih = next_ingest b" "active b' = active b @ [(ih, sl, dl)]" "next_ingest b' = ih + 1"
proof -
  have "pool_inv b' \<and> ih = next_ingest b \<and> (\<exists>s dl. active b' = active b @ [(ih, s, dl)] \<and> next_ingest b' = ih + 1)"
    using BufReserve_spec [OF assms(1,2)] assms(3) by (simp only: if_False) blast
  then show ?thesis using that by blast
qed

lemma Reserve_ingest_inv:
  assumes "node_inv s" and "BufReserve now 0 (buffers s) = (ih, b)" and "ih \<noteq> kInvalidIngestHandle"
  shows "ingest_inv (s\<lparr>buffers := b, wm := Track ih (wm s), handles := (handles s)(next_kv_handle s \<mapsto> IngestHandleState loc ih t m)\<rparr>)"
proof -
  let ?f = "ingest_of (handles s)"
  have inv: "ingest_inv s" "leaf_inv s" using assms(1) by (simp_all add: node_inv_def)
  note I = ingest_invD [OF inv(1)]
  obtain sl dl where B: "pool_inv b" "ih = next_ingest (buffers s)" "active b = active (buffers s) @ [(ih, sl, dl)]" "next_ingest b = ih + 1"
    using BufReserve_new [OF I(1) assms(2,3)] by blast
  have new: "ih \<notin> ran ?f" using I(5) B(2) by auto
  have "ingest_of (handles s) (next_kv_handle s) = None" using fresh_handle [OF inv(2)] by (simp add: ingest_of_def)
  note add = inj_map_add [OF I(2) this new]
  have "dom (Track ih (wm s)) = insert ih (dom (wm s))" by (auto simp: Track_def)
  moreover have "0 < ih" using assms(3) by (simp add: kInvalidIngestHandle_def)
  moreover have "\<forall>i \<in> ran ?f. 0 < i \<and> i < ih + 1" using I(5) B(2) by auto
  ultimately show ?thesis using I(3,4) B add by (auto simp: ingest_inv_def Let_def simp del: dom_fun_upd)
qed

lemma Reserve_leaf_inv:
  assumes "leaf_inv s"
  shows "leaf_inv (s\<lparr>next_kv_handle := next_kv_handle s + 1, handles := (handles s)(next_kv_handle s \<mapsto> IngestHandleState loc ih t m)\<rparr>)"
proof -
  let ?hs = "(handles s)(next_kv_handle s \<mapsto> IngestHandleState loc ih t m)"
  have "leaf_inv (s\<lparr>leaves := leaves s, next_kv_handle := next_kv_handle s + 1, handles := ?hs\<rparr>)"
  proof (rule leaf_inv_handles [OF assms])
    fix l
    have r: "readers ?hs l = readers (handles s) l" unfolding readers_upd using fresh_reader [OF assms] by simp
    show "counted s l" if "readers ?hs l \<noteq> {}" using that held_counted [OF assms] unfolding r by blast
    show "lf_refcount (the (leaves s l)) = of_nat (1 + card (readers ?hs l))" if "counted s l"
      using that unfolding r counted_def by simp
  qed (use handle_bound [OF assms] assms in \<open>auto simp: leaf_inv_def less_Suc_eq split: if_splits\<close>)
  then show ?thesis by simp
qed

lemma Reserve_undo_inv:
  assumes "node_inv s" and "BufReserve now 0 (buffers s) = (ih, b)" and "ih \<noteq> kInvalidIngestHandle"
  shows "ingest_inv (s\<lparr>buffers := snd (BufRelease ih b), wm := snd (WmDrop ih (Track ih (wm s)))\<rparr>)"
proof -
  let ?h = "next_kv_handle s" and ?hs = "(handles s)(next_kv_handle s \<mapsto> IngestHandleState [] ih 0 0)"
  let ?s = "s\<lparr>buffers := b, wm := Track ih (wm s), handles := ?hs\<rparr>"
  have "ingest_inv (drop_ingest ?h ih ?s)"
    by (rule drop_ingest_inv [OF Reserve_ingest_inv [OF assms]]) simp
  moreover have "(handles s)(?h := None) = handles s" using fresh_handle [of s] assms(1) by (auto simp: node_inv_def)
  then have "drop_ingest ?h ih ?s = s\<lparr>buffers := snd (BufRelease ih b), wm := snd (WmDrop ih (Track ih (wm s)))\<rparr>"
    by (intro HeadlessNode.equality) (simp_all add: drop_ingest_def)
  ultimately show ?thesis by simp
qed

lemma NodeReserve_step:
  assumes "node_inv s" and "op = OpReserve now loc n t m"
  shows "node_step op [] s (snd (NodeReserve now loc n t m s))"
proof -
  obtain ih b where r: "BufReserve now 0 (buffers s) = (ih, b)" by fastforce
  have inv: "leaf_inv s" "pool_inv (buffers s)" using assms(1) ingest_invD(1) by (auto simp: node_inv_def)
  note B = BufReserve_spec [OF inv(2) r]
  show ?thesis
  proof (cases "n = 0 \<or> ih = kInvalidIngestHandle")
    case True
    with r B have "snd (NodeReserve now loc n t m s) = s" by (auto simp: NodeReserve_def Let_def)
    with assms(1) show ?thesis by (simp add: node_step_refl)
  next
    case False
    then have nz: "n \<noteq> 0" "ih \<noteq> kInvalidIngestHandle" by simp_all
    from BufReserve_new [OF inv(2) r nz(2)] obtain sl dl
      where "active b = active (buffers s) @ [(ih, sl, dl)]" "ih = next_ingest (buffers s)" by blast
    with fresh_ingest [OF inv(2)] have g: "GetSlot b ih = Some sl" by (simp add: GetSlot_def map_add_def map_of_eq_None_iff [THEN iffD2])
    show ?thesis
    proof (cases "sbytes sl < n")
      case True
      with r nz g have "snd (NodeReserve now loc n t m s) = s\<lparr>buffers := snd (BufRelease ih b), wm := snd (WmDrop ih (Track ih (wm s)))\<rparr>"
        by (simp add: NodeReserve_def Let_def)
      with inv(1) show ?thesis using Reserve_undo_inv [OF assms(1) r nz(2)] by (auto intro: ingest_step [OF assms(1)])
    next
      case False
      with r nz g have eq: "snd (NodeReserve now loc n t m s) = s\<lparr>buffers := b, wm := Track ih (wm s), next_kv_handle := next_kv_handle s + 1,
          handles := (handles s)(next_kv_handle s \<mapsto> IngestHandleState loc ih t m)\<rparr>"
        by (simp add: NodeReserve_def Let_def)
      show ?thesis unfolding eq
        using Reserve_ingest_inv [OF assms(1) r nz(2), of loc t m] Reserve_leaf_inv [OF inv(1), of loc ih t m] fresh_handle [OF inv(1)]
        by (intro ingest_step [OF assms(1)]) (auto simp: leaf_inv_def counted_def ingest_inv_def)
    qed
  qed
qed

lemma ingest_inv_cong:
  assumes "ingest_inv s" and "handles s' = handles s" "dom (wm s') = dom (wm s)" "pool_inv (buffers s')"
    and "fst ` set (active (buffers s')) \<subseteq> fst ` set (active (buffers s))" "next_ingest (buffers s') = next_ingest (buffers s)"
  shows "ingest_inv s'"
  using ingest_invD [OF assms(1)] assms(2-6) unfolding ingest_inv_def Let_def by auto

lemma NodePublish_step:
  assumes "node_inv s"
  shows "node_step op [] s (snd (NodePublish h w s))"
proof -
  have "dom (snd (WmPublish ih w (wm s))) = dom (wm s)" for ih by (auto simp: WmPublish_def split: option.split)
  then have "ingest_inv (s\<lparr>wm := snd (WmPublish ih w (wm s))\<rparr>)" for ih
    using assms by (simp add: node_inv_def ingest_inv_def)
  with assms have "node_step op [] s (s\<lparr>wm := snd (WmPublish ih w (wm s))\<rparr>)" for ih
    by (intro ingest_step [OF assms]) (simp_all add: node_inv_def)
  with assms show ?thesis by (simp add: NodePublish_def node_step_refl split: option.split HandleState.split)
qed

lemma write_pool_step:
  assumes "node_inv s" and "off + length v \<le> length (pool (pinned (buffers s)))"
  shows "node_step op [] s (write_pool off v s)"
proof -
  let ?b = "buffers (write_pool off v s)"
  have b: "active ?b = active (buffers s)" "next_ingest ?b = next_ingest (buffers s)" "free_stack (pinned ?b) = free_stack (pinned (buffers s))"
    "slot_count (pinned ?b) = slot_count (pinned (buffers s))" "slot_bytes (pinned ?b) = slot_bytes (pinned (buffers s))"
    "in_use (pinned ?b) = in_use (pinned (buffers s))" "length (pool (pinned ?b)) = length (pool (pinned (buffers s)))"
    using assms(2) by (simp_all add: write_pool_def Let_def)
  then have "pool_inv ?b = pool_inv (buffers s)" unfolding pool_inv_def Let_def slot_ok_def by simp
  moreover have i: "ingest_inv s" using assms(1) by (simp add: node_inv_def)
  ultimately have p: "pool_inv ?b" using ingest_invD(1) by simp
  have "handles (write_pool off v s) = handles s" "dom (wm (write_pool off v s)) = dom (wm s)" by (simp_all add: write_pool_def Let_def)
  from ingest_inv_cong [OF i this p] b have "ingest_inv (write_pool off v s)" by simp
  with assms(1) show ?thesis by (intro ingest_step [OF assms(1)]) (simp_all add: node_inv_def write_pool_def Let_def)
qed

lemma NodeSweepBuffers_step:
  assumes "node_inv s"
  shows "node_step op [] s (NodeSweepBuffers now s)"
proof -
  have i: "ingest_inv s" using assms by (simp add: node_inv_def)
  note S = SweepOnce_spec [OF ingest_invD(1) [OF i], of now]
  have "fst ` set (active (SweepOnce now (buffers s))) \<subseteq> fst ` set (active (buffers s))" using S by auto
  then have "ingest_inv (NodeSweepBuffers now s)"
    using S by (intro ingest_inv_cong [OF i]) (simp_all add: NodeSweepBuffers_def)
  with assms show ?thesis by (intro ingest_step [OF assms]) (simp_all add: node_inv_def NodeSweepBuffers_def)
qed

lemma NodeFetch_step:
  assumes "node_inv s"
  shows "node_step op [] s (snd (NodeFetch h n a b c s))"
proof -
  have t: "node_step op [] s (snd (TierFetch key s))" for key
  proof -
    obtain r d where l: "DramTier.Lookup key (dram s) = (r, d)" by fastforce
    with assms Lookup_spec [of "dram s" key r d] have "dram_inv d" "registry d = Some node_registry"
      by (simp_all add: node_inv_def same_limits_def)
    with assms l show ?thesis by (simp add: TierFetch_def node_step_def node_inv_def leaf_step_def)
  qed
  show ?thesis
  proof (cases "handles s h")
    case (Some hs)
    then show ?thesis
    proof (cases hs)
      case (ReadHandleState loc l t m)
      obtain k v s1 where f: "TierFetch (LocatorContentKey loc) s = ((k, v), s1)" by (metis surj_pair)
      with Some ReadHandleState have "snd (NodeFetch h n a b c s) = s1" by (cases k) (simp_all add: NodeFetch_def)
      with t [of "LocatorContentKey loc"] f show ?thesis by simp
    qed (use assms in \<open>simp add: NodeFetch_def node_step_refl\<close>)
  qed (use assms in \<open>simp add: NodeFetch_def node_step_refl\<close>)
qed

lemma drop_ingest_step:
  assumes "node_inv s" and "handles s h = Some (IngestHandleState loc ih t m)"
  shows "node_step op [] s (drop_ingest h ih s)"
  using drop_ingest_node_inv [OF assms] assms(2) by (auto simp: node_step_def leaf_step_refl)

lemma NodeRelease_step:
  assumes "node_inv s" and "few_handles s" and "op = OpRelease h"
  shows "node_step op [] s (snd (NodeRelease h s))"
proof (cases "handles s h")
  case None
  with assms show ?thesis by (simp add: NodeRelease_def node_step_refl)
next
  case (Some hs)
  show ?thesis
  proof (cases hs)
    case (IngestHandleState loc ih t m)
    with Some assms(1) show ?thesis by (simp add: NodeRelease_def drop_ingest_step)
  next
    case (ReadHandleState loc l t m)
    have inv: "leaf_inv s" "ingest_inv s" using assms(1) by (simp_all add: node_inv_def)
    have hs: "handles s h = Some (ReadHandleState loc l t m)" using Some ReadHandleState by simp
    from release_inv [OF inv(1) assms(2) hs] obtain lf where lf: "leaves s l = Some lf"
      and li: "leaf_inv (s\<lparr>leaves := (leaves s)(l \<mapsto> lf\<lparr>lf_refcount := lf_refcount lf - 1\<rparr>), handles := (handles s)(h := None)\<rparr>)" by metis
    let ?s = "s\<lparr>leaves := (leaves s)(l \<mapsto> lf\<lparr>lf_refcount := lf_refcount lf - 1\<rparr>), handles := (handles s)(h := None)\<rparr>"
    have eq: "snd (NodeRelease h s) = ?s" using hs lf by (simp add: NodeRelease_def Let_def RcRelease_def)
    have f: "(ingest_of (handles s))(h := None) = ingest_of (handles s)" using ingest_of_None(2) [of "handles s", OF hs] by (simp add: fun_upd_idem_iff)
    have "ingest_inv ?s = ingest_inv s" by (simp add: ingest_inv_def f Let_def del: dom_fun_upd)
    with li assms(1) have "node_inv ?s" by (simp add: node_inv_def)
    moreover have "leaf_step [] s ?s" using lf by (simp add: leaf_step_def)
    ultimately show ?thesis using assms(3) unfolding eq node_step_def by auto
  qed
qed

lemma SweeperPass_step:
  assumes "node_inv s" and "few_handles s"
  shows "node_step op [] s (SweeperPass clock s)"
proof -
  obtain p s1 where w: "sweep_deferred clock (deferred_evicts s) (s\<lparr>deferred_evicts := []\<rparr>) = (p, s1)" by fastforce
  with sweep_deferred_spec [of "s\<lparr>deferred_evicts := []\<rparr>" clock _ p s1] assms
  have pr: "pruned s s1" by (simp add: node_inv_def pruned_other)
  have "node_inv s1" using assms(1) pr ingest_inv_pruned [OF pr] by (simp add: node_inv_def pruned_def evict_frame_def)
  with pr have "node_step op [] s s1" by (simp add: node_step_def leaf_step_pruned pruned_bound)
  with w show ?thesis by (simp add: SweeperPass_def node_step_def leaf_step_def)
qed

lemma SealCommit_step:
  assumes "node_inv s" and "few_handles s" and "handles s h = Some (IngestHandleState loc ih t m)"
    and "path = [] \<or> path_ok path" and "SealCommit clock h loc ih path s = Some (rc, s')"
  shows "node_step op path s s'"
proof -
  obtain vo where v: "sealed_value s ih = Some vo" using assms(5) by (cases "sealed_value s ih") (simp_all add: SealCommit_eq)
  from SealCommit_sealed [OF assms(1-4) v, of clock] obtain gone where "sealed h loc ih path s vo gone s'"
    using assms(5) by auto
  with assms(3) show ?thesis by (auto simp: sealed_def node_step_def)
qed

lemma NodeSeal_step:
  assumes "node_inv s" and "few_handles s" and "digest_128 b3" and "NodeSeal b3 clock h tokens s = Some (rc, s')"
    and "op = OpSeal clock h tokens"
  shows "node_step op (sealing b3 op s) s s'"
proof (cases "handles s h")
  case (Some hs)
  show ?thesis
  proof (cases hs)
    case (IngestHandleState loc ih t m)
    with Some have hs: "handles s h = Some (IngestHandleState loc ih t m)" by simp
    show ?thesis
    proof (cases "length tokens < kChunkTokens")
      case True
      with assms hs drop_ingest_step [OF assms(1) hs] show ?thesis by (auto simp: NodeSeal_def)
    next
      case False
      let ?p = "ChunkifyNS b3 tokens (NamespaceFingerprint b3 t m)"
      have "?p = [] \<or> path_ok ?p" using ChunkifyNS_path_ok [OF assms(3)] by blast
      moreover have "SealCommit clock h loc ih ?p s = Some (rc, s')" using assms(4) hs False by (simp add: NodeSeal_def)
      ultimately have "node_step op ?p s s'" by (rule SealCommit_step [OF assms(1,2) hs])
      with assms(5) hs False show ?thesis by simp
    qed
  qed (use assms Some in \<open>auto simp: NodeSeal_def node_step_refl\<close>)
qed (use assms in \<open>auto simp: NodeSeal_def node_step_refl\<close>)

lemma SealByChunkPath_step:
  assumes "node_inv s" and "few_handles s" and "list_all hash_ok path" and "SealByChunkPath clock h path s = Some (rc, s')"
    and "op = OpSealPath clock h path"
  shows "node_step op (sealing b3 op s) s s'"
proof (cases "handles s h")
  case (Some hs)
  show ?thesis
  proof (cases hs)
    case (IngestHandleState loc ih t m)
    with Some have hs: "handles s h = Some (IngestHandleState loc ih t m)" by simp
    have "path = [] \<or> path_ok path" using assms(3) by (auto simp: path_ok_def list_all_iff)
    moreover have "SealCommit clock h loc ih path s = Some (rc, s')" using assms(4) hs by (simp add: SealByChunkPath_def)
    ultimately have "node_step op path s s'" by (rule SealCommit_step [OF assms(1,2) hs])
    with assms(5) hs show ?thesis by simp
  qed (use assms Some in \<open>auto simp: SealByChunkPath_def node_step_refl\<close>)
qed (use assms in \<open>auto simp: SealByChunkPath_def node_step_refl\<close>)

lemma node_do_step:
  assumes "node_inv s" and "few_handles s" and "digest_128 b3" and "node_op_ok op" and "node_do b3 op s = Some s'"
  shows "node_step op (sealing b3 op s) s s'"
proof (cases op)
  case (OpSeal clock h tokens)
  with assms NodeSeal_step show ?thesis by fastforce
next
  case (OpSealPath clock h path)
  with assms SealByChunkPath_step show ?thesis by fastforce
next
  case (OpLookup t m tokens)
  with assms NodeLookup_step show ?thesis by auto
next
  case (OpReserve now loc n t m)
  with assms NodeReserve_step show ?thesis by auto
next
  case (OpRelease h)
  with assms NodeRelease_step show ?thesis by auto
next
  case (OpWrite off v)
  with assms write_pool_step show ?thesis by (auto split: if_splits)
qed (use assms in \<open>auto intro: NodePublish_step NodeFetch_step SweeperPass_step NodeSweepBuffers_step\<close>)

lemma node_inv_new:
  assumes "pool_inv b" and "active b = []"
  shows "node_inv (Node_new (DramTier_new cap ghosts (Some node_registry)) b w)"
proof -
  have "ingest_of Map.empty = Map.empty" by (simp add: ingest_of_def fun_eq_iff)
  with assms show ?thesis
    unfolding node_inv_def leaf_inv_def ingest_inv_def Let_def
    by (simp add: ArtIndex_new_ok Node_new_def dram_inv_new readers_def DramTier_new_def dram_inv_new [unfolded DramTier_new_def])
qed

subsection \<open>What every run keeps\<close>

lemma BufReserve_slots: "slot_count (pinned (snd (BufReserve now ttl b))) = slot_count (pinned b)"
  by (auto simp: BufReserve_def PinnedAcquire_def Let_def)

lemma BufRelease_slots: "slot_count (pinned (snd (BufRelease ih b))) = slot_count (pinned b)"
  by (simp add: BufRelease_def PinnedRelease_sel split: option.split)

lemma SweepOnce_slots: "slot_count (pinned (SweepOnce now b)) = slot_count (pinned b)"
  using fold_PinnedRelease_sel by (simp add: SweepOnce_def Let_def)

definition node_frame :: "HeadlessNode \<Rightarrow> HeadlessNode \<Rightarrow> bool" where
  "node_frame s s' \<longleftrightarrow> slot_count (pinned (buffers s')) = slot_count (pinned (buffers s)) \<and> next_kv_handle s' \<le> next_kv_handle s + 1"

lemma SealCommit_frame:
  assumes "node_inv s" and "few_handles s" and "handles s h = Some (IngestHandleState loc ih t m)"
    and "path = [] \<or> path_ok path" and "SealCommit clock h loc ih path s = Some (rc, s')"
  shows "node_frame s s'"
proof -
  obtain vo where v: "sealed_value s ih = Some vo" using assms(5) by (cases "sealed_value s ih") (simp_all add: SealCommit_eq)
  from SealCommit_sealed [OF assms(1-4) v, of clock] obtain gone where "sealed h loc ih path s vo gone s'"
    using assms(5) by auto
  then show ?thesis by (simp add: sealed_def node_frame_def BufRelease_slots)
qed

lemma drop_ingest_frame: "node_frame s (drop_ingest h ih s)"
  by (simp add: node_frame_def BufRelease_slots)

lemma Reserve_frame: "node_frame s (snd (NodeReserve now loc n t m s))"
proof -
  obtain ih b where r: "BufReserve now 0 (buffers s) = (ih, b)" by fastforce
  with BufReserve_slots [of now 0 "buffers s"] have "slot_count (pinned b) = slot_count (pinned (buffers s))" by simp
  with r show ?thesis
    by (cases "GetSlot b ih") (simp_all add: NodeReserve_def Let_def node_frame_def BufRelease_slots)
qed

lemma Lookup_frame: "node_frame s (snd (NodeLookup b3 t m tokens s))"
proof -
  have "buffers (snd (acquire_leaf l s)) = buffers s \<and> next_kv_handle (snd (acquire_leaf l s)) = next_kv_handle s" for l
    by (simp add: acquire_leaf_def split: option.split prod.split bool.split)
  note acq = this
  show ?thesis
  proof (cases "LpmOutcome.leaf (LongestPrefixMatchNS b3 (nart s) tokens t m)")
    case None
    then show ?thesis by (simp add: NodeLookup_def Let_def node_frame_def)
  next
    case (Some l)
    obtain ok s1 where "acquire_leaf l s = (ok, s1)" by fastforce
    with Some acq [of l] show ?thesis by (cases ok) (simp_all add: NodeLookup_def Let_def node_frame_def)
  qed
qed

lemma SweeperPass_frame:
  assumes "node_inv s" and "few_handles s"
  shows "node_frame s (SweeperPass clock s)"
proof -
  obtain p s1 where w: "sweep_deferred clock (deferred_evicts s) (s\<lparr>deferred_evicts := []\<rparr>) = (p, s1)" by fastforce
  with sweep_deferred_spec [of "s\<lparr>deferred_evicts := []\<rparr>" clock _ p s1] assms
  have "pruned s s1" by (simp add: node_inv_def pruned_other)
  with w show ?thesis by (simp add: SweeperPass_def node_frame_def pruned_def evict_frame_def)
qed

lemma Fetch_frame: "node_frame s (snd (NodeFetch h n a b c s))"
  by (auto simp: NodeFetch_def TierFetch_def node_frame_def split: option.split HandleState.split prod.split FetchHit.split)

lemma node_do_frame:
  assumes "node_inv s" and "few_handles s" and "digest_128 b3" and "node_op_ok op" and "node_do b3 op s = Some s'"
  shows "node_frame s s'"
proof (cases op)
  case (OpSeal clock h tokens)
  then obtain rc where r: "NodeSeal b3 clock h tokens s = Some (rc, s')" using assms(5) by fastforce
  show ?thesis
  proof (cases "\<exists>loc ih t m. handles s h = Some (IngestHandleState loc ih t m) \<and> \<not> length tokens < kChunkTokens")
    case True
    then obtain loc ih t m where h: "handles s h = Some (IngestHandleState loc ih t m)" "\<not> length tokens < kChunkTokens" by blast
    with r have "SealCommit clock h loc ih (ChunkifyNS b3 tokens (NamespaceFingerprint b3 t m)) s = Some (rc, s')" by (simp add: NodeSeal_def)
    with ChunkifyNS_path_ok [OF assms(3)] show ?thesis by (intro SealCommit_frame [OF assms(1,2) h(1)]) auto
  next
    case False
    with r drop_ingest_frame [of s h] show ?thesis
      by (auto simp: NodeSeal_def node_frame_def split: option.splits HandleState.splits)
  qed
next
  case (OpSealPath clock h path)
  then obtain rc where r: "SealByChunkPath clock h path s = Some (rc, s')" using assms(5) by fastforce
  show ?thesis
  proof (cases "\<exists>loc ih t m. handles s h = Some (IngestHandleState loc ih t m)")
    case True
    then obtain loc ih t m where h: "handles s h = Some (IngestHandleState loc ih t m)" by blast
    moreover have "path = [] \<or> path_ok path" using assms(4) OpSealPath by (auto simp: path_ok_def list_all_iff)
    ultimately show ?thesis using r SealCommit_frame [OF assms(1,2) h] by (simp add: SealByChunkPath_def)
  next
    case False
    with r show ?thesis by (auto simp: SealByChunkPath_def node_frame_def split: option.splits HandleState.splits)
  qed
next
  case (OpRelease h)
  with assms(5) drop_ingest_frame [of s h] show ?thesis
    by (auto simp: NodeRelease_def node_frame_def Let_def split: option.splits HandleState.splits)
next
  case (OpPublish h w)
  with assms(5) show ?thesis by (auto simp: NodePublish_def node_frame_def split: option.splits HandleState.splits)
next
  case (OpWrite off v)
  with assms(5) show ?thesis by (auto simp: write_pool_def node_frame_def Let_def split: if_splits)
next
  case (OpSweepBuffers now)
  with assms(5) show ?thesis by (auto simp: NodeSweepBuffers_def node_frame_def SweepOnce_slots)
qed (use assms Lookup_frame Reserve_frame SweeperPass_frame Fetch_frame in auto)

lemma few_handles_next: "leaf_inv s \<Longrightarrow> next_kv_handle s < 2 ^ 32 \<Longrightarrow> few_handles s"
proof -
  assume a: "leaf_inv s" "next_kv_handle s < 2 ^ 32"
  have "dom (handles s) \<subseteq> {1..<next_kv_handle s}" using handle_bound [OF a(1)] by (auto simp: Suc_le_eq)
  from card_mono [OF _ this] a show ?thesis by (simp add: few_handles_def leaf_inv_def)
qed

definition fresh_node :: "nat \<Rightarrow> nat \<Rightarrow> PinnedTier \<Rightarrow> nat \<Rightarrow> ((bytes, bytes) stdmap \<times> bytes) option \<Rightarrow> HeadlessNode" where
  "fresh_node cap ghosts t ttl w = Node_new (DramTier_new cap ghosts (Some node_registry)) (MutableBufferPool_new t ttl) w"

lemma fresh_node_inv: "PinnedCreate pb sb mapped key = Inr t \<Longrightarrow> pb < 2 ^ 64 \<Longrightarrow> node_inv (fresh_node cap ghosts t ttl w)"
  unfolding fresh_node_def by (rule node_inv_new [OF pool_inv_new]) (simp_all add: MutableBufferPool_new_def)

lemma one_owner:
  assumes "ingest_inv s" and "ih \<in> fst ` set (active (buffers s))"
  shows "\<exists>!h. ingest_of (handles s) h = Some ih"
proof -
  note I = ingest_invD [OF assms(1)]
  from I(4) assms(2) obtain h where h: "ingest_of (handles s) h = Some ih" unfolding ran_def by blast
  moreover have "h' = h" if "ingest_of (handles s) h' = Some ih" for h' using inj_onD [OF I(2), of h' h] that h by auto
  ultimately show ?thesis by blast
qed

lemma all_swept:
  assumes "pool_inv b" and "\<forall>e \<in> set (active b). snd (snd e) \<le> now"
  shows "set (free_stack (pinned (SweepOnce now b))) = {..<slot_count (pinned b)}"
proof -
  note S = SweepOnce_spec [OF assms(1), of now]
  then have "active (SweepOnce now b) = []" using assms(2) by (simp add: filter_empty_conv expired_def)
  with S show ?thesis by (simp add: pool_inv_def Let_def)
qed

text \<open>The states a node can reach while fewer than \<open>2\<^sup>3\<^sup>2 - 1\<close> handles are live.\<close>

inductive reachable :: "(bytes \<Rightarrow> bytes) \<Rightarrow> PinnedTier \<Rightarrow> HeadlessNode \<Rightarrow> bool" for b3 t where
  start: "PinnedCreate pb sb True key = Inr t \<Longrightarrow> pb < 2 ^ 64 \<Longrightarrow> reachable b3 t (fresh_node cap ghosts t ttl w)"
| step: "reachable b3 t s \<Longrightarrow> few_handles s \<Longrightarrow> node_op_ok op \<Longrightarrow> node_do b3 op s = Some s' \<Longrightarrow> reachable b3 t s'"

lemma reachable_inv:
  assumes "reachable b3 t s" and "digest_128 b3"
  shows "node_inv s \<and> slot_count (pinned (buffers s)) = slot_count t"
  using assms
proof (induction rule: reachable.induct)
  case (start pb sb key cap ghosts ttl w)
  then show ?case using fresh_node_inv by (auto simp: fresh_node_def Node_new_def MutableBufferPool_new_def)
next
  case (step s op s')
  then have s: "node_inv s" "slot_count (pinned (buffers s)) = slot_count t" by simp_all
  from node_do_step [OF s(1) step(2) step(6) step(3,4)] node_do_frame [OF s(1) step(2) step(6) step(3,4)] s(2)
  show ?case by (simp add: node_step_def node_frame_def)
qed

text \<open>Runs as lists of operations, for the instances below.\<close>

fun node_run :: "(bytes \<Rightarrow> bytes) \<Rightarrow> node_op list \<Rightarrow> HeadlessNode \<Rightarrow> HeadlessNode option" where
  "node_run b3 [] s = Some s"
| "node_run b3 (op # ops) s = (case node_do b3 op s of None \<Rightarrow> None | Some s' \<Rightarrow> node_run b3 ops s')"

lemma run_reachable:
  "reachable b3 t s \<Longrightarrow> digest_128 b3 \<Longrightarrow> list_all node_op_ok ops \<Longrightarrow> next_kv_handle s + length ops < 2 ^ 32 \<Longrightarrow>
   node_run b3 ops s = Some s' \<Longrightarrow> reachable b3 t s' \<and> few_handles s'"
proof (induction ops arbitrary: s)
  case Nil
  then show ?case using reachable_inv [of b3 t s] by (auto simp: node_inv_def intro: few_handles_next)
next
  case (Cons op ops)
  then obtain s1 where s1: "node_do b3 op s = Some s1" by (auto split: option.splits)
  have inv: "node_inv s" using Cons.prems reachable_inv by blast
  with Cons.prems have f: "few_handles s" by (auto simp: node_inv_def intro: few_handles_next)
  have "reachable b3 t s1" using Cons.prems s1 f by (auto intro: reachable.step)
  moreover have "next_kv_handle s1 \<le> next_kv_handle s + 1"
    using node_do_frame [OF inv f Cons.prems(2) _ s1] Cons.prems(3) by (simp add: node_frame_def)
  ultimately show ?case using Cons.IH [of s1] Cons.prems s1 by simp
qed

text \<open>C16: Pinned slots are never lost and never shared. In every reachable state of the node, after lookups,
  reservations, writes, publications, seals that succeed or fail, fetches, releases and both sweepers
  in any order, every slot of the region is either free or held, exactly once; a held slot belongs to
  exactly one live ingest handle; and when all deadlines have passed, the next sweep makes every slot
  free again.\<close>

theorem slots_conserved:
  assumes "reachable b3 t s" and "digest_128 b3"
  shows "distinct (free_stack (pinned (buffers s)) @ map slot_of_entry (active (buffers s))) \<and>
    set (free_stack (pinned (buffers s)) @ map slot_of_entry (active (buffers s))) = {..<slot_count t} \<and>
    (\<forall>e \<in> set (active (buffers s)). \<exists>!h. ingest_of (handles s) h = Some (fst e)) \<and>
    ((\<forall>e \<in> set (active (buffers s)). snd (snd e) \<le> now) \<longrightarrow>
      set (free_stack (pinned (buffers (NodeSweepBuffers now s)))) = {..<slot_count t})"
proof -
  have inv: "ingest_inv s" and n: "slot_count (pinned (buffers s)) = slot_count t"
    using reachable_inv [OF assms] by (simp_all add: node_inv_def)
  have "pool_inv (buffers s)" by (rule ingest_invD(1) [OF inv])
  with n all_swept [of "buffers s" now] one_owner [OF inv] show ?thesis
    by (simp add: pool_inv_def Let_def NodeSweepBuffers_def)
qed

definition zero_hash :: "bytes \<Rightarrow> bytes" where "zero_hash x = replicate 16 0"

lemma zero_hash_128: "digest_128 zero_hash"
  by (simp add: digest_128_def zero_hash_def)

definition two_slots :: PinnedTier where
  "two_slots = \<lparr>pool = [0, 0, 0, 0], slot_bytes = 2, slot_count = 2, mr_key = 7, free_stack = [1, 0], in_use = 0\<rparr>"

lemma two_slots_create: "PinnedCreate 4 2 True 7 = Inr two_slots"
  by code_simp

lemma two_slots_start: "reachable b3 two_slots (fresh_node cap ghosts two_slots ttl w)"
  by (rule reachable.start [OF two_slots_create]) simp

lemmas node_eval = fresh_node_def Node_new_def two_slots_def NodeReserve_def BufReserve_def PinnedAcquire_def MutableBufferPool_new_def
  Let_def kInvalidIngestHandle_def Track_def GetSlot_def BufRelease_def PinnedRelease_def WmDrop_def NodeSweepBuffers_def SweepOnce_def
  expired_def AList.delete_eq write_pool_def NodePublish_def WmPublish_def

theorem slots_conserved_witness:
  "\<exists>s. node_run zero_hash [OpReserve 5 [] 1 0 0, OpReserve 6 [] 3 0 0, OpSweepBuffers 9] (fresh_node 100 9 two_slots 10 None) = Some s \<and>
     set (free_stack (pinned (buffers s)) @ map slot_of_entry (active (buffers s))) = {..<2} \<and>
     set (free_stack (pinned (buffers (NodeSweepBuffers 20 s)))) = {..<2} \<and> length (active (buffers s)) = 1"
proof -
  let ?ops = "[OpReserve 5 [] 1 0 0, OpReserve 6 [] 3 0 0, OpSweepBuffers 9]" and ?s = "fresh_node 100 9 two_slots 10 None"
  define s where "s = the (node_run zero_hash ?ops ?s)"
  have s: "node_run zero_hash ?ops ?s = Some s" by (simp add: s_def)
  have "reachable zero_hash two_slots s"
    using run_reachable [OF two_slots_start zero_hash_128 _ _ s] by (simp add: fresh_node_def Node_new_def)
  moreover have a: "active (buffers s) = [(1, \<lparr>addr = 0, sbytes = 2, smr_key = 7, slot_id = 0\<rparr>, 15)]"
    by (simp add: s_def node_eval)
  ultimately show ?thesis using slots_conserved [OF _ zero_hash_128, of two_slots s 20] s
    by (intro exI [of _ s]) (simp add: two_slots_def)
qed

text \<open>
  The handle \<open>h\<close> reads the leaf \<open>l\<close>, which has the locator \<open>k\<close> and \<open>n\<close> bytes and is stored at \<open>p\<close>; and
  runs that neither release the handle nor store a leaf at the path.
\<close>

definition reads_at :: "HeadlessNode \<Rightarrow> kv_handle \<Rightarrow> chunk_path \<Rightarrow> nat \<Rightarrow> kv_locator \<Rightarrow> u64 \<Rightarrow> bool" where
  "reads_at s h p l k n \<longleftrightarrow> (\<exists>loc t m. handles s h = Some (ReadHandleState loc l t m)) \<and> LookupByPath (nart s) p = Some l \<and>
     lf_locator (the (leaves s l)) = k \<and> lf_bytes_total (the (leaves s l)) = n"





subsection \<open>From a seal to a fetch\<close>

lemma longest_prefix_full: "p \<noteq> [] \<Longrightarrow> m p \<noteq> None \<Longrightarrow> longest_prefix m p = Some (length p)"
  by (cases p) (simp_all add: longest_prefix_def)

lemma match_exact:
  assumes "index_ok a" and "LookupByPath a (ChunkifyNS b3 ts (NamespaceFingerprint b3 t m)) = Some l" and "kChunkTokens \<le> length ts"
  shows "LongestPrefixMatchNS b3 a ts t m = \<lparr>matched_tokens = of_nat (length ts div 16) * of_nat kChunkTokens,
    matched_chunks = of_nat (length ts div 16), leaf = Some l\<rparr>"
proof -
  let ?p = "ChunkifyNS b3 ts (NamespaceFingerprint b3 t m)"
  have len: "length ?p = Suc (length ts div 16)" by (simp add: ChunkifyNS_def)
  with assms(3) have "\<not> length ?p < 2" by (simp add: kChunkTokens_def)
  moreover have "ArtIndex.Lookup a ?p = (Suc (length ts div 16), Some l)"
    using longest_prefix_full [of ?p "LookupByPath a"] assms(2) len by (simp add: Lookup_longest [OF assms(1)] ChunkifyNS_def)
  ultimately show ?thesis by (simp add: LongestPrefixMatchNS_def Let_def)
qed

lemma NodeLookup_exact:
  assumes "node_inv s" and "few_handles s" and "kChunkTokens \<le> length ts" and "length ts < 2 ^ 32"
    and "LookupByPath (nart s) (ChunkifyNS b3 ts (NamespaceFingerprint b3 t m)) = Some l"
  obtains s' lf where "leaves s l = Some lf" "handles s' = (handles s)(next_kv_handle s \<mapsto> ReadHandleState (lf_locator lf) l t m)"
    "NodeLookup b3 t m ts s = ((KV_OK, Some (lf_locator lf, next_kv_handle s, of_nat (length ts div 16 * 16))), s')"
    "dram s' = dram s" "leaves s' = (leaves s)(l \<mapsto> lf\<lparr>lf_refcount := lf_refcount lf + 1\<rparr>)" "nart s' = nart s"
    "buffers s' = buffers s" "wm s' = wm s"
proof -
  let ?n = "of_nat (length ts div 16) * of_nat kChunkTokens :: u32"
  have inv: "leaf_inv s" using assms(1) by (simp add: node_inv_def)
  then have r: "LongestPrefixMatchNS b3 (nart s) ts t m = \<lparr>matched_tokens = ?n, matched_chunks = of_nat (length ts div 16), leaf = Some l\<rparr>"
    using match_exact [OF _ assms(5,3)] by (simp add: leaf_inv_def)
  have "unat ?n = length ts div 16 * 16" using lpm_chunks_fit(2) [OF order_refl assms(4)] .
  moreover have "0 < length ts div 16" using assms(3) by (simp add: kChunkTokens_def div_greater_zero_iff)
  ultimately have nz: "?n \<noteq> 0" by (metis mult_is_0 not_gr_zero unat_0 zero_neq_numeral)
  have c: "counted s l" using inv assms(5) by (auto simp: leaf_inv_def)
  obtain lf where lf: "leaves s l = Some lf"
    and a: "acquire_leaf l s = (True, s\<lparr>leaves := (leaves s)(l \<mapsto> lf\<lparr>lf_refcount := lf_refcount lf + 1\<rparr>)\<rparr>)"
    using acquire_inv [OF inv assms(2) c] by metis
  have "ts \<noteq> []" using assms(3) by (auto simp: kChunkTokens_def)
  with r nz lf a show ?thesis
    by (intro that [of lf "s\<lparr>leaves := (leaves s)(l \<mapsto> lf\<lparr>lf_refcount := lf_refcount lf + 1\<rparr>), next_kv_handle := next_kv_handle s + 1,
      handles := (handles s)(next_kv_handle s \<mapsto> ReadHandleState (lf_locator lf) l t m)\<rparr>"])
      (simp_all add: NodeLookup_def Let_def kChunkTokens_def)
qed

lemma NodeFetch_hit:
  assumes "dram_inv (dram s)" and "handles s h = Some (ReadHandleState loc l t m)"
  shows "fst (NodeFetch h dst True True True s) = (case contents (dram s) (LocatorContentKey loc) of
      None \<Rightarrow> (KV_E_NOT_FOUND, None)
    | Some (v, kind) \<Rightarrow> if dst < length v then (KV_E_NOMEM, None) else (KV_OK, Some v))"
proof -
  obtain r d where l: "DramTier.Lookup (LocatorContentKey loc) (dram s) = (r, d)" by fastforce
  with assms Lookup_spec [OF assms(1) l] show ?thesis
    by (cases "contents (dram s) (LocatorContentKey loc)") (auto simp: NodeFetch_def TierFetch_def)
qed

lemma slot_in_pool:
  assumes "pool_inv b" and "GetSlot b ih = Some slot"
  shows "sbytes slot = slot_bytes (pinned b)" "addr slot + sbytes slot \<le> length (pool (pinned b))"
proof -
  from assms(2) obtain dl where "(ih, slot, dl) \<in> set (active b)" by (auto simp: GetSlot_def dest: map_of_SomeD)
  with assms(1) have ok: "slot_ok (pinned b) slot" "slot_count (pinned b) * slot_bytes (pinned b) \<le> length (pool (pinned b))"
    by (auto simp: pool_inv_def Let_def)
  then show "sbytes slot = slot_bytes (pinned b)" by (simp add: slot_ok_def)
  from ok(1) have "(slot_id slot + 1) * slot_bytes (pinned b) \<le> slot_count (pinned b) * slot_bytes (pinned b)"
    by (intro mult_le_mono1) (simp add: slot_ok_def)
  with ok show "addr slot + sbytes slot \<le> length (pool (pinned b))" by (simp add: slot_ok_def)
qed

lemma few_handles_drop: "leaf_inv s \<Longrightarrow> few_handles s \<Longrightarrow> handles s' = (handles s)(h := None) \<Longrightarrow> few_handles s'"
proof -
  assume a: "leaf_inv s" "few_handles s" "handles s' = (handles s)(h := None)"
  have "dom (handles s) \<subseteq> {..<next_kv_handle s}" using handle_bound [OF a(1)] by auto
  then have "finite (dom (handles s))" using finite_subset by blast
  from card_mono [OF this, of "dom (handles s')"] a(2,3) show ?thesis by (simp add: few_handles_def)
qed

lemma NodeSeal_sealed:
  assumes "node_inv s" and "few_handles s" and "digest_128 b3" and "handles s h = Some (IngestHandleState loc ih t m)"
    and "kChunkTokens \<le> length ts" and "sealed_value s ih = Some vo"
  obtains gone s' where "NodeSeal b3 clock h ts s = Some (KV_OK, s')"
    "sealed h loc ih (ChunkifyNS b3 ts (NamespaceFingerprint b3 t m)) s vo gone s'"
proof -
  let ?p = "ChunkifyNS b3 ts (NamespaceFingerprint b3 t m)"
  have "?p = [] \<or> path_ok ?p" using ChunkifyNS_path_ok [OF assms(3)] by blast
  then obtain gone s' where "SealCommit clock h loc ih ?p s = Some (if ?p = [] then KV_E_INTERNAL else KV_OK, s')" "sealed h loc ih ?p s vo gone s'"
    by (rule SealCommit_sealed [OF assms(1,2,4) _ assms(6)])
  with assms(4,5) that show ?thesis by (simp add: NodeSeal_def ChunkifyNS_def)
qed

lemma seal_then_lookup:
  assumes "node_inv s" and "few_handles s" and "digest_128 b3" and "handles s h = Some (IngestHandleState loc ih t m)"
    and "kChunkTokens \<le> length ts" and "length ts < 2 ^ 32" and "sealed_value s ih = Some vo"
  obtains gone s1 s2 where "NodeSeal b3 clock h ts s = Some (KV_OK, s1)"
    "sealed h loc ih (ChunkifyNS b3 ts (NamespaceFingerprint b3 t m)) s vo gone s1"
    "NodeLookup b3 t m ts s1 = ((KV_OK, Some (loc, next_kv_handle s, of_nat (length ts div 16 * 16))), s2)"
    "handles s2 (next_kv_handle s) = Some (ReadHandleState loc (next_leaf s) t m)" "dram s2 = dram s1"
    "reads_at s2 (next_kv_handle s) (ChunkifyNS b3 ts (NamespaceFingerprint b3 t m)) (next_leaf s) loc (WmRead (wm s) ih)"
    "HandleStoredBytes (next_kv_handle s) s2 = (KV_OK, Some (WmRead (wm s) ih))"
    "handles s2 = (handles s)(h := None, next_kv_handle s \<mapsto> ReadHandleState loc (next_leaf s) t m)"
    "buffers s2 = snd (BufRelease ih (buffers s))" "wm s2 = snd (WmDrop ih (wm s))"
proof -
  let ?p = "ChunkifyNS b3 ts (NamespaceFingerprint b3 t m)"
  obtain gone s1 where s1: "NodeSeal b3 clock h ts s = Some (KV_OK, s1)" "sealed h loc ih ?p s vo gone s1"
    by (rule NodeSeal_sealed [OF assms(1-5) assms(7)])
  then have S: "node_inv s1" "handles s1 = (handles s)(h := None)" "next_kv_handle s1 = next_kv_handle s"
    "LookupByPath (nart s1) ?p = Some (next_leaf s)" "lf_locator (the (leaves s1 (next_leaf s))) = loc"
    "lf_bytes_total (the (leaves s1 (next_leaf s))) = WmRead (wm s) ih"
    "buffers s1 = snd (BufRelease ih (buffers s))" "wm s1 = snd (WmDrop ih (wm s))"
    by (simp_all add: sealed_def ChunkifyNS_def)
  have "few_handles s1" using few_handles_drop [OF _ assms(2) S(2)] assms(1) by (simp add: node_inv_def)
  from NodeLookup_exact [OF S(1) this assms(5,6) S(4)] obtain s2 lf where "leaves s1 (next_leaf s) = Some lf"
    "handles s2 = (handles s1)(next_kv_handle s1 \<mapsto> ReadHandleState (lf_locator lf) (next_leaf s) t m)"
    "NodeLookup b3 t m ts s1 = ((KV_OK, Some (lf_locator lf, next_kv_handle s1, of_nat (length ts div 16 * 16))), s2)"
    "dram s2 = dram s1" "leaves s2 = (leaves s1)(next_leaf s \<mapsto> lf\<lparr>lf_refcount := lf_refcount lf + 1\<rparr>)" "nart s2 = nart s1"
    "buffers s2 = buffers s1" "wm s2 = wm s1" by metis
  with s1 S show ?thesis by (intro that [of s1 gone s2]) (simp_all add: reads_at_def HandleStoredBytes_def)
qed

lemma sealed_bytes_fetched:
  assumes "node_inv s" and "few_handles s" and "digest_128 b3" and "handles s h = Some (IngestHandleState loc ih t m)"
    and "GetSlot (buffers s) ih = Some slot" and "wm s ih = Some n" and "0 < n"
    and fit: "addr slot + unat n \<le> length (pool (pinned (buffers s)))" and "unat n \<le> dst"
    and "kChunkTokens \<le> length ts" and "length ts < 2 ^ 32" and "contents (dram s) (LocatorContentKey loc) = None"
  shows "\<exists>s1 s2 h2. NodeSeal b3 clock h ts s = Some (KV_OK, s1) \<and>
    NodeLookup b3 t m ts s1 = ((KV_OK, Some (loc, h2, of_nat (length ts div 16 * 16))), s2) \<and>
    HandleStoredBytes h2 s2 = (KV_OK, Some n) \<and>
    fst (NodeFetch h2 dst True True True s2) = (KV_OK, Some (take (unat n) (drop (addr slot) (pool (pinned (buffers s))))))"
proof -
  let ?v = "take (unat n) (drop (addr slot) (pool (pinned (buffers s))))" and ?key = "LocatorContentKey loc"
  from fit assms(5-7) have v: "sealed_value s ih = Some (Some ?v)" by (simp add: sealed_value_def read_pool_def WmRead_def word_neq_0_conv)
  obtain gone s1 s2 where s1: "NodeSeal b3 clock h ts s = Some (KV_OK, s1)"
    "sealed h loc ih (ChunkifyNS b3 ts (NamespaceFingerprint b3 t m)) s (Some ?v) gone s1"
    and s2: "NodeLookup b3 t m ts s1 = ((KV_OK, Some (loc, next_kv_handle s, of_nat (length ts div 16 * 16))), s2)"
      "handles s2 (next_kv_handle s) = Some (ReadHandleState loc (next_leaf s) t m)" "dram s2 = dram s1"
      "reads_at s2 (next_kv_handle s) (ChunkifyNS b3 ts (NamespaceFingerprint b3 t m)) (next_leaf s) loc (WmRead (wm s) ih)"
      "HandleStoredBytes (next_kv_handle s) s2 = (KV_OK, Some (WmRead (wm s) ih))"
    by (rule seal_then_lookup [OF assms(1-4) assms(10,11) v]) (rule that)
  have "DramTier.Insert ?key ?v SK_KV (dram s) = (dram s1, gone)" using s1(2) by (simp add: sealed_def)
  then have "inserted ?key ?v SK_KV (dram s) gone (dram s1)" using assms(1) by (intro Insert_inserted) (simp_all add: node_inv_def)
  then have c: "contents (dram s2) ?key = Some (?v, SK_KV)" and d: "dram_inv (dram s2)"
    using assms(12) s2(3) by (auto simp: inserted_def restrict_map_def)
  have "fst (NodeFetch (next_kv_handle s) dst True True True s2) = (KV_OK, Some ?v)"
    unfolding NodeFetch_hit [OF d s2(2)] c using assms(9) by simp
  moreover have "HandleStoredBytes (next_kv_handle s) s2 = (KV_OK, Some n)" using s2(5) assms(6) by (simp add: WmRead_def)
  ultimately show ?thesis using s1(1) s2(1) by blast
qed

text \<open>C9: What is sealed can be looked up and fetched. In any reachable node, sealing an ingest handle whose
  slot is still held and whose watermark lies within the slot succeeds; a lookup of the same tokens in
  the same namespace then hits with all their whole chunks and returns the sealed locator; and a fetch
  through the handle it gives returns exactly the bytes that were written to the slot up to the
  watermark, provided the key of the locator was not in use and the destination is large enough.\<close>

theorem seal_lookup_fetch:
  assumes "reachable b3 pt s" and "few_handles s" and "digest_128 b3" and "handles s h = Some (IngestHandleState loc ih t m)"
    and "GetSlot (buffers s) ih = Some slot" and "wm s ih = Some n" and "0 < n" and "unat n \<le> sbytes slot" and "unat n \<le> dst"
    and "kChunkTokens \<le> length ts" and "length ts < 2 ^ 32" and "contents (dram s) (LocatorContentKey loc) = None"
  shows "\<exists>s1 s2 h2. NodeSeal b3 clock h ts s = Some (KV_OK, s1) \<and>
    NodeLookup b3 t m ts s1 = ((KV_OK, Some (loc, h2, of_nat (length ts div 16 * 16))), s2) \<and>
    HandleStoredBytes h2 s2 = (KV_OK, Some n) \<and>
    fst (NodeFetch h2 dst True True True s2) = (KV_OK, Some (take (unat n) (drop (addr slot) (pool (pinned (buffers s))))))"
proof -
  have inv: "node_inv s" using reachable_inv [OF assms(1,3)] by simp
  have "pool_inv (buffers s)" using inv ingest_invD(1) by (simp add: node_inv_def)
  from slot_in_pool(2) [OF this assms(5)] assms(8) have "addr slot + unat n \<le> length (pool (pinned (buffers s)))" by simp
  from sealed_bytes_fetched [OF inv assms(2-7) this assms(9-12)] show ?thesis .
qed

text \<open>A node in which a client has written and published two bytes, for the instances.\<close>

definition ready_ops :: "node_op list" where
  "ready_ops = [OpReserve 0 (replicate 64 1) 2 5 6, OpWrite 0 [9, 8], OpPublish 1 2]"

definition ready :: HeadlessNode where
  "ready = the (node_run zero_hash ready_ops (fresh_node 100 9 two_slots 10 None))"

lemma ready_run: "node_run zero_hash ready_ops (fresh_node 100 9 two_slots 10 None) = Some ready"
  by (simp add: ready_def ready_ops_def node_eval)

lemma ready_sel:
  "handles ready = [1 \<mapsto> IngestHandleState (replicate 64 1) 1 5 6]" "next_kv_handle ready = 2" "wm ready = [1 \<mapsto> 2]"
  "GetSlot (buffers ready) 1 = Some \<lparr>addr = 0, sbytes = 2, smr_key = 7, slot_id = 0\<rparr>" "pool (pinned (buffers ready)) = [9, 8, 0, 0]"
  "dram ready = DramTier_new 100 9 (Some node_registry)" "next_leaf ready = 0"
  by (simp_all add: ready_def ready_ops_def node_eval)

lemma ready_reachable: "reachable zero_hash two_slots ready" "few_handles ready"
  using run_reachable [OF two_slots_start zero_hash_128 _ _ ready_run]
  by (simp_all add: fresh_node_def Node_new_def ready_ops_def)

lemma ready_empty: "contents (dram ready) k = None"
  by (simp add: ready_sel contents_def resident_def DramTier_new_def)

theorem seal_lookup_fetch_witness:
  "\<exists>s1 s2 h2. NodeSeal zero_hash 3 1 (replicate 16 7) ready = Some (KV_OK, s1) \<and>
    NodeLookup zero_hash 5 6 (replicate 16 7) s1 = ((KV_OK, Some (replicate 64 1, h2, 16)), s2) \<and>
    HandleStoredBytes h2 s2 = (KV_OK, Some 2) \<and> fst (NodeFetch h2 4 True True True s2) = (KV_OK, Some [9, 8])"
proof -
  have "handles ready 1 = Some (IngestHandleState (replicate 64 1) 1 5 6)" "wm ready 1 = Some 2" "(0 :: u64) < 2"
    "unat (2 :: u64) \<le> sbytes \<lparr>addr = 0, sbytes = 2, smr_key = 7, slot_id = 0\<rparr>" "unat (2 :: u64) \<le> 4"
    "kChunkTokens \<le> length (replicate 16 (7 :: u32))" "length (replicate 16 (7 :: u32)) < 2 ^ 32"
    by (simp_all add: ready_sel kChunkTokens_def)
  from seal_lookup_fetch [OF ready_reachable zero_hash_128 this(1) ready_sel(4) this(2-7) ready_empty, of 3] show ?thesis
    by (simp add: ready_sel)
qed


subsection \<open>Where the node does not keep its promises\<close>

text \<open>A seal can acknowledge bytes it does not have. When the sweeper of the buffer pool has taken back the
  slot of an ingest handle, sealing that handle still succeeds; the lookup of its tokens then hits and
  reports the published size, but the fetch finds nothing.\<close>

theorem swept_seal_acknowledged:
  assumes "reachable b3 pt s" and "few_handles s" and "digest_128 b3" and "handles s h = Some (IngestHandleState loc ih t m)"
    and "GetSlot (buffers s) ih = None" and "wm s ih = Some n"
    and "kChunkTokens \<le> length ts" and "length ts < 2 ^ 32" and "contents (dram s) (LocatorContentKey loc) = None"
  shows "\<exists>s1 s2 h2. NodeSeal b3 clock h ts s = Some (KV_OK, s1) \<and>
    NodeLookup b3 t m ts s1 = ((KV_OK, Some (loc, h2, of_nat (length ts div 16 * 16))), s2) \<and>
    HandleStoredBytes h2 s2 = (KV_OK, Some n) \<and> fst (NodeFetch h2 dst True True True s2) = (KV_E_NOT_FOUND, None)"
proof -
  have inv: "node_inv s" using reachable_inv [OF assms(1,3)] by simp
  have v: "sealed_value s ih = Some None" using assms(5) by (simp add: sealed_value_def)
  obtain gone s1 s2 where s1: "NodeSeal b3 clock h ts s = Some (KV_OK, s1)"
    "sealed h loc ih (ChunkifyNS b3 ts (NamespaceFingerprint b3 t m)) s None gone s1"
    and s2: "NodeLookup b3 t m ts s1 = ((KV_OK, Some (loc, next_kv_handle s, of_nat (length ts div 16 * 16))), s2)"
      "handles s2 (next_kv_handle s) = Some (ReadHandleState loc (next_leaf s) t m)" "dram s2 = dram s1"
      "reads_at s2 (next_kv_handle s) (ChunkifyNS b3 ts (NamespaceFingerprint b3 t m)) (next_leaf s) loc (WmRead (wm s) ih)"
      "HandleStoredBytes (next_kv_handle s) s2 = (KV_OK, Some (WmRead (wm s) ih))"
    by (rule seal_then_lookup [OF inv assms(2-4) assms(7,8) v]) (rule that)
  have d1: "dram s1 = dram s" using s1(2) by (simp add: sealed_def)
  have d: "dram_inv (dram s2)" using inv d1 s2(3) by (simp add: node_inv_def)
  have "fst (NodeFetch (next_kv_handle s) dst True True True s2) = (KV_E_NOT_FOUND, None)"
    unfolding NodeFetch_hit [OF d s2(2)] using assms(9) d1 s2(3) by simp
  with s1(1) s2(1,5) assms(6) show ?thesis by (auto simp: WmRead_def)
qed

theorem swept_seal_acknowledged_witness:
  "\<exists>s1 s2 h2. NodeSeal zero_hash 3 1 (replicate 16 7) (NodeSweepBuffers 50 ready) = Some (KV_OK, s1) \<and>
    NodeLookup zero_hash 5 6 (replicate 16 7) s1 = ((KV_OK, Some (replicate 64 1, h2, 16)), s2) \<and>
    HandleStoredBytes h2 s2 = (KV_OK, Some 2) \<and> fst (NodeFetch h2 9 True True True s2) = (KV_E_NOT_FOUND, None)"
proof -
  have run: "node_run zero_hash [OpSweepBuffers 50] ready = Some (NodeSweepBuffers 50 ready)" by simp
  have r: "reachable zero_hash two_slots (NodeSweepBuffers 50 ready) \<and> few_handles (NodeSweepBuffers 50 ready)"
    by (rule run_reachable [OF ready_reachable(1) zero_hash_128 _ _ run]) (simp_all add: ready_sel)
  have "active (buffers (NodeSweepBuffers 50 ready)) = []"
    by (simp add: ready_def ready_ops_def node_eval)
  then have "GetSlot (buffers (NodeSweepBuffers 50 ready)) 1 = None" by (simp add: GetSlot_def)
  moreover have "handles (NodeSweepBuffers 50 ready) 1 = Some (IngestHandleState (replicate 64 1) 1 5 6)" "wm (NodeSweepBuffers 50 ready) 1 = Some 2"
    "kChunkTokens \<le> length (replicate 16 (7 :: u32))" "length (replicate 16 (7 :: u32)) < 2 ^ 32"
    "contents (dram (NodeSweepBuffers 50 ready)) (LocatorContentKey (replicate 64 1)) = None"
    using ready_empty by (simp_all add: NodeSweepBuffers_def ready_sel kChunkTokens_def)
  ultimately show ?thesis
    using swept_seal_acknowledged [OF conjunct1 [OF r] conjunct2 [OF r] zero_hash_128, of 1 "replicate 64 1" 1 5 6 2 "replicate 16 7" 3 9] by simp
qed

lemma slot_addr: "pool_inv b \<Longrightarrow> GetSlot b ih = Some slot \<Longrightarrow> addr slot = slot_id slot * slot_bytes (pinned b)"
  by (auto simp: GetSlot_def pool_inv_def Let_def slot_ok_def dest!: map_of_SomeD)

lemma take_twice: "take (n + k) (drop a xs) = take n (drop a xs) @ take k (drop (a + n) xs)"
  unfolding take_add drop_drop by (simp add: add.commute)

text \<open>C37: The watermark is not checked against the slot. A client that publishes a watermark of two slots
  seals, and then fetches, its own slot followed by the next one, which belongs to another ingest
  handle and has not been sealed: bytes that some other client is writing. A watermark beyond the end
  of the region makes the seal read outside it.\<close>

theorem overlong_watermark:
  assumes "reachable b3 pt s" and "few_handles s" and "digest_128 b3" and "handles s h = Some (IngestHandleState loc ih t m)"
    and "GetSlot (buffers s) ih = Some slot" and "GetSlot (buffers s) other = Some next" and "slot_id next = slot_id slot + 1"
    and "wm s ih = Some c" and "c < n" and "kChunkTokens \<le> length ts" and "length ts < 2 ^ 32"
    and "contents (dram s) (LocatorContentKey loc) = None"
  shows "\<exists>s0. NodePublish h n s = (KV_OK, s0) \<and>
    (unat n = 2 * slot_bytes (pinned (buffers s)) \<longrightarrow>
      (\<exists>s1 s2 h2. NodeSeal b3 clock h ts s0 = Some (KV_OK, s1) \<and>
        NodeLookup b3 t m ts s1 = ((KV_OK, Some (loc, h2, of_nat (length ts div 16 * 16))), s2) \<and>
        fst (NodeFetch h2 (unat n) True True True s2) =
          (KV_OK, Some (take (sbytes slot) (drop (addr slot) (pool (pinned (buffers s)))) @
            take (sbytes next) (drop (addr next) (pool (pinned (buffers s)))))))) \<and>
    (length (pool (pinned (buffers s))) < unat n \<longrightarrow> NodeSeal b3 clock h ts s0 = None)"
proof -
  define s0 where "s0 = s\<lparr>wm := (wm s)(ih \<mapsto> n)\<rparr>"
  have p: "NodePublish h n s = (KV_OK, s0)" using assms(4,8,9) by (simp add: NodePublish_def WmPublish_def s0_def)
  have inv: "node_inv s" using reachable_inv [OF assms(1,3)] by simp
  have inv0: "node_inv s0" using NodePublish_step [OF inv, of undefined h n] p by (simp add: node_step_def)
  have b: "pool_inv (buffers s)" using inv ingest_invD(1) by (simp add: node_inv_def)
  have fits: "addr next + sbytes next \<le> length (pool (pinned (buffers s)))" by (rule slot_in_pool(2) [OF b assms(6)])
  have sz: "sbytes slot = slot_bytes (pinned (buffers s))" "sbytes next = slot_bytes (pinned (buffers s))"
    using slot_in_pool(1) [OF b] assms(5,6) by simp_all
  have nx: "addr next = addr slot + sbytes slot" using slot_addr [OF b] assms(5,6,7) sz by simp
  have "0 < n" using assms(9) by (metis word_coorder.not_eq_extremum word_not_simps(1))
  then have w: "wm s0 ih = Some n" "0 < n" "few_handles s0" "handles s0 h = Some (IngestHandleState loc ih t m)" "GetSlot (buffers s0) ih = Some slot"
    "contents (dram s0) (LocatorContentKey loc) = None"
    using assms(2,4,5,12) by (simp_all add: s0_def few_handles_def)
  have "\<exists>s1 s2 h2. NodeSeal b3 clock h ts s0 = Some (KV_OK, s1) \<and>
        NodeLookup b3 t m ts s1 = ((KV_OK, Some (loc, h2, of_nat (length ts div 16 * 16))), s2) \<and>
        fst (NodeFetch h2 (unat n) True True True s2) =
          (KV_OK, Some (take (sbytes slot) (drop (addr slot) (pool (pinned (buffers s)))) @
            take (sbytes next) (drop (addr next) (pool (pinned (buffers s))))))" if n: "unat n = 2 * slot_bytes (pinned (buffers s))"
  proof -
    have "addr slot + unat n \<le> length (pool (pinned (buffers s0)))" using fits nx sz n by (simp add: s0_def)
    from sealed_bytes_fetched [OF inv0 w(3) assms(3) w(4,5,1,2) this order_refl assms(10,11) w(6), of clock]
    show ?thesis using take_twice [of "sbytes slot" "sbytes next" "addr slot" "pool (pinned (buffers s))"] n sz nx
      by (auto simp: s0_def mult_2)
  qed
  moreover have "NodeSeal b3 clock h ts s0 = None" if "length (pool (pinned (buffers s))) < unat n"
  proof -
    have "sealed_value s0 ih = None" using that w(1,2,5) by (simp add: sealed_value_def read_pool_def WmRead_def s0_def word_neq_0_conv)
    with w(4) assms(10) show ?thesis by (simp add: NodeSeal_def SealCommit_eq)
  qed
  ultimately show ?thesis using p by blast
qed


theorem overlong_watermark_witness:
  "\<exists>s s0 s1 s2 h2. node_run zero_hash [OpReserve 1 (replicate 64 2) 2 50 60, OpWrite 2 [77, 66]] ready = Some s \<and>
    NodePublish 1 4 s = (KV_OK, s0) \<and> NodeSeal zero_hash 3 1 (replicate 16 7) s0 = Some (KV_OK, s1) \<and>
    NodeLookup zero_hash 5 6 (replicate 16 7) s1 = ((KV_OK, Some (replicate 64 1, h2, 16)), s2) \<and>
    fst (NodeFetch h2 4 True True True s2) = (KV_OK, Some [9, 8, 77, 66])"
proof -
  define s where "s = the (node_run zero_hash [OpReserve 1 (replicate 64 2) 2 50 60, OpWrite 2 [77, 66]] ready)"
  have run: "node_run zero_hash [OpReserve 1 (replicate 64 2) 2 50 60, OpWrite 2 [77, 66]] ready = Some s"
    by (simp add: s_def ready_def ready_ops_def node_eval)
  have r: "reachable zero_hash two_slots s \<and> few_handles s"
    by (rule run_reachable [OF ready_reachable(1) zero_hash_128 _ _ run]) (simp_all add: ready_sel)
  have s: "handles s 1 = Some (IngestHandleState (replicate 64 1) 1 5 6)" "GetSlot (buffers s) 1 = Some \<lparr>addr = 0, sbytes = 2, smr_key = 7, slot_id = 0\<rparr>"
    "GetSlot (buffers s) 2 = Some \<lparr>addr = 2, sbytes = 2, smr_key = 7, slot_id = 1\<rparr>" "wm s 1 = Some 2" "dram s = dram ready"
    "pool (pinned (buffers s)) = [9, 8, 77, 66]" "slot_bytes (pinned (buffers s)) = 2"
    by (simp_all add: s_def ready_def ready_ops_def node_eval)
  have "\<exists>s0. NodePublish 1 4 s = (KV_OK, s0) \<and> (\<exists>s1 s2 h2. NodeSeal zero_hash 3 1 (replicate 16 7) s0 = Some (KV_OK, s1) \<and>
    NodeLookup zero_hash 5 6 (replicate 16 7) s1 = ((KV_OK, Some (replicate 64 1, h2, 16)), s2) \<and>
    fst (NodeFetch h2 4 True True True s2) = (KV_OK, Some [9, 8, 77, 66]))"
    using overlong_watermark [OF conjunct1 [OF r] conjunct2 [OF r] zero_hash_128 s(1-3) _ s(4), of 4 "replicate 16 7" 3] ready_empty s(5-7)
    by (simp add: kChunkTokens_def)
  with run show ?thesis by blast
qed

text \<open>A locator of any tenant with the content key of another locator.\<close>

definition forged :: "kv_locator \<Rightarrow> bytes \<Rightarrow> kv_locator" where
  "forged loc tenant = tenant @ take 8 (drop 16 loc) @
     map (\<lambda>i. loc_prefix loc ! i XOR loc_tenant loc ! i XOR tenant ! i) [0..<16] @ drop 40 loc"

lemma GetU64_cong: "(\<And>i. i < 8 \<Longrightarrow> p ! i = q ! i) \<Longrightarrow> GetU64 p = GetU64 q"
  by (simp add: GetU64_def upt_rec)

lemma forged_key:
  assumes "length loc = 64" and "length tenant = 16"
  shows "length (forged loc tenant) = 64" "loc_tenant (forged loc tenant) = tenant"
    "LocatorContentKey (forged loc tenant) = LocatorContentKey loc"
proof -
  show "length (forged loc tenant) = 64" using assms by (simp add: forged_def)
  show t: "loc_tenant (forged loc tenant) = tenant" using assms(2) by (simp add: forged_def loc_tenant_def)
  have m: "loc_model (forged loc tenant) = loc_model loc"
    unfolding loc_model_def using assms by (intro GetU64_cong) (simp add: forged_def nth_append)
  have "loc_prefix (forged loc tenant) = map (\<lambda>i. loc_prefix loc ! i XOR loc_tenant loc ! i XOR tenant ! i) [0..<16]"
    using assms by (simp add: loc_prefix_def forged_def)
  then have "loc_prefix (forged loc tenant) ! i = loc_prefix loc ! i XOR loc_tenant loc ! i XOR tenant ! i" if "i < 16" for i
    using that by simp
  then have "loc_tenant (forged loc tenant) ! i XOR loc_prefix (forged loc tenant) ! i = loc_tenant loc ! i XOR loc_prefix loc ! i" if "i < 16" for i
    using that unfolding t by (simp add: bit_eq_iff bit_simps) blast
  then show "LocatorContentKey (forged loc tenant) = LocatorContentKey loc"
    unfolding LocatorContentKey_def m by (intro map_cong) (simp_all add: Let_def)
qed

lemma EvictToFit_room:
  "a1in_bytes_used d + n \<le> a1in_capacity d \<Longrightarrow> a1in_bytes_used d + am_bytes_used d + n \<le> capacity_bytes d \<Longrightarrow> EvictToFit n d = (d, [])"
  by (simp add: EvictToFit_def evict_a1in.simps evict_total.simps)

lemma Insert_room:
  assumes "UsedBytes d + length v \<le> a1in_capacity d" and "UsedBytes d + length v \<le> capacity_bytes d"
    and "DramTier.Insert key v kind d = (d', gone)"
  shows "gone = []"
proof (cases "resident d key")
  case None
  let ?d = "if key \<in> ghost_index d then d\<lparr>a1out := filter ((\<noteq>) key) (a1out d), ghost_index := ghost_index d - {key}\<rparr> else d"
  have "EvictToFit (length v) ?d = (?d, [])" using assms(1,2) by (intro EvictToFit_room) (simp_all add: UsedBytes_def)
  with None assms(3) show ?thesis by (simp add: DramTier.Insert_def Let_def split: if_splits)
next
  case (Some e)
  let ?d = "if equeue e = A1in
        then d\<lparr>a1in_bytes_used := a1in_bytes_used d - length (edata e) + length v, a1in := replace_entry key v kind (a1in d)\<rparr>
        else d\<lparr>am_bytes_used := am_bytes_used d - length (edata e) + length v, am := replace_entry key v kind (am d)\<rparr>"
  have "EvictToFit 0 ?d = (?d, [])" using assms(1,2) by (intro EvictToFit_room) (auto simp: UsedBytes_def)
  with Some assms(3) show ?thesis by (simp add: DramTier.Insert_def)
qed


text \<open>C36: The content key is not bound to the tenant. For every locator and every other tenant there is a
  locator of that tenant with the same content key; when its client seals bytes under it, a fetch
  through a handle on the first locator returns those bytes, whatever path and namespace they were
  sealed in, provided the cache has room for them.\<close>

theorem forged_locator_replaces_bytes:
  assumes "reachable b3 pt s" and "few_handles s" and "digest_128 b3" and "length loc = 64" and "length tenant = 16"
    and "handles s h = Some (ReadHandleState loc l t m)" and "handles s h' = Some (IngestHandleState (forged loc tenant) ih t' m')"
    and "GetSlot (buffers s) ih = Some slot" and "wm s ih = Some n" and "0 < n" and "unat n \<le> sbytes slot" and "unat n \<le> dst"
    and "path_ok path" and "UsedBytes (dram s) + unat n \<le> min (a1in_capacity (dram s)) (capacity_bytes (dram s))"
  shows "loc_tenant (forged loc tenant) = tenant \<and> (\<exists>s1. SealByChunkPath clock h' path s = Some (KV_OK, s1) \<and>
    fst (NodeFetch h dst True True True s1) = (KV_OK, Some (take (unat n) (drop (addr slot) (pool (pinned (buffers s)))))))"
proof -
  let ?v = "take (unat n) (drop (addr slot) (pool (pinned (buffers s))))" and ?key = "LocatorContentKey loc"
  have inv: "node_inv s" using reachable_inv [OF assms(1,3)] by simp
  have "pool_inv (buffers s)" using inv ingest_invD(1) by (simp add: node_inv_def)
  from slot_in_pool(2) [OF this assms(8)] assms(11) have fit: "addr slot + unat n \<le> length (pool (pinned (buffers s)))" by simp
  then have len: "length ?v = unat n" by simp
  from fit assms(8-10) have v: "sealed_value s ih = Some (Some ?v)" by (simp add: sealed_value_def read_pool_def WmRead_def word_neq_0_conv)
  have p: "path = [] \<or> path_ok path" "path \<noteq> []" using assms(13) by (auto simp: path_ok_def)
  obtain gone s1 where s1: "SealCommit clock h' (forged loc tenant) ih path s = Some (if path = [] then KV_E_INTERNAL else KV_OK, s1)"
    "sealed h' (forged loc tenant) ih path s (Some ?v) gone s1"
    by (rule SealCommit_sealed [OF inv assms(2,7) p(1) v])
  then have S: "handles s1 h = Some (ReadHandleState loc l t m)" "DramTier.Insert ?key ?v SK_KV (dram s) = (dram s1, gone)" "dram_inv (dram s1)"
    using assms(6,7) forged_key(3) [OF assms(4,5)] by (auto simp: sealed_def node_inv_def)
  have "gone = []" using Insert_room [OF _ _ S(2)] assms(14) len by simp
  moreover have "inserted ?key ?v SK_KV (dram s) gone (dram s1)" using inv S(2) by (intro Insert_inserted) (simp_all add: node_inv_def)
  ultimately have c: "contents (dram s1) ?key = Some (?v, SK_KV)" by (simp add: inserted_def)
  have "fst (NodeFetch h dst True True True s1) = (KV_OK, Some ?v)"
    unfolding NodeFetch_hit [OF S(3,1)] c using assms(12) by simp
  moreover have "SealByChunkPath clock h' path s = Some (KV_OK, s1)" using s1(1) p(2) assms(7) by (simp add: SealByChunkPath_def)
  ultimately show ?thesis using forged_key(2) [OF assms(4,5)] by blast
qed

lemma Insert_first:
  assumes "length v \<le> cap div 4"
  shows "UsedBytes (fst (DramTier.Insert key v kind (DramTier_new cap ghosts reg))) = length v"
proof -
  have "EvictToFit (length v) (DramTier_new cap ghosts reg) = (DramTier_new cap ghosts reg, [])"
    using assms by (intro EvictToFit_room) (simp_all add: DramTier_new_def)
  then show ?thesis by (simp add: DramTier.Insert_def Let_def resident_def UsedBytes_def) (simp add: DramTier_new_def)
qed

text \<open>The node in which a second client has prepared a seal under a forged locator.\<close>

definition forge_ops :: "node_op list" where
  "forge_ops = [OpReserve 0 (forged (replicate 64 1) (replicate 16 5)) 2 50 60, OpWrite 2 [77, 66], OpPublish 2 2]"

theorem forged_locator_replaces_bytes_witness:
  "\<exists>s0 s1 s s'. node_run zero_hash forge_ops ready = Some s0 \<and> NodeSeal zero_hash 3 1 (replicate 16 7) s0 = Some (KV_OK, s1) \<and>
    node_run zero_hash [OpLookup 5 6 (replicate 16 7)] s1 = Some s \<and> SealByChunkPath 4 2 [replicate 8 3] s = Some (KV_OK, s') \<and>
    fst (NodeFetch 3 2 True True True s') = (KV_OK, Some [77, 66])"
proof -
  let ?ts = "replicate 16 7 :: u32 list" and ?loc = "replicate 64 1 :: bytes"
  define s0 where "s0 = the (node_run zero_hash forge_ops ready)"
  have run: "node_run zero_hash forge_ops ready = Some s0" by (simp add: s0_def forge_ops_def ready_def ready_ops_def node_eval)
  have s0: "handles s0 = [1 \<mapsto> IngestHandleState ?loc 1 5 6, 2 \<mapsto> IngestHandleState (forged ?loc (replicate 16 5)) 2 50 60]"
    "next_kv_handle s0 = 3" "wm s0 = [1 \<mapsto> 2, 2 \<mapsto> 2]" "dram s0 = DramTier_new 100 9 (Some node_registry)"
    "active (buffers s0) = [(1, \<lparr>addr = 0, sbytes = 2, smr_key = 7, slot_id = 0\<rparr>, 10), (2, \<lparr>addr = 2, sbytes = 2, smr_key = 7, slot_id = 1\<rparr>, 10)]"
    "pool (pinned (buffers s0)) = [9, 8, 77, 66]"
    by (simp_all add: s0_def forge_ops_def ready_def ready_ops_def node_eval eval_nat_numeral)
  have r0: "reachable zero_hash two_slots s0 \<and> few_handles s0"
    by (rule run_reachable [OF ready_reachable(1) zero_hash_128 _ _ run]) (simp_all add: ready_sel forge_ops_def)
  have inv: "node_inv s0" using r0 reachable_inv zero_hash_128 by blast
  have h: "handles s0 1 = Some (IngestHandleState ?loc 1 5 6)" "kChunkTokens \<le> length ?ts" "length ?ts < 2 ^ 32"
    and v: "sealed_value s0 1 = Some (Some [9, 8])"
    by (simp_all add: s0 kChunkTokens_def sealed_value_def WmRead_def read_pool_def GetSlot_def)
  obtain gone s1 s where s1: "NodeSeal zero_hash 3 1 ?ts s0 = Some (KV_OK, s1)"
      "sealed 1 ?loc 1 (ChunkifyNS zero_hash ?ts (NamespaceFingerprint zero_hash 5 6)) s0 (Some [9, 8]) gone s1"
    and s: "NodeLookup zero_hash 5 6 ?ts s1 = ((KV_OK, Some (?loc, next_kv_handle s0, of_nat (length ?ts div 16 * 16))), s)" "dram s = dram s1"
      "handles s = (handles s0)(1 := None, next_kv_handle s0 \<mapsto> ReadHandleState ?loc (next_leaf s0) 5 6)"
      "buffers s = snd (BufRelease 1 (buffers s0))" "wm s = snd (WmDrop 1 (wm s0))"
    by (rule seal_then_lookup [OF inv conjunct2 [OF r0] zero_hash_128 h v]) (rule that)
  have run1: "node_run zero_hash [OpSeal 3 1 ?ts, OpLookup 5 6 ?ts] s0 = Some s" using s1(1) s(1) by simp
  have r: "reachable zero_hash two_slots s \<and> few_handles s"
    by (rule run_reachable [OF conjunct1 [OF r0] zero_hash_128 _ _ run1]) (simp_all add: s0)
  have i: "DramTier.Insert (LocatorContentKey ?loc) [9, 8] SK_KV (DramTier_new 100 9 (Some node_registry)) = (dram s, gone)"
    using s1(2) s(2) by (simp add: sealed_def s0)
  have "same_limits (DramTier_new 100 9 (Some node_registry)) (dram s)" using Insert_inserted [OF dram_inv_new i] by (simp add: inserted_def)
  with Insert_first [of "[9, 8]" 100 "LocatorContentKey ?loc" SK_KV 9 "Some node_registry"] i
  have room: "UsedBytes (dram s) + unat (2 :: u64) \<le> min (a1in_capacity (dram s)) (capacity_bytes (dram s))"
    by (simp add: same_limits_def) (simp add: DramTier_new_def)
  have g: "GetSlot (buffers s) 2 = Some \<lparr>addr = 2, sbytes = 2, smr_key = 7, slot_id = 1\<rparr>" "wm s 2 = Some 2" "pool (pinned (buffers s)) = [9, 8, 77, 66]"
    "handles s 3 = Some (ReadHandleState ?loc (next_leaf s0) 5 6)" "handles s 2 = Some (IngestHandleState (forged ?loc (replicate 16 5)) 2 50 60)"
    by (simp_all add: s s0 GetSlot_def BufRelease_def AList.delete_eq WmDrop_def PinnedRelease_sel)
  have "path_ok [replicate 8 3]" by (simp add: path_ok_def hash_ok_def)
  from forged_locator_replaces_bytes [OF conjunct1 [OF r] conjunct2 [OF r] zero_hash_128 _ _ g(4,5,1,2) _ _ _ this room, of 2 4] g(3)
  obtain s' where "SealByChunkPath 4 2 [replicate 8 3] s = Some (KV_OK, s')" "fst (NodeFetch 3 2 True True True s') = (KV_OK, Some [77, 66])"
    by auto
  moreover have "node_run zero_hash [OpLookup 5 6 ?ts] s1 = Some s" using s(1) by simp
  ultimately show ?thesis using run s1(1) by blast
qed

end
