(* ===== verification/StatePlane.thy ===== *)
theory StatePlane
  imports NodeRuns
begin

section \<open>The state plane of the node\<close>

text \<open>
  \<open>StatePut\<close> and \<open>StateGet\<close> of \<open>core-abi/src/headless_node.cpp\<close> in the company of all other operations of the
  node. A put is logged first and then staged in the DRAM tier, which it shares with the cache plane
  and which may evict it; a get that misses there replays it from the ledger.
\<close>




















end
