(* ===== verification/SqCq.thy ===== *)
theory SqCq
  imports Prelude
begin

section \<open>The shared-memory rings\<close>

text \<open>
  \<open>kvagent/src/shmem_ring/sq_cq.cpp\<close>: a bounded queue for many producers and many consumers in a file
  that two processes map. Each slot carries a sequence number; a thread loads a cursor, compares the
  sequence number of the slot with it, claims the position by a compare-and-exchange of the cursor,
  copies the payload and publishes a new sequence number.

  Every atomic access and the copy are single steps, \<open>push_step\<close> and \<open>pop_step\<close>, and the steps of any
  number of threads interleave. The weak compare-and-exchange may fail without reason. Memory is
  sequentially consistent in the model. The cursors and the sequence numbers are 64-bit counters in
  the code and are taken to be unbounded. \<open>Create\<close> and \<open>Open\<close> get the answers of the system calls as
  arguments.
\<close>

subsection \<open>Layout, creation and opening\<close>

definition kSqMagic :: u32 where "kSqMagic = 0x5153564B"
definition kCqMagic :: u32 where "kCqMagic = 0x5143564B"
definition kCurrentVersion :: u32 where "kCurrentVersion = 1"
definition kCacheLine :: nat where "kCacheLine = 64"

datatype RingKind = Sq | Cq

definition magic_of :: "RingKind \<Rightarrow> u32" where
  "magic_of k = (case k of Sq \<Rightarrow> kSqMagic | Cq \<Rightarrow> kCqMagic)"

record OpenOptions =
  opt_path :: string
  opt_kind :: RingKind
  opt_slot_count :: u32
  opt_slot_bytes :: u32

record RingHeader =
  hmagic :: u32
  hversion :: u32
  hslot_count :: u32
  hslot_bytes :: u32

definition SlotStride :: "nat \<Rightarrow> nat" where
  "SlotStride n = ((8 + n + kCacheLine - 1) div kCacheLine) * kCacheLine"

definition IsPow2 :: "u32 \<Rightarrow> bool" where
  "IsPow2 v \<longleftrightarrow> v > 0 \<and> v AND (v - 1) = 0"

definition kSlotBaseOffset :: nat where "kSlotBaseOffset = 64 + 128"

text \<open>The mapped file: its size, its header, the cursors and the slots.\<close>

record ring =
  map_bytes :: nat
  hdr :: RingHeader
  head_pos :: nat
  tail_pos :: nat
  slot_seqs :: "nat list"
  slot_payloads :: "bytes list"

datatype ring_error = BadSlotCount | BadSlotBytes | EmptyPath | OpenError | TruncateError | MmapError |
  TooSmall | MagicMismatch | VersionMismatch | SlotCountMismatch | SlotBytesMismatch | NotPow2

definition RingCreate :: "OpenOptions \<Rightarrow> bool \<Rightarrow> bool \<Rightarrow> bool \<Rightarrow> ring_error + ring" where
  "RingCreate opts opened truncated mapped =
     (if \<not> IsPow2 (opt_slot_count opts) then Inl BadSlotCount
      else if opt_slot_bytes opts = 0 then Inl BadSlotBytes
      else if opt_path opts = [] then Inl EmptyPath
      else if \<not> opened then Inl OpenError
      else if \<not> truncated then Inl TruncateError
      else if \<not> mapped then Inl MmapError
      else let n = unat (opt_slot_count opts); b = unat (opt_slot_bytes opts) in
        Inr \<lparr>map_bytes = kSlotBaseOffset + n * SlotStride b,
              hdr = \<lparr>hmagic = magic_of (opt_kind opts), hversion = kCurrentVersion,
                     hslot_count = opt_slot_count opts, hslot_bytes = opt_slot_bytes opts\<rparr>,
              head_pos = 0, tail_pos = 0, slot_seqs = [0..<n], slot_payloads = replicate n (replicate b 0)\<rparr>)"

definition RingOpen :: "OpenOptions \<Rightarrow> bool \<Rightarrow> bool \<Rightarrow> bool \<Rightarrow> ring \<Rightarrow> ring_error + ring" where
  "RingOpen opts opened statted mapped file =
     (if opt_path opts = [] then Inl EmptyPath
      else if \<not> opened then Inl OpenError
      else if \<not> statted \<or> map_bytes file < 64 then Inl TooSmall
      else if \<not> mapped then Inl MmapError
      else if hmagic (hdr file) \<noteq> magic_of (opt_kind opts) then Inl MagicMismatch
      else if hversion (hdr file) \<noteq> kCurrentVersion then Inl VersionMismatch
      else if opt_slot_count opts \<noteq> 0 \<and> hslot_count (hdr file) \<noteq> opt_slot_count opts then Inl SlotCountMismatch
      else if opt_slot_bytes opts \<noteq> 0 \<and> hslot_bytes (hdr file) \<noteq> opt_slot_bytes opts then Inl SlotBytesMismatch
      else if \<not> IsPow2 (hslot_count (hdr file)) then Inl NotPow2
      else Inr file)"

subsection \<open>The steps of a producer and of a consumer\<close>

definition nslots :: "ring \<Rightarrow> nat" where
  "nslots r = unat (hslot_count (hdr r))"

text \<open>\<open>pos & mask\<close> for a power of two, and the two accessors of a slot.\<close>

definition slot_at :: "ring \<Rightarrow> nat \<Rightarrow> nat" where
  "slot_at r pos = pos mod nslots r"

definition slot_seq :: "ring \<Rightarrow> nat \<Rightarrow> nat" where
  "slot_seq r pos = slot_seqs r ! slot_at r pos"

definition slot_payload :: "ring \<Rightarrow> nat \<Rightarrow> bytes" where
  "slot_payload r pos = slot_payloads r ! slot_at r pos"

datatype push_pc =
    PushIdle
  | PushLoaded bytes nat
  | PushSeq bytes nat nat
  | PushClaimed bytes nat
  | PushWritten bytes nat

datatype pop_pc =
    PopIdle
  | PopLoaded nat
  | PopSeq nat nat
  | PopClaimed nat
  | PopRead nat bytes

text \<open>
  One step of \<open>try_push\<close>; \<open>payload\<close> is the argument of the call when the thread is idle, \<open>weak\<close> makes the
  exchange fail. The last component is the return value, if the call returns.
\<close>

fun push_step :: "bytes \<Rightarrow> bool \<Rightarrow> push_pc \<Rightarrow> ring \<Rightarrow> push_pc \<times> ring \<times> bool option" where
  "push_step payload weak PushIdle r =
     (if length payload > unat (hslot_bytes (hdr r)) then (PushIdle, r, Some False)
      else (PushLoaded payload (head_pos r), r, None))"
| "push_step payload weak (PushLoaded x pos) r = (PushSeq x pos (slot_seq r pos), r, None)"
| "push_step payload weak (PushSeq x pos s) r =
     (let diff = int s - int pos in
      if diff = 0 then
        (if head_pos r = pos \<and> \<not> weak then (PushClaimed x pos, r\<lparr>head_pos := pos + 1\<rparr>, None)
         else (PushLoaded x (head_pos r), r, None))
      else if diff < 0 then (PushIdle, r, Some False)
      else (PushLoaded x (head_pos r), r, None))"
| "push_step payload weak (PushClaimed x pos) r =
     (PushWritten x pos,
      r\<lparr>slot_payloads := (slot_payloads r)[slot_at r pos := x @ drop (length x) (slot_payload r pos)]\<rparr>, None)"
| "push_step payload weak (PushWritten x pos) r =
     (PushIdle, r\<lparr>slot_seqs := (slot_seqs r)[slot_at r pos := pos + 1]\<rparr>, Some True)"

text \<open>One step of \<open>try_pop\<close>; the return value \<open>Some None\<close> is \<open>false\<close>.\<close>

fun pop_step :: "bool \<Rightarrow> pop_pc \<Rightarrow> ring \<Rightarrow> pop_pc \<times> ring \<times> bytes option option" where
  "pop_step weak PopIdle r = (PopLoaded (tail_pos r), r, None)"
| "pop_step weak (PopLoaded pos) r = (PopSeq pos (slot_seq r pos), r, None)"
| "pop_step weak (PopSeq pos s) r =
     (let diff = int s - int (pos + 1) in
      if diff = 0 then
        (if tail_pos r = pos \<and> \<not> weak then (PopClaimed pos, r\<lparr>tail_pos := pos + 1\<rparr>, None)
         else (PopLoaded (tail_pos r), r, None))
      else if diff < 0 then (PopIdle, r, Some None)
      else (PopLoaded (tail_pos r), r, None))"
| "pop_step weak (PopClaimed pos) r = (PopRead pos (slot_payload r pos), r, None)"
| "pop_step weak (PopRead pos out) r =
     (PopIdle, r\<lparr>slot_seqs := (slot_seqs r)[slot_at r pos := pos + nslots r]\<rparr>, Some (Some out))"

definition approx_size :: "ring \<Rightarrow> nat" where
  "approx_size r = (if head_pos r \<ge> tail_pos r then head_pos r - tail_pos r else 0)"

text \<open>\<open>try_push\<close> and \<open>try_pop\<close> by a thread that runs alone; \<open>None\<close>: the call did not return within the fuel.\<close>

fun push_alone :: "nat \<Rightarrow> bytes \<Rightarrow> push_pc \<Rightarrow> ring \<Rightarrow> (bool \<times> ring) option" where
  "push_alone 0 x pc r = None"
| "push_alone (Suc n) x pc r = (case push_step x False pc r of
     (pc', r', Some b) \<Rightarrow> Some (b, r') | (pc', r', None) \<Rightarrow> push_alone n x pc' r')"

fun pop_alone :: "nat \<Rightarrow> pop_pc \<Rightarrow> ring \<Rightarrow> (bytes option \<times> ring) option" where
  "pop_alone 0 pc r = None"
| "pop_alone (Suc n) pc r = (case pop_step False pc r of
     (pc', r', Some b) \<Rightarrow> Some (b, r') | (pc', r', None) \<Rightarrow> pop_alone n pc' r')"

subsection \<open>Any number of threads\<close>

text \<open>
  The ring, the program counter of every producer and consumer, and two histories: the payload of each
  claimed position, and the results of the completed calls of \<open>try_pop\<close> with their positions.
\<close>

record conf =
  rg :: ring
  pushers :: "nat \<Rightarrow> push_pc"
  poppers :: "nat \<Rightarrow> pop_pc"
  claims :: "bytes list"
  returned :: "(nat \<times> bytes) list"

definition new_claim :: "push_pc \<Rightarrow> bytes list" where
  "new_claim pc = (case pc of PushClaimed x pos \<Rightarrow> [x] | _ \<Rightarrow> [])"

definition new_return :: "pop_pc \<Rightarrow> (nat \<times> bytes) list" where
  "new_return pc = (case pc of PopRead pos out \<Rightarrow> [(pos, out)] | _ \<Rightarrow> [])"

inductive ring_step :: "conf \<Rightarrow> conf \<Rightarrow> bool" where
  push: "push_step x weak (pushers c t) (rg c) = (pc, r, res) \<Longrightarrow>
    ring_step c (c\<lparr>rg := r, pushers := (pushers c)(t := pc), claims := claims c @ new_claim pc\<rparr>)"
| pop: "pop_step weak (poppers c t) (rg c) = (pc, r, res) \<Longrightarrow>
    ring_step c (c\<lparr>rg := r, poppers := (poppers c)(t := pc), returned := returned c @ new_return (poppers c t)\<rparr>)"

definition conf_new :: "ring \<Rightarrow> conf" where
  "conf_new r = \<lparr>rg = r, pushers = \<lambda>_. PushIdle, poppers = \<lambda>_. PopIdle, claims = [], returned = []\<rparr>"

inductive ring_run :: "ring \<Rightarrow> conf \<Rightarrow> bool" for r where
  start: "ring_run r (conf_new r)"
| step: "ring_run r c \<Longrightarrow> ring_step c c' \<Longrightarrow> ring_run r c'"

text \<open>The position a thread has claimed.\<close>

fun push_owns :: "push_pc \<Rightarrow> nat option" where
  "push_owns (PushClaimed x pos) = Some pos"
| "push_owns (PushWritten x pos) = Some pos"
| "push_owns _ = None"

fun pop_owns :: "pop_pc \<Rightarrow> nat option" where
  "pop_owns (PopClaimed pos) = Some pos"
| "pop_owns (PopRead pos out) = Some pos"
| "pop_owns _ = None"

text \<open>
  The invariant. Slot \<open>i\<close> currently serves the position \<open>L i\<close>; its sequence number is \<open>L i\<close> until the
  payload is published and \<open>L i + 1\<close> until the slot is released for \<open>L i + n\<close>.
\<close>

definition laps_ok :: "nat \<Rightarrow> nat \<Rightarrow> nat \<Rightarrow> (nat \<Rightarrow> nat) \<Rightarrow> (nat \<Rightarrow> nat) \<Rightarrow> bool" where
  "laps_ok n hp tp L S \<longleftrightarrow> tp \<le> hp \<and> (\<forall>i < n. L i mod n = i \<and> (S i = L i \<or> S i = L i + 1 \<and> L i < hp) \<and> (S i = L i \<longrightarrow> tp \<le> L i)) \<and>
     (\<forall>p < hp. p \<le> L (p mod n)) \<and> (\<forall>p \<ge> tp. L (p mod n) \<le> p)"

definition carries :: "bytes list \<Rightarrow> nat \<Rightarrow> bytes \<Rightarrow> bool" where
  "carries cl p b \<longleftrightarrow> take (length (cl ! p)) b = cl ! p"

fun push_ok :: "nat \<Rightarrow> nat \<Rightarrow> nat \<Rightarrow> (nat \<Rightarrow> nat) \<Rightarrow> (nat \<Rightarrow> nat) \<Rightarrow> (nat \<Rightarrow> bytes) \<Rightarrow> bytes list \<Rightarrow> push_pc \<Rightarrow> bool" where
  "push_ok n sb hp L S D cl PushIdle = True"
| "push_ok n sb hp L S D cl (PushLoaded x p) = (length x \<le> sb \<and> p \<le> hp)"
| "push_ok n sb hp L S D cl (PushSeq x p s) = (length x \<le> sb \<and> p \<le> hp \<and> s \<le> S (p mod n))"
| "push_ok n sb hp L S D cl (PushClaimed x p) = (length x \<le> sb \<and> p < hp \<and> L (p mod n) = p \<and> S (p mod n) = p \<and> cl ! p = x)"
| "push_ok n sb hp L S D cl (PushWritten x p) =
     (length x \<le> sb \<and> p < hp \<and> L (p mod n) = p \<and> S (p mod n) = p \<and> cl ! p = x \<and> carries cl p (D (p mod n)))"

fun pop_ok :: "nat \<Rightarrow> nat \<Rightarrow> (nat \<Rightarrow> nat) \<Rightarrow> (nat \<Rightarrow> nat) \<Rightarrow> bytes list \<Rightarrow> pop_pc \<Rightarrow> bool" where
  "pop_ok n tp L S cl PopIdle = True"
| "pop_ok n tp L S cl (PopLoaded p) = (p \<le> tp)"
| "pop_ok n tp L S cl (PopSeq p s) = (p \<le> tp \<and> s \<le> S (p mod n))"
| "pop_ok n tp L S cl (PopClaimed p) = (p < tp \<and> L (p mod n) = p \<and> S (p mod n) = p + 1)"
| "pop_ok n tp L S cl (PopRead p out) = (p < tp \<and> L (p mod n) = p \<and> S (p mod n) = p + 1 \<and> carries cl p out)"

definition exclusive :: "(nat \<Rightarrow> nat option) \<Rightarrow> bool" where
  "exclusive f \<longleftrightarrow> (\<forall>t t' p. f t = Some p \<longrightarrow> f t' = Some p \<longrightarrow> t = t')"

definition shape_ok :: "nat \<Rightarrow> nat \<Rightarrow> ring \<Rightarrow> bool" where
  "shape_ok n sb r \<longleftrightarrow> nslots r = n \<and> unat (hslot_bytes (hdr r)) = sb \<and> length (slot_seqs r) = n \<and> length (slot_payloads r) = n \<and>
     (\<forall>b \<in> set (slot_payloads r). length b = sb)"

definition data_ok :: "nat \<Rightarrow> (nat \<Rightarrow> nat) \<Rightarrow> (nat \<Rightarrow> nat) \<Rightarrow> (nat \<Rightarrow> bytes) \<Rightarrow> bytes list \<Rightarrow> bool" where
  "data_ok n L S D cl \<longleftrightarrow> (\<forall>i < n. S i = L i + 1 \<longrightarrow> carries cl (L i) (D i))"

definition history_ok :: "nat \<Rightarrow> bytes list \<Rightarrow> (nat \<Rightarrow> nat option) \<Rightarrow> (nat \<times> bytes) list \<Rightarrow> bool" where
  "history_ok tp cl own ret \<longleftrightarrow> distinct (map fst ret) \<and>
     (\<forall>e \<in> set ret. fst e < tp \<and> carries cl (fst e) (snd e) \<and> (\<forall>t. own t \<noteq> Some (fst e))) \<and>
     (\<forall>p < tp. p \<in> fst ` set ret \<or> (\<exists>t. own t = Some p))"

definition ring_ok ::
    "nat \<Rightarrow> nat \<Rightarrow> (nat \<Rightarrow> nat) \<Rightarrow> ring \<Rightarrow> (nat \<Rightarrow> push_pc) \<Rightarrow> (nat \<Rightarrow> pop_pc) \<Rightarrow> bytes list \<Rightarrow> (nat \<times> bytes) list \<Rightarrow> bool" where
  "ring_ok n sb L r P C cl ret \<longleftrightarrow>
     shape_ok n sb r \<and> laps_ok n (head_pos r) (tail_pos r) L ((!) (slot_seqs r)) \<and> length cl = head_pos r \<and>
     data_ok n L ((!) (slot_seqs r)) ((!) (slot_payloads r)) cl \<and>
     (\<forall>t. push_ok n sb (head_pos r) L ((!) (slot_seqs r)) ((!) (slot_payloads r)) cl (P t)) \<and>
     (\<forall>t. pop_ok n (tail_pos r) L ((!) (slot_seqs r)) cl (C t)) \<and>
     exclusive (push_owns \<circ> P) \<and> exclusive (pop_owns \<circ> C) \<and>
     history_ok (tail_pos r) cl (pop_owns \<circ> C) ret"

definition ring_state :: "nat \<Rightarrow> nat \<Rightarrow> (nat \<Rightarrow> nat) \<Rightarrow> conf \<Rightarrow> bool" where
  "ring_state n sb L c \<longleftrightarrow> ring_ok n sb L (rg c) (pushers c) (poppers c) (claims c) (returned c)"

subsection \<open>Sequence numbers\<close>

lemma next_lap:
  fixes a b n :: nat
  assumes "a mod n = b mod n" and "a < b"
  shows "a + n \<le> b"
proof -
  have "n dvd b - a" using assms mod_eq_dvd_iff_nat [of a b n] by simp
  with assms(2) show ?thesis using dvd_imp_le [of n "b - a"] by simp
qed

lemma lap_slot:
  assumes laps: "laps_ok n hp tp L S" and two: "2 \<le> n"
  shows "L (p mod n) mod n = p mod n"
  using laps two by (simp add: laps_ok_def)

lemma lap_seq:
  assumes laps: "laps_ok n hp tp L S" and two: "2 \<le> n"
  shows "S (p mod n) = L (p mod n) \<or> S (p mod n) = L (p mod n) + 1 \<and> L (p mod n) < hp"
  using laps two by (simp add: laps_ok_def)

lemma lap_claim:
  assumes laps: "laps_ok n hp tp L S" and two: "2 \<le> n" and a: "hp \<le> S (hp mod n)"
  shows "L (hp mod n) = hp" "S (hp mod n) = hp" "laps_ok n (hp + 1) tp L S"
proof -
  have le: "L (hp mod n) \<le> hp" using laps by (simp add: laps_ok_def)
  have "\<not> L (hp mod n) < hp" using next_lap [of "L (hp mod n)" n hp] lap_slot [OF laps two, of hp] lap_seq [OF laps two, of hp] a two by auto
  with le show L: "L (hp mod n) = hp" by simp
  with lap_seq [OF laps two, of hp] show "S (hp mod n) = hp" by simp
  show "laps_ok n (hp + 1) tp L S" using laps L unfolding laps_ok_def by (auto simp: less_Suc_eq)
qed

lemma lap_publish:
  assumes laps: "laps_ok n hp tp L S" and two: "2 \<le> n" and a: "L (p mod n) = p" and "p < hp"
  shows "laps_ok n hp tp L (S(p mod n := p + 1))"
  using assms unfolding laps_ok_def by auto

lemma lap_take:
  assumes laps: "laps_ok n hp tp L S" and two: "2 \<le> n" and a: "tp + 1 \<le> S (tp mod n)"
  shows "L (tp mod n) = tp" "S (tp mod n) = tp + 1" "tp < hp" "laps_ok n hp (tp + 1) L S"
proof -
  have le: "L (tp mod n) \<le> tp" using laps by (simp add: laps_ok_def)
  with lap_seq [OF laps two, of tp] a show L: "L (tp mod n) = tp" and S: "S (tp mod n) = tp + 1" and lt: "tp < hp" by auto
  have "tp + 1 \<le> L i" if "i < n" "S i = L i" for i
  proof -
    have "tp \<le> L i" "L i mod n = i" using laps that by (simp_all add: laps_ok_def)
    moreover have "L i \<noteq> tp" using that S L \<open>L i mod n = i\<close> by auto
    ultimately show ?thesis by simp
  qed
  with laps lt show "laps_ok n hp (tp + 1) L S" unfolding laps_ok_def by auto
qed

lemma lap_release:
  assumes laps: "laps_ok n hp tp L S" and two: "2 \<le> n" and a: "L (p mod n) = p" and b: "p < tp"
  shows "laps_ok n hp tp (L(p mod n := p + n)) (S(p mod n := p + n))"
proof -
  let ?i = "p mod n"
  have "tp \<le> p + n"
  proof (rule ccontr)
    assume "\<not> tp \<le> p + n"
    then have "p + n < hp" using laps by (simp add: laps_ok_def)
    then have "p + n \<le> L ((p + n) mod n)" using laps by (simp only: laps_ok_def)
    with a two show False by simp
  qed
  moreover have "p + n \<le> q" if "tp \<le> q" "q mod n = ?i" for q using next_lap [of p n q] that b by simp
  moreover have "q \<le> p + n" if "q < hp" "q mod n = ?i" for q
  proof -
    have "q \<le> L (q mod n)" using laps that(1) by (simp add: laps_ok_def)
    with that(2) a show ?thesis by simp
  qed
  ultimately show ?thesis using laps unfolding laps_ok_def by auto
qed

lemma room_left:
  assumes laps: "laps_ok n hp tp L S" and two: "2 \<le> n"
  shows "hp \<le> tp + n"
proof (rule ccontr)
  assume "\<not> hp \<le> tp + n"
  then have "tp + n \<le> L ((tp + n) mod n)" using laps by (simp only: laps_ok_def)
  moreover have "L (tp mod n) \<le> tp" using laps by (simp add: laps_ok_def)
  ultimately show False using two by simp
qed

subsection \<open>What the steps of one thread leave to the others\<close>

lemma push_ok_hp: "push_ok n sb hp L S D cl pc \<Longrightarrow> length cl = hp \<Longrightarrow> push_ok n sb (hp + 1) L S D (cl @ [x]) pc"
  by (cases pc) (auto simp: nth_append carries_def)

lemma push_ok_seq:
  "push_ok n sb hp L S D cl pc \<Longrightarrow> push_owns pc \<noteq> Some p \<Longrightarrow> L (i) = p \<Longrightarrow> S (i) \<le> v \<Longrightarrow>
   push_ok n sb hp L (S(i := v)) D cl pc"
  by (cases pc) auto

lemma push_ok_data:
  "push_ok n sb hp L S D cl pc \<Longrightarrow> push_owns pc \<noteq> Some p \<Longrightarrow> L (i) = p \<Longrightarrow> push_ok n sb hp L S (D(i := b)) cl pc"
  by (cases pc) auto

lemma push_ok_release:
  "push_ok n sb hp L S D cl pc \<Longrightarrow> L (i) = p \<Longrightarrow> S (i) = p + 1 \<Longrightarrow> p + 1 \<le> v \<Longrightarrow>
   push_ok n sb hp (L(i := v)) (S(i := v)) D cl pc"
  by (cases pc) auto

lemma pop_ok_claim: "pop_ok n tp L S cl pc \<Longrightarrow> tp \<le> length cl \<Longrightarrow> pop_ok n tp L S (cl @ [x]) pc"
  by (cases pc) (auto simp: nth_append carries_def)

lemma pop_ok_tp: "pop_ok n tp L S cl pc \<Longrightarrow> pop_ok n (tp + 1) L S cl pc"
  by (cases pc) auto

lemma pop_ok_seq:
  "pop_ok n tp L S cl pc \<Longrightarrow> L (i) = p \<Longrightarrow> S (i) = p \<Longrightarrow> pop_ok n tp L (S(i := p + 1)) cl pc"
  by (cases pc) auto

lemma pop_ok_release:
  "pop_ok n tp L S cl pc \<Longrightarrow> pop_owns pc \<noteq> Some p \<Longrightarrow> L (i) = p \<Longrightarrow> S (i) \<le> v \<Longrightarrow>
   pop_ok n tp (L(i := v)) (S(i := v)) cl pc"
  by (cases pc) auto

lemma exclusive_drop: "exclusive f \<Longrightarrow> exclusive (f(t := None))"
  by (auto simp: exclusive_def)

lemma exclusive_add: "exclusive f \<Longrightarrow> (\<And>t'. f t' \<noteq> Some p) \<Longrightarrow> exclusive (f(t := Some p))"
  by (auto simp: exclusive_def)

lemma owns_upd: "f \<circ> g(t := x) = (f \<circ> g)(t := f x)"
  by (simp add: fun_eq_iff)

lemma push_owned_lt: "push_ok n sb hp L S D cl pc \<Longrightarrow> push_owns pc = Some p \<Longrightarrow> p < hp"
  by (cases pc) auto

lemma pop_owned_lt: "pop_ok n tp L S cl pc \<Longrightarrow> pop_owns pc = Some p \<Longrightarrow> p < tp"
  by (cases pc) auto

lemma nth_update_fun: "i < length xs \<Longrightarrow> (!) (xs[i := v]) = ((!) xs)(i := v)"
  by (auto simp: fun_eq_iff nth_list_update)

lemma history_claim: "history_ok tp cl own ret \<Longrightarrow> tp \<le> length cl \<Longrightarrow> history_ok tp (cl @ [x]) own ret"
  by (auto simp: history_ok_def carries_def nth_append)

lemma history_take:
  assumes "history_ok tp cl own ret" and "own t = None" and "\<And>t' p. own t' = Some p \<Longrightarrow> p < tp"
  shows "history_ok (tp + 1) cl (own(t := Some tp)) ret"
proof -
  have "p \<in> fst ` set ret \<or> (\<exists>t'. (own(t := Some tp)) t' = Some p)" if "p < tp + 1" for p
  proof (cases "p = tp")
    case False
    with that assms(1) have "p \<in> fst ` set ret \<or> (\<exists>t'. own t' = Some p)" by (simp add: history_ok_def)
    with assms(2) show ?thesis by (auto simp: fun_upd_apply) (metis option.distinct(1))
  qed (auto intro: exI [of _ t])
  with assms(1) show ?thesis unfolding history_ok_def by auto
qed

lemma history_return:
  assumes "history_ok tp cl own ret" and "own t = Some p" and "exclusive own" and "p < tp" and "carries cl p out"
  shows "history_ok tp cl (own(t := None)) (ret @ [(p, out)])"
proof -
  have new: "p \<notin> fst ` set ret" using assms(1,2) by (auto simp: history_ok_def)
  have only: "own t' \<noteq> Some p" if "t' \<noteq> t" for t' using assms(2,3) that by (auto simp: exclusive_def)
  have "q \<in> fst ` set (ret @ [(p, out)]) \<or> (\<exists>t'. (own(t := None)) t' = Some q)" if "q < tp" for q
  proof (cases "q = p")
    case False
    with that assms(1) have "q \<in> fst ` set ret \<or> (\<exists>t'. own t' = Some q)" by (simp add: history_ok_def)
    then show ?thesis
    proof
      assume "\<exists>t'. own t' = Some q"
      then obtain t' where "own t' = Some q" ..
      with assms(2) False have "(own(t := None)) t' = Some q" by auto
      then show ?thesis by blast
    qed simp
  qed simp
  with assms(1,4,5) new only show ?thesis unfolding history_ok_def by auto
qed

subsection \<open>Every step keeps the invariant\<close>

lemma push_quiet:
  assumes "ring_ok n sb L r P C cl ret" and "push_owns (P t) = None" and "push_owns pc = None"
    and "push_ok n sb (head_pos r) L ((!) (slot_seqs r)) ((!) (slot_payloads r)) cl pc"
  shows "ring_ok n sb L r (P(t := pc)) C cl ret"
proof -
  have "push_owns \<circ> P(t := pc) = push_owns \<circ> P" using assms(2,3) by (simp add: owns_upd fun_upd_idem_iff)
  then show ?thesis using assms(1,4) unfolding ring_ok_def by (simp add: fun_upd_apply)
qed

lemma pop_quiet:
  assumes "ring_ok n sb L r P C cl ret" and "pop_owns (C t) = pop_owns pc"
    and "pop_ok n (tail_pos r) L ((!) (slot_seqs r)) cl pc"
  shows "ring_ok n sb L r P (C(t := pc)) cl ret"
proof -
  have "pop_owns \<circ> C(t := pc) = pop_owns \<circ> C" using assms(2) by (simp add: owns_upd fun_upd_idem_iff)
  then show ?thesis using assms(1,3) unfolding ring_ok_def by (simp add: fun_upd_apply)
qed

lemma push_claim:
  assumes "ring_ok n sb L r P C cl ret" and "2 \<le> n" and "P t = PushSeq x p p" and "head_pos r = p"
  shows "ring_ok n sb L (r\<lparr>head_pos := p + 1\<rparr>) (P(t := PushClaimed x p)) C (cl @ [x]) ret"
proof -
  let ?S = "(!) (slot_seqs r)"
  have R: "laps_ok n p (tail_pos r) L ?S" "length cl = p" "\<forall>t. push_ok n sb p L ?S ((!) (slot_payloads r)) cl (P t)"
    "data_ok n L ?S ((!) (slot_payloads r)) cl"
    "\<forall>t. pop_ok n (tail_pos r) L ?S cl (C t)" "exclusive (push_owns \<circ> P)" "history_ok (tail_pos r) cl (pop_owns \<circ> C) ret"
    using assms(1,4) by (simp_all add: ring_ok_def)
  have "push_ok n sb p L ?S ((!) (slot_payloads r)) cl (PushSeq x p p)" using R(3) assms(3) by metis
  then have x: "length x \<le> sb" "p \<le> ?S (p mod n)" by simp_all
  note cl = lap_claim [OF R(1) assms(2) x(2)]
  have tp: "tail_pos r \<le> p" using R(1) by (simp add: laps_ok_def)
  have "push_ok n sb (p + 1) L ?S ((!) (slot_payloads r)) (cl @ [x]) ((P(t := PushClaimed x p)) t')" for t'
  proof (cases "t' = t")
    case True
    then show ?thesis using x(1) cl(1,2) R(2) by (simp add: nth_append)
  next
    case False
    then show ?thesis using push_ok_hp R(2,3) by simp
  qed
  moreover have "pop_ok n (tail_pos r) L ?S (cl @ [x]) (C t')" for t' using R(5) pop_ok_claim tp R(2) by simp
  moreover have "exclusive (push_owns \<circ> P(t := PushClaimed x p))"
    unfolding owns_upd using R(3,6) push_owned_lt by (auto intro!: exclusive_add) (metis less_irrefl)
  moreover have "data_ok n L ?S ((!) (slot_payloads r)) (cl @ [x])"
  proof -
    have "L i < p" if "i < n" "?S i = L i + 1" for i using R(1) that by (auto simp: laps_ok_def)
    with R(2,4) show ?thesis by (auto simp: data_ok_def carries_def nth_append)
  qed
  moreover have "history_ok (tail_pos r) (cl @ [x]) (pop_owns \<circ> C) ret" using history_claim R(2,7) tp by simp
  ultimately show ?thesis using assms(1) cl(3) R(2) unfolding ring_ok_def by (simp add: shape_ok_def nslots_def assms(4) del: fun_upd_apply)
qed

lemma push_write:
  assumes "ring_ok n sb L r P C cl ret" and "P t = PushClaimed x p" and "2 \<le> n"
  shows "ring_ok n sb L (r\<lparr>slot_payloads := (slot_payloads r)[slot_at r p := x @ drop (length x) (slot_payload r p)]\<rparr>)
    (P(t := PushWritten x p)) C cl ret"
proof -
  let ?S = "(!) (slot_seqs r)" and ?D = "(!) (slot_payloads r)" and ?i = "p mod n" and ?b = "x @ drop (length x) (slot_payload r p)"
  have R: "shape_ok n sb r" "\<forall>t. push_ok n sb (head_pos r) L ?S ?D cl (P t)" "data_ok n L ?S ?D cl" "exclusive (push_owns \<circ> P)"
    using assms(1) by (simp_all add: ring_ok_def)
  have i: "slot_at r p = ?i" "?i < length (slot_payloads r)" using R(1) assms(3) by (simp_all add: shape_ok_def slot_at_def)
  have "push_ok n sb (head_pos r) L ?S ?D cl (PushClaimed x p)" using R(2) assms(2) by metis
  then have x: "length x \<le> sb" "p < head_pos r" "L ?i = p" "?S ?i = p" "cl ! p = x" by simp_all
  have own: "push_owns (P t') \<noteq> Some p" if "t' \<noteq> t" for t'
    using R(4) assms(2) that unfolding exclusive_def by (metis comp_apply push_owns.simps(1))
  have "push_ok n sb (head_pos r) L ?S (?D(?i := ?b)) cl ((P(t := PushWritten x p)) t')" for t'
  proof (cases "t' = t")
    case True
    then show ?thesis using x by (simp add: carries_def)
  next
    case False
    then show ?thesis using push_ok_data [OF R(2) [rule_format, of t'] own [OF False], of ?i] x(3) by simp
  qed
  moreover have "data_ok n L ?S (?D(?i := ?b)) cl" using R(3) x(3,4) by (simp add: data_ok_def)
  moreover have "push_owns \<circ> P(t := PushWritten x p) = push_owns \<circ> P" using assms(2) by (simp add: owns_upd fun_upd_idem_iff)
  moreover have "shape_ok n sb (r\<lparr>slot_payloads := (slot_payloads r)[slot_at r p := ?b]\<rparr>)"
  proof -
    have "slot_payload r p \<in> set (slot_payloads r)" using i by (simp add: slot_payload_def)
    then have "length ?b = sb" using R(1) x(1) by (simp add: shape_ok_def)
    with R(1) show ?thesis by (auto simp: shape_ok_def nslots_def dest: set_update_subset_insert [THEN subsetD])
  qed
  ultimately show ?thesis using assms(1) unfolding ring_ok_def by (simp add: i nth_update_fun del: fun_upd_apply)
qed

lemma push_publish:
  assumes "ring_ok n sb L r P C cl ret" and "P t = PushWritten x p" and "2 \<le> n"
  shows "ring_ok n sb L (r\<lparr>slot_seqs := (slot_seqs r)[slot_at r p := p + 1]\<rparr>) (P(t := PushIdle)) C cl ret"
proof -
  let ?S = "(!) (slot_seqs r)" and ?D = "(!) (slot_payloads r)" and ?i = "p mod n"
  have R: "shape_ok n sb r" "\<forall>t. push_ok n sb (head_pos r) L ?S ?D cl (P t)" "data_ok n L ?S ?D cl" "exclusive (push_owns \<circ> P)"
    "laps_ok n (head_pos r) (tail_pos r) L ?S" "\<forall>t. pop_ok n (tail_pos r) L ?S cl (C t)"
    using assms(1) by (simp_all add: ring_ok_def)
  have i: "slot_at r p = ?i" "?i < length (slot_seqs r)" using R(1) assms(3) by (simp_all add: shape_ok_def slot_at_def)
  have "push_ok n sb (head_pos r) L ?S ?D cl (PushWritten x p)" using R(2) assms(2) by metis
  then have x: "p < head_pos r" "L ?i = p" "?S ?i = p" "carries cl p (?D ?i)" by simp_all
  have own: "push_owns (P t') \<noteq> Some p" if "t' \<noteq> t" for t'
    using R(4) assms(2) that unfolding exclusive_def by (metis comp_apply push_owns.simps(2))
  have "push_ok n sb (head_pos r) L (?S(?i := p + 1)) ?D cl ((P(t := PushIdle)) t')" for t'
  proof (cases "t' = t")
    case False
    then show ?thesis using push_ok_seq [OF R(2) [rule_format, of t'] own [OF False], of ?i] x(2,3) by simp
  qed simp
  moreover have "pop_ok n (tail_pos r) L (?S(?i := p + 1)) cl (C t')" for t'
    using pop_ok_seq [OF R(6) [rule_format, of t'], of ?i] x(2,3) by simp
  moreover have "data_ok n L (?S(?i := p + 1)) ?D cl" using R(3) x(2,4) by (simp add: data_ok_def)
  moreover have "exclusive (push_owns \<circ> P(t := PushIdle))" using exclusive_drop [OF R(4)] by (simp add: owns_upd)
  moreover have "shape_ok n sb (r\<lparr>slot_seqs := (slot_seqs r)[slot_at r p := p + 1]\<rparr>)" using R(1) by (simp add: shape_ok_def nslots_def)
  ultimately show ?thesis using assms(1) lap_publish [OF R(5) assms(3) x(2,1)] unfolding ring_ok_def
    by (simp add: i nth_update_fun del: fun_upd_apply)
qed

lemma pop_take:
  assumes "ring_ok n sb L r P C cl ret" and "2 \<le> n" and "C t = PopSeq p (p + 1)" and "tail_pos r = p"
  shows "ring_ok n sb L (r\<lparr>tail_pos := p + 1\<rparr>) P (C(t := PopClaimed p)) cl ret"
proof -
  let ?S = "(!) (slot_seqs r)"
  have R: "laps_ok n (head_pos r) p L ?S" "\<forall>t. pop_ok n p L ?S cl (C t)" "exclusive (pop_owns \<circ> C)" "history_ok p cl (pop_owns \<circ> C) ret"
    using assms(1,4) by (simp_all add: ring_ok_def)
  have "pop_ok n p L ?S cl (PopSeq p (p + 1))" using R(2) assms(3) by metis
  then have "p + 1 \<le> ?S (p mod n)" by simp
  note tk = lap_take [OF R(1) assms(2) this]
  have lt: "q < p" if "(pop_owns \<circ> C) t' = Some q" for t' q using R(2) pop_owned_lt that by fastforce
  have "pop_ok n (p + 1) L ?S cl ((C(t := PopClaimed p)) t')" for t'
  proof (cases "t' = t")
    case True
    then show ?thesis using tk(1,2) by simp
  next
    case False
    then show ?thesis using pop_ok_tp R(2) by simp
  qed
  moreover have "exclusive (pop_owns \<circ> C(t := PopClaimed p))"
    unfolding owns_upd pop_owns.simps using R(3) lt by (intro exclusive_add) auto
  moreover have "history_ok (p + 1) cl (pop_owns \<circ> C(t := PopClaimed p)) ret"
    unfolding owns_upd pop_owns.simps by (rule history_take) (use R(4) lt assms(3) in auto)
  ultimately show ?thesis using assms(1) tk(4) unfolding ring_ok_def
    by (simp add: shape_ok_def nslots_def assms(4) del: fun_upd_apply)
qed

lemma pop_release:
  assumes "ring_ok n sb L r P C cl ret" and "C t = PopRead p out" and "2 \<le> n"
  shows "ring_ok n sb (L(p mod n := p + n)) (r\<lparr>slot_seqs := (slot_seqs r)[slot_at r p := p + nslots r]\<rparr>) P (C(t := PopIdle)) cl
    (ret @ [(p, out)])"
proof -
  let ?S = "(!) (slot_seqs r)" and ?D = "(!) (slot_payloads r)" and ?i = "p mod n"
  have R: "shape_ok n sb r" "\<forall>t. push_ok n sb (head_pos r) L ?S ?D cl (P t)" "data_ok n L ?S ?D cl" "exclusive (pop_owns \<circ> C)"
    "laps_ok n (head_pos r) (tail_pos r) L ?S" "\<forall>t. pop_ok n (tail_pos r) L ?S cl (C t)"
    "history_ok (tail_pos r) cl (pop_owns \<circ> C) ret"
    using assms(1) by (simp_all add: ring_ok_def)
  have i: "slot_at r p = ?i" "?i < length (slot_seqs r)" "nslots r = n" using R(1) assms(3) by (simp_all add: shape_ok_def slot_at_def)
  have "pop_ok n (tail_pos r) L ?S cl (PopRead p out)" using R(6) assms(2) by metis
  then have x: "p < tail_pos r" "L ?i = p" "?S ?i = p + 1" "carries cl p out" by simp_all
  have own: "pop_owns (C t') \<noteq> Some p" if "t' \<noteq> t" for t'
    using R(4) assms(2) that unfolding exclusive_def by (metis comp_apply pop_owns.simps(2))
  have "pop_ok n (tail_pos r) (L(?i := p + n)) (?S(?i := p + n)) cl ((C(t := PopIdle)) t')" for t'
  proof (cases "t' = t")
    case False
    then show ?thesis using pop_ok_release [OF R(6) [rule_format, of t'] own [OF False], of ?i] x(2,3) assms(3) by simp
  qed simp
  moreover have "push_ok n sb (head_pos r) (L(?i := p + n)) (?S(?i := p + n)) ?D cl (P t')" for t'
    using push_ok_release [OF R(2) [rule_format, of t'], of ?i p] x(2,3) assms(3) by simp
  moreover have "data_ok n (L(?i := p + n)) (?S(?i := p + n)) ?D cl" using R(3) by (simp add: data_ok_def)
  moreover have "exclusive (pop_owns \<circ> C(t := PopIdle))" using exclusive_drop [OF R(4)] by (simp add: owns_upd)
  moreover have "history_ok (tail_pos r) cl (pop_owns \<circ> C(t := PopIdle)) (ret @ [(p, out)])"
    unfolding owns_upd pop_owns.simps by (rule history_return) (use R(4,7) x assms(2) in simp_all)
  moreover have "shape_ok n sb (r\<lparr>slot_seqs := (slot_seqs r)[slot_at r p := p + nslots r]\<rparr>)" using R(1) by (simp add: shape_ok_def nslots_def)
  ultimately show ?thesis using assms(1) lap_release [OF R(5) assms(3) x(2,1)] unfolding ring_ok_def
    by (simp add: i nth_update_fun del: fun_upd_apply)
qed

lemma push_step_ok:
  assumes "ring_ok n sb L r P C cl ret" and "2 \<le> n" and "push_step x weak (P t) r = (pc, r', res)"
  shows "ring_ok n sb L r' (P(t := pc)) C (cl @ new_claim pc) ret"
proof -
  have R: "shape_ok n sb r" "push_ok n sb (head_pos r) L ((!) (slot_seqs r)) ((!) (slot_payloads r)) cl (P t)"
    using assms(1) by (simp_all add: ring_ok_def)
  show ?thesis
  proof (cases "P t")
    case (PushWritten y p)
    with assms(3) push_publish [OF assms(1) PushWritten assms(2)] show ?thesis by (auto simp: new_claim_def)
  next
    case (PushClaimed y p)
    show ?thesis using assms(3) push_write [OF assms(1) PushClaimed assms(2)] PushClaimed by (auto simp: new_claim_def)
  next
    case (PushSeq y p s)
    then show ?thesis using assms(3) R push_claim [OF assms(1,2), of t y p] push_quiet [OF assms(1), of t]
      by (auto simp: Let_def new_claim_def split: if_splits)
  qed (use assms(3) R push_quiet [OF assms(1), of t pc] in
        \<open>auto simp: new_claim_def slot_seq_def slot_at_def shape_ok_def split: if_splits\<close>)
qed

lemma pop_step_ok:
  assumes "ring_ok n sb L r P C cl ret" and "2 \<le> n" and "pop_step weak (C t) r = (pc, r', res)"
  shows "\<exists>L'. ring_ok n sb L' r' P (C(t := pc)) cl (ret @ new_return (C t))"
proof -
  have R: "shape_ok n sb r" "pop_ok n (tail_pos r) L ((!) (slot_seqs r)) cl (C t)" "data_ok n L ((!) (slot_seqs r)) ((!) (slot_payloads r)) cl"
    using assms(1) by (simp_all add: ring_ok_def)
  show ?thesis
  proof (cases "C t")
    case (PopRead p out)
    with assms(3) pop_release [OF assms(1) PopRead assms(2)] show ?thesis by (auto simp: new_return_def)
  next
    case (PopClaimed p)
    have "p mod n < n" using assms(2) by simp
    then have "carries cl (L (p mod n)) (slot_payloads r ! (p mod n))" using R(2) PopClaimed R(3) [unfolded data_ok_def, rule_format, of "p mod n"] by simp
    then have "carries cl p (slot_payload r p)" using R PopClaimed by (simp add: slot_payload_def slot_at_def shape_ok_def)
    then show ?thesis using assms(3) R PopClaimed pop_quiet [OF assms(1), of t pc] by (auto simp: new_return_def)
  next
    case (PopSeq p s)
    have s: "s = Suc p" if "int s - (1 + int p) = 0" using that by simp
    show ?thesis using assms(3) R PopSeq pop_take [OF assms(1,2), of t p] pop_quiet [OF assms(1), of t]
      by (auto simp: Let_def new_return_def s split: if_splits intro!: exI [of _ L])
  qed (use assms(3) R pop_quiet [OF assms(1), of t pc] in
        \<open>auto simp: new_return_def slot_seq_def slot_at_def shape_ok_def intro!: exI [of _ L]\<close>)
qed

lemma ring_step_ok: "ring_step c c' \<Longrightarrow> ring_state n sb L c \<Longrightarrow> 2 \<le> n \<Longrightarrow> \<exists>L'. ring_state n sb L' c'"
  by (induction rule: ring_step.induct) (auto simp: ring_state_def dest: push_step_ok pop_step_ok)

lemma ring_new_ok:
  assumes "RingCreate opts opened truncated mapped = Inr r" and "2 \<le> unat (opt_slot_count opts)"
  shows "ring_state (unat (opt_slot_count opts)) (unat (opt_slot_bytes opts)) id (conf_new r)"
  using assms
  by (auto simp: RingCreate_def Let_def ring_state_def ring_ok_def conf_new_def shape_ok_def nslots_def laps_ok_def data_ok_def
      exclusive_def history_ok_def comp_def split: if_splits)

lemma ring_run_ok:
  assumes "ring_run r c" and "RingCreate opts opened truncated mapped = Inr r" and "2 \<le> unat (opt_slot_count opts)"
  shows "\<exists>L. ring_state (unat (opt_slot_count opts)) (unat (opt_slot_bytes opts)) L c"
  using assms by (induction rule: ring_run.induct) (blast intro: ring_new_ok ring_step_ok)+

subsection \<open>Schedules\<close>

text \<open>A schedule names the thread of each step, with the payload for a producer that starts a call.\<close>

datatype ring_act = Push nat bytes | Pop nat

definition act :: "conf \<Rightarrow> ring_act \<Rightarrow> conf" where
  "act c a = (case a of
     Push t x \<Rightarrow> (case push_step x False (pushers c t) (rg c) of (pc, r, res) \<Rightarrow>
       c\<lparr>rg := r, pushers := (pushers c)(t := pc), claims := claims c @ new_claim pc\<rparr>)
   | Pop t \<Rightarrow> (case pop_step False (poppers c t) (rg c) of (pc, r, res) \<Rightarrow>
       c\<lparr>rg := r, poppers := (poppers c)(t := pc), returned := returned c @ new_return (poppers c t)\<rparr>))"

lemma act_step: "ring_step c (act c a)"
  by (cases a) (auto simp: act_def split: prod.splits intro: ring_step.intros)

lemma schedule_run: "ring_run r c \<Longrightarrow> ring_run r (foldl act c as)"
  by (induction "as" arbitrary: c) (auto intro: ring_run.step act_step)

subsection \<open>Properties\<close>

text \<open>C12: In every interleaving of any number of producers and consumers on a created ring with at least
two slots, a position is returned by at most one completed \<open>try_pop\<close>, with the payload of the producer that
claimed it in front; a position below \<open>tail_pos\<close> is returned or in the hands of exactly one consumer; the
cursors are at most the number of slots apart; and no slot is in the hands of two threads.\<close>

theorem ring_delivers_once:
  assumes "RingCreate opts opened truncated mapped = Inr r" and "2 \<le> unat (opt_slot_count opts)" and "ring_run r c"
  shows "distinct (map fst (returned c)) \<and>
    (\<forall>(p, out) \<in> set (returned c). p < tail_pos (rg c) \<and> take (length (claims c ! p)) out = claims c ! p) \<and>
    (\<forall>p < tail_pos (rg c). p \<in> fst ` set (returned c) \<or> (\<exists>!t. pop_owns (poppers c t) = Some p)) \<and>
    length (claims c) = head_pos (rg c) \<and> tail_pos (rg c) \<le> head_pos (rg c) \<and>
    head_pos (rg c) \<le> tail_pos (rg c) + unat (opt_slot_count opts) \<and>
    (\<forall>t t' p q. push_owns (pushers c t) = Some p \<longrightarrow> push_owns (pushers c t') = Some q \<longrightarrow>
       p mod unat (opt_slot_count opts) = q mod unat (opt_slot_count opts) \<longrightarrow> t = t') \<and>
    (\<forall>t t' p q. pop_owns (poppers c t) = Some p \<longrightarrow> pop_owns (poppers c t') = Some q \<longrightarrow>
       p mod unat (opt_slot_count opts) = q mod unat (opt_slot_count opts) \<longrightarrow> t = t') \<and>
    (\<forall>t t' p q. push_owns (pushers c t) = Some p \<longrightarrow> pop_owns (poppers c t') = Some q \<longrightarrow>
       p mod unat (opt_slot_count opts) \<noteq> q mod unat (opt_slot_count opts))"
proof -
  let ?n = "unat (opt_slot_count opts)" and ?sb = "unat (opt_slot_bytes opts)" and ?S = "(!) (slot_seqs (rg c))"
  obtain L where "ring_state ?n ?sb L c" using ring_run_ok [OF assms(3,1,2)] by blast
  then have R: "laps_ok ?n (head_pos (rg c)) (tail_pos (rg c)) L ?S" "length (claims c) = head_pos (rg c)"
    "\<And>t. push_ok ?n ?sb (head_pos (rg c)) L ?S ((!) (slot_payloads (rg c))) (claims c) (pushers c t)"
    "\<And>t. pop_ok ?n (tail_pos (rg c)) L ?S (claims c) (poppers c t)"
    "exclusive (push_owns \<circ> pushers c)" "exclusive (pop_owns \<circ> poppers c)"
    "history_ok (tail_pos (rg c)) (claims c) (pop_owns \<circ> poppers c) (returned c)"
    by (simp_all add: ring_state_def ring_ok_def)
  have push: "L (p mod ?n) = p \<and> ?S (p mod ?n) = p" if "push_owns (pushers c t) = Some p" for t p
    using R(3) [of t] that by (cases "pushers c t") auto
  have pop: "L (p mod ?n) = p \<and> ?S (p mod ?n) = p + 1" if "pop_owns (poppers c t) = Some p" for t p
    using R(4) [of t] that by (cases "poppers c t") auto
  have "t = t'" if "push_owns (pushers c t) = Some p" "push_owns (pushers c t') = Some q" "p mod ?n = q mod ?n" for t t' p q
    using R(5) push [OF that(1)] push [OF that(2)] that unfolding exclusive_def by (metis comp_apply)
  moreover have "t = t'" if "pop_owns (poppers c t) = Some p" "pop_owns (poppers c t') = Some q" "p mod ?n = q mod ?n" for t t' p q
    using R(6) pop [OF that(1)] pop [OF that(2)] that unfolding exclusive_def by (metis comp_apply)
  moreover have "p mod ?n \<noteq> q mod ?n" if "push_owns (pushers c t) = Some p" "pop_owns (poppers c t') = Some q" for t t' p q
  proof
    assume e: "p mod ?n = q mod ?n"
    show False using push [OF that(1)] pop [OF that(2)] unfolding e by linarith
  qed
  moreover have "\<exists>!t. pop_owns (poppers c t) = Some p" if "pop_owns (poppers c t') = Some p" for t' p
    using R(6) that unfolding exclusive_def by (metis comp_apply)
  moreover have "p \<in> fst ` set (returned c) \<or> (\<exists>t. pop_owns (poppers c t) = Some p)" if "p < tail_pos (rg c)" for p
    using R(7) that by (simp add: history_ok_def)
  moreover have "tail_pos (rg c) \<le> head_pos (rg c)" using R(1) by (simp add: laps_ok_def)
  moreover have "\<forall>(p, out) \<in> set (returned c). p < tail_pos (rg c) \<and> take (length (claims c ! p)) out = claims c ! p"
    "distinct (map fst (returned c))" using R(7) by (auto simp: history_ok_def carries_def)
  ultimately show ?thesis using R(2) room_left [OF R(1) assms(2)] by (intro conjI) blast+
qed

text \<open>Producers 0 and 1 interleave, then consumer 7 runs; the second payload is shorter than a slot.\<close>

definition two_slot_ring :: OpenOptions where
  "two_slot_ring = \<lparr>opt_path = ''r'', opt_kind = Sq, opt_slot_count = 2, opt_slot_bytes = 2\<rparr>"

definition small_ring :: ring where
  "small_ring = \<lparr>map_bytes = 320, hdr = \<lparr>hmagic = 0x5153564B, hversion = 1, hslot_count = 2, hslot_bytes = 2\<rparr>,
     head_pos = 0, tail_pos = 0, slot_seqs = [0, 1], slot_payloads = [[0, 0], [0, 0]]\<rparr>"

definition small_run :: conf where
  "small_run = foldl act (conf_new small_ring)
     (Push 0 [5, 6] # Push 1 [9] # Push 0 [] # Push 1 [] # Push 1 [] # Push 0 [] # replicate 2 (Push 1 []) @ replicate 5 (Push 0 []) @
      replicate 5 (Pop 7))"

theorem ring_delivers_once_witness:
  "RingCreate two_slot_ring True True True = Inr small_ring \<and> ring_run small_ring small_run \<and>
   returned small_run = [(0, [9, 0])] \<and> claims small_run = [[9], [5, 6]] \<and>
   take (length (claims small_run ! 0)) [9, 0] = claims small_run ! 0 \<and>
   length (claims small_run) = head_pos (rg small_run) \<and> head_pos (rg small_run) \<le> tail_pos (rg small_run) + 2"
proof -
  have two: "replicate 2 x = [x, x]" for x :: 'a by (simp add: numeral_2_eq_2)
  have c: "RingCreate two_slot_ring True True True = Inr small_ring"
    by (simp add: RingCreate_def two_slot_ring_def small_ring_def IsPow2_def SlotStride_def kSlotBaseOffset_def kCacheLine_def
        magic_of_def kSqMagic_def kCurrentVersion_def Let_def upt_rec two)
  have r: "ring_run small_ring small_run" unfolding small_run_def by (intro schedule_run ring_run.start)
  have "returned small_run = [(0, [9, 0])]" "claims small_run = [[9], [5, 6]]"
    by code_simp+
  then show ?thesis using c r ring_delivers_once [OF c _ r] by (simp add: two_slot_ring_def)
qed

definition one_slot_ring :: OpenOptions where
  "one_slot_ring = \<lparr>opt_path = ''r'', opt_kind = Sq, opt_slot_count = 1, opt_slot_bytes = 1\<rparr>"

lemmas push_alone_numeral = push_alone.simps(2) [of "pred_numeral k" for k, folded numeral_eq_Suc]

lemma pop_spins:
  "nslots r = 1 \<Longrightarrow> tail_pos r = 0 \<Longrightarrow> slot_seqs r = [2] \<Longrightarrow>
   pop_alone k PopIdle r = None \<and> pop_alone k (PopLoaded 0) r = None \<and> pop_alone k (PopSeq 0 2) r = None"
  by (induction k) (simp_all add: slot_seq_def slot_at_def)

text \<open>C40: \<open>Create\<close> accepts a ring of one slot, where the sequence number that publishes an item is also the one
that frees the slot: the second push succeeds and overwrites the first item, and after it no \<open>try_pop\<close> returns,
whatever number of steps it is given.\<close>

theorem one_slot_stuck:
  "\<exists>r r1 r2. RingCreate one_slot_ring True True True = Inr r \<and> push_alone 5 [1] PushIdle r = Some (True, r1) \<and>
     push_alone 5 [2] PushIdle r1 = Some (True, r2) \<and> slot_payloads r2 = [[2]] \<and> (\<forall>k. pop_alone k PopIdle r2 = None)"
  by (simp add: RingCreate_def one_slot_ring_def IsPow2_def Let_def push_alone_numeral slot_seq_def slot_at_def
      nslots_def slot_payload_def pop_spins)

end
