(* ===== verification/NvmeTier.thy ===== *)
theory NvmeTier
  imports PosixFile
begin

section \<open>The NVMe tier\<close>

text \<open>
  \<open>tier/nvme_tier.{h,cpp}\<close> with the blocking file backend: a pool of fixed slots in one file, a free
  stack and an index. \<open>Put\<close> takes the mutex for the index and writes the slot after releasing it, so it
  is also given as its parts: \<open>put_claim\<close>, the write, and \<open>put_undo\<close> when the write fails. The answers of
  the kernel are inputs. Without a descriptor every read and write fails. io_uring and SPDK are
  third-party code and need builds of their own.
\<close>

record NvmeOptions =
  opt_nvme_path :: bytes
  opt_pool_bytes :: nat
  opt_nslot_bytes :: nat
  opt_fdatasync :: bool
  opt_use_spdk :: bool

record NvmeTier =
  nv_fd :: bool
  nv_pool :: bytes
  nv_slot_bytes :: nat
  nv_slot_count :: nat
  nv_sync :: bool
  nv_free :: "nat list"
  nv_index :: "bytes \<rightharpoonup> nat \<times> nat"
  nv_in_use :: nat

datatype nvme_error = InvalidOptions | NvmeOpenFailed | NvmeTruncateFailed

text \<open>\<open>Create\<close> in a build without SPDK. The pool keeps what an existing file holds.\<close>

definition NvmeCreate :: "NvmeOptions \<Rightarrow> bool \<Rightarrow> bool \<Rightarrow> bytes \<Rightarrow> nvme_error + NvmeTier" where
  "NvmeCreate opts opened truncated old =
     (if \<not> opt_use_spdk opts \<and> opt_nvme_path opts = [] \<or> opt_pool_bytes opts = 0 \<or> opt_nslot_bytes opts = 0 \<or>
         opt_pool_bytes opts < opt_nslot_bytes opts \<or> opt_pool_bytes opts mod opt_nslot_bytes opts \<noteq> 0 then Inl InvalidOptions
      else if \<not> opt_use_spdk opts \<and> \<not> opened then Inl NvmeOpenFailed
      else if \<not> opt_use_spdk opts \<and> \<not> truncated then Inl NvmeTruncateFailed
      else let n = unat (of_nat (opt_pool_bytes opts div opt_nslot_bytes opts) :: u32) in
        Inr \<lparr>nv_fd = \<not> opt_use_spdk opts,
             nv_pool = take (opt_pool_bytes opts) old @ replicate (opt_pool_bytes opts - length old) 0,
             nv_slot_bytes = opt_nslot_bytes opts, nv_slot_count = n, nv_sync = opt_fdatasync opts,
             nv_free = [0..<n], nv_index = Map.empty, nv_in_use = 0\<rparr>)"

definition pwrite :: "bytes \<Rightarrow> nat \<Rightarrow> bytes \<Rightarrow> bytes" where
  "pwrite d off f = take off f @ d @ drop (off + length d) f"

fun PwriteAll :: "wres list \<Rightarrow> bytes \<Rightarrow> nat \<Rightarrow> bytes \<Rightarrow> (bool \<times> bytes) option" where
  "PwriteAll ws [] off f = Some (True, f)"
| "PwriteAll [] (b # p) off f = None"
| "PwriteAll (WEintr # ws) (b # p) off f = PwriteAll ws (b # p) off f"
| "PwriteAll (WErr # ws) (b # p) off f = Some (False, f)"
| "PwriteAll (Wrote n # ws) (b # p) off f =
     PwriteAll ws (drop n (b # p)) (off + length (take n (b # p))) (pwrite (take n (b # p)) off f)"

fun PreadAll :: "rres list \<Rightarrow> bytes \<Rightarrow> bytes \<Rightarrow> bytes option option" where
  "PreadAll rs [] acc = Some (Some acc)"
| "PreadAll [] (b # p) acc = None"
| "PreadAll (REintr # rs) (b # p) acc = PreadAll rs (b # p) acc"
| "PreadAll (RStop # rs) (b # p) acc = Some None"
| "PreadAll (RGot n # rs) (b # p) acc = (if n = 0 then Some None else PreadAll rs (drop n (b # p)) (acc @ take n (b # p)))"

text \<open>The locked parts of \<open>Put\<close>: the slot of the key, taken from the stack for a new key; and the undo.\<close>

definition put_claim :: "bytes \<Rightarrow> nat \<Rightarrow> NvmeTier \<Rightarrow> (nat \<times> NvmeTier) option" where
  "put_claim k n t = (case nv_index t k of
     Some (slot, old) \<Rightarrow> Some (slot, t\<lparr>nv_index := (nv_index t)(k \<mapsto> (slot, n))\<rparr>)
   | None \<Rightarrow> (case nv_free t of
       [] \<Rightarrow> None
     | slot # free \<Rightarrow> Some (slot, t\<lparr>nv_free := free, nv_index := (nv_index t)(k \<mapsto> (slot, n)), nv_in_use := nv_in_use t + 1\<rparr>)))"

definition NvmeErase :: "bytes \<Rightarrow> NvmeTier \<Rightarrow> bool \<times> NvmeTier" where
  "NvmeErase k t = (case nv_index t k of
     None \<Rightarrow> (False, t)
   | Some (slot, n) \<Rightarrow>
       (True, t\<lparr>nv_free := slot # nv_free t, nv_index := (nv_index t)(k := None), nv_in_use := nv_in_use t - 1\<rparr>))"

definition put_undo :: "bytes \<Rightarrow> NvmeTier \<Rightarrow> NvmeTier" where
  "put_undo k t = snd (NvmeErase k t)"

definition NvmePut :: "wres list \<Rightarrow> bool \<Rightarrow> bytes \<Rightarrow> bytes \<Rightarrow> NvmeTier \<Rightarrow> (bool \<times> NvmeTier) option" where
  "NvmePut ws synced k d t =
     (if d = [] \<or> length d > nv_slot_bytes t then Some (False, t)
      else case put_claim k (length d) t of
        None \<Rightarrow> Some (False, t)
      | Some (slot, t) \<Rightarrow>
          (case (if nv_fd t then PwriteAll ws d (slot * nv_slot_bytes t) (nv_pool t) else Some (False, nv_pool t)) of
             None \<Rightarrow> None
           | Some (write_ok, pool) \<Rightarrow>
               (let t = t\<lparr>nv_pool := pool\<rparr> in
                if \<not> write_ok then Some (False, put_undo k t)
                else if nv_sync t \<and> nv_fd t \<and> \<not> synced then Some (False, t)
                else Some (True, t))))"

definition slot_range :: "NvmeTier \<Rightarrow> nat \<Rightarrow> nat \<Rightarrow> bytes" where
  "slot_range t slot n = take n (drop (slot * nv_slot_bytes t) (nv_pool t))"

text \<open>\<open>Get\<close> into a vector; the inner \<open>None\<close> is \<open>false\<close>.\<close>

definition NvmeGet :: "rres list \<Rightarrow> bytes \<Rightarrow> NvmeTier \<Rightarrow> bytes option option" where
  "NvmeGet rs k t = (case nv_index t k of
     None \<Rightarrow> Some None
   | Some (slot, n) \<Rightarrow> if nv_fd t then PreadAll rs (slot_range t slot n) [] else (if n = 0 then Some (Some []) else Some None))"

text \<open>\<open>Get\<close> into a buffer of the caller.\<close>

definition NvmeGetInto :: "rres list \<Rightarrow> nat \<Rightarrow> bytes \<Rightarrow> NvmeTier \<Rightarrow> bytes option option" where
  "NvmeGetInto rs dst_capacity k t = (case nv_index t k of
     None \<Rightarrow> Some None
   | Some (slot, n) \<Rightarrow> if dst_capacity < n then Some None else NvmeGet rs k t)"

definition NvmeContains :: "bytes \<Rightarrow> NvmeTier \<Rightarrow> bool" where
  "NvmeContains k t \<longleftrightarrow> nv_index t k \<noteq> None"

definition NvmeUsedBytes :: "NvmeTier \<Rightarrow> nat" where
  "NvmeUsedBytes t = (\<Sum>k \<in> dom (nv_index t). snd (the (nv_index t k)))"

subsection \<open>Invariant and contents\<close>

definition nvme_inv :: "NvmeTier \<Rightarrow> bool" where
  "nvme_inv t \<longleftrightarrow> distinct (nv_free t) \<and> finite (dom (nv_index t)) \<and> nv_in_use t = card (dom (nv_index t)) \<and>
     (\<forall>k slot n. nv_index t k = Some (slot, n) \<longrightarrow> slot < nv_slot_count t \<and> slot \<notin> set (nv_free t) \<and> 0 < n \<and> n \<le> nv_slot_bytes t) \<and>
     (\<forall>j k slot n m. nv_index t j = Some (slot, n) \<longrightarrow> nv_index t k = Some (slot, m) \<longrightarrow> j = k) \<and>
     set (nv_free t) \<subseteq> {..<nv_slot_count t} \<and> length (nv_free t) + nv_in_use t = nv_slot_count t \<and>
     nv_slot_count t * nv_slot_bytes t \<le> length (nv_pool t)"

definition nvme_contents :: "NvmeTier \<Rightarrow> bytes \<rightharpoonup> bytes" where
  "nvme_contents t k = map_option (\<lambda>(slot, n). slot_range t slot n) (nv_index t k)"

subsection \<open>Writes stay in their slot\<close>

lemma length_pwrite: "off + length d \<le> length f \<Longrightarrow> length (pwrite d off f) = length f"
  by (simp add: pwrite_def)

lemma pwrite_pwrite:
  "off + length a + length b \<le> length f \<Longrightarrow> pwrite b (off + length a) (pwrite a off f) = pwrite (a @ b) off f"
  by (simp add: pwrite_def ac_simps)

lemma PwriteAll_spec:
  "PwriteAll ws d off f = Some (ok, f') \<Longrightarrow> off + length d \<le> length f \<Longrightarrow>
     \<exists>m \<le> length d. f' = pwrite (take m d) off f \<and> (ok \<longrightarrow> m = length d)"
proof (induction ws d off f rule: PwriteAll.induct)
  case (1 ws off f)
  then show ?case by (auto simp: pwrite_def)
next
  case (4 ws b p off f)
  then show ?case by (auto simp: pwrite_def)
next
  case (5 n ws b p off f)
  let ?d = "b # p"
  let ?a = "take n ?d"
  have "PwriteAll ws (drop n ?d) (off + length ?a) (pwrite ?a off f) = Some (ok, f')" using 5 by simp
  moreover have "off + length ?a + length (drop n ?d) \<le> length (pwrite ?a off f)"
    using 5(3) by (subst length_pwrite) auto
  ultimately obtain m where m: "m \<le> length (drop n ?d)" "f' = pwrite (take m (drop n ?d)) (off + length ?a) (pwrite ?a off f)"
    "ok \<longrightarrow> m = length (drop n ?d)" using 5(1) by blast
  have "pwrite (take m (drop n ?d)) (off + length ?a) (pwrite ?a off f) = pwrite (?a @ take m (drop n ?d)) off f"
    by (rule pwrite_pwrite) (use m(1) 5(3) in auto)
  also have "?a @ take m (drop n ?d) = take (length ?a + m) ?d" by (simp add: take_add min_def)
  finally show ?case using m by (intro exI [of _ "length ?a + m"]) auto
qed auto

lemma pwrite_nth: "off + length d \<le> length f \<Longrightarrow> y < off \<or> off + length d \<le> y \<Longrightarrow> pwrite d off f ! y = f ! y"
  by (auto simp: pwrite_def nth_append)

lemma slot_disjoint:
  assumes "i \<noteq> j" "m \<le> sb" "n \<le> sb" "j * sb + m \<le> length f" "length d = m"
  shows "take n (drop (i * sb) (pwrite d (j * sb) f)) = take n (drop (i * sb) (f :: bytes))"
proof (rule nth_equalityI)
  show "length (take n (drop (i * sb) (pwrite d (j * sb) f))) = length (take n (drop (i * sb) f))"
    using assms(4,5) by (simp add: length_pwrite)
next
  fix x
  assume "x < length (take n (drop (i * sb) (pwrite d (j * sb) f)))"
  then have x: "x < n" "i * sb + x < length f" using assms(4,5) by (auto simp: length_pwrite)
  have "i * sb + x < j * sb \<or> j * sb + m \<le> i * sb + x"
  proof (cases "i < j")
    case True
    then have "i * sb + sb \<le> j * sb" by (metis Suc_leI add.commute mult_Suc mult_le_mono1)
    then show ?thesis using x(1) assms(3) by linarith
  next
    case False
    then have "j * sb + sb \<le> i * sb" using assms(1) by (metis Suc_leI add.commute linorder_neqE_nat mult_Suc mult_le_mono1)
    then show ?thesis using assms(2) by linarith
  qed
  then show "take n (drop (i * sb) (pwrite d (j * sb) f)) ! x = take n (drop (i * sb) f) ! x"
    using x assms(4,5) pwrite_nth [of "j * sb" d f "i * sb + x"] by (simp add: length_pwrite)
qed

lemma slot_written: "length d \<le> sb \<Longrightarrow> j * sb \<le> length f \<Longrightarrow> take (length d) (drop (j * sb) (pwrite d (j * sb) f)) = d"
  by (simp add: pwrite_def)

lemma nvme_slot_in_pool: "nvme_inv t \<Longrightarrow> slot < nv_slot_count t \<Longrightarrow> n \<le> nv_slot_bytes t \<Longrightarrow> slot * nv_slot_bytes t + n \<le> length (nv_pool t)"
proof -
  assume a: "nvme_inv t" "slot < nv_slot_count t" "n \<le> nv_slot_bytes t"
  have "slot * nv_slot_bytes t + nv_slot_bytes t \<le> nv_slot_count t * nv_slot_bytes t"
    using a(2) by (metis Suc_leI add.commute mult_Suc mult_le_mono1)
  with a show ?thesis by (simp add: nvme_inv_def)
qed

subsection \<open>Each operation\<close>

lemma put_claim_inv:
  assumes "nvme_inv t" and "put_claim k n t = Some (slot, t')" and "0 < n" "n \<le> nv_slot_bytes t"
  shows "nvme_inv t' \<and> nv_index t' = (nv_index t)(k \<mapsto> (slot, n)) \<and> slot < nv_slot_count t \<and> nv_pool t' = nv_pool t \<and>
    nv_slot_bytes t' = nv_slot_bytes t \<and> nv_slot_count t' = nv_slot_count t \<and> nv_fd t' = nv_fd t \<and> nv_sync t' = nv_sync t \<and>
    (\<forall>q m. q \<noteq> k \<longrightarrow> nv_index t q \<noteq> Some (slot, m))"
proof (cases "nv_index t k")
  case None
  with assms(2) obtain free where f: "nv_free t = slot # free"
    "t' = t\<lparr>nv_free := free, nv_index := (nv_index t)(k \<mapsto> (slot, n)), nv_in_use := nv_in_use t + 1\<rparr>"
    by (auto simp: put_claim_def split: list.splits)
  then have c: "card (dom (nv_index t')) = Suc (card (dom (nv_index t)))" "finite (dom (nv_index t'))"
    using assms(1) None by (auto simp: nvme_inv_def domIff card_insert_disjoint)
  show ?thesis using assms f c None unfolding nvme_inv_def by (auto split: if_splits)
next
  case (Some e)
  then obtain m where e: "e = (slot, m)" "t' = t\<lparr>nv_index := (nv_index t)(k \<mapsto> (slot, n))\<rparr>"
    using assms(2) by (cases e) (auto simp: put_claim_def)
  then have "dom (nv_index t') = dom (nv_index t)" using Some by auto
  then show ?thesis using assms e Some unfolding nvme_inv_def by (auto split: if_splits)
qed

lemma NvmeErase_spec:
  assumes "nvme_inv t" and "NvmeErase k t = (ok, t')"
  shows "nvme_inv t' \<and> nvme_contents t' = (nvme_contents t)(k := None) \<and> ok = (nv_index t k \<noteq> None)"
proof (cases "nv_index t k")
  case None
  with assms show ?thesis by (auto simp: NvmeErase_def nvme_contents_def fun_eq_iff)
next
  case (Some e)
  then obtain slot n where e: "nv_index t k = Some (slot, n)"
    "t' = t\<lparr>nv_free := slot # nv_free t, nv_index := (nv_index t)(k := None), nv_in_use := nv_in_use t - 1\<rparr>" "ok"
    using assms(2) by (cases e) (auto simp: NvmeErase_def)
  have f: "finite (dom (nv_index t))" "k \<in> dom (nv_index t)" "nv_in_use t = card (dom (nv_index t))" using assms(1) e(1) by (auto simp: nvme_inv_def)
  then have "card (dom (nv_index t')) = nv_in_use t - 1" "0 < nv_in_use t" using e(2) by (auto simp: card_gt_0_iff)
  then have "nvme_inv t'" using assms(1) e f unfolding nvme_inv_def by (auto split: if_splits)
  moreover have "nvme_contents t' = (nvme_contents t)(k := None)" by (auto simp: e(2) nvme_contents_def slot_range_def fun_eq_iff)
  ultimately show ?thesis using e by simp
qed

lemma nvme_written:
  assumes inv: "nvme_inv t" and idx: "nv_index t k = Some (slot, length d)" and m: "m \<le> length d"
    and t': "t' = t\<lparr>nv_pool := pwrite (take m d) (slot * nv_slot_bytes t) (nv_pool t)\<rparr>"
  shows "nvme_inv t' \<and> (\<forall>q. q \<noteq> k \<longrightarrow> nvme_contents t' q = nvme_contents t q) \<and> (m = length d \<longrightarrow> nvme_contents t' k = Some d)"
proof -
  have s: "slot < nv_slot_count t" "length d \<le> nv_slot_bytes t" using inv idx by (auto simp: nvme_inv_def)
  have room: "slot * nv_slot_bytes t + m \<le> length (nv_pool t)" using nvme_slot_in_pool [OF inv s(1), of m] s(2) m by simp
  then have "nvme_inv t'" using inv m by (simp add: t' nvme_inv_def length_pwrite)
  moreover have "nvme_contents t' q = nvme_contents t q" if "q \<noteq> k" for q
  proof (cases "nv_index t q")
    case (Some e)
    then obtain j n where e: "nv_index t q = Some (j, n)" by (cases e) auto
    then have "j \<noteq> slot" "n \<le> nv_slot_bytes t" using inv idx that unfolding nvme_inv_def by blast+
    then show ?thesis using slot_disjoint [of j slot m "nv_slot_bytes t" n "nv_pool t" "take m d"] room s(2) m e
      by (simp add: t' nvme_contents_def slot_range_def)
  qed (simp add: t' nvme_contents_def)
  moreover have "nvme_contents t' k = Some d" if "m = length d"
    using idx s slot_written [of d "nv_slot_bytes t" slot "nv_pool t"] room that by (simp add: t' nvme_contents_def slot_range_def)
  ultimately show ?thesis by blast
qed

lemma NvmePut_spec:
  assumes "nvme_inv t" and "NvmePut ws synced k d t = Some (ok, t')"
  shows "nvme_inv t' \<and> (if ok then nvme_contents t' = (nvme_contents t)(k \<mapsto> d)
    else nvme_contents t' = nvme_contents t \<or> nvme_contents t' = (nvme_contents t)(k := None) \<or>
         \<not> synced \<and> nvme_contents t' = (nvme_contents t)(k \<mapsto> d))"
proof (cases "d = [] \<or> length d > nv_slot_bytes t \<or> put_claim k (length d) t = None")
  case True
  then have "NvmePut ws synced k d t = Some (False, t)" by (auto simp: NvmePut_def)
  with assms show ?thesis by simp
next
  case False
  then obtain slot t1 where c: "put_claim k (length d) t = Some (slot, t1)" and d: "0 < length d" "length d \<le> nv_slot_bytes t" by auto
  note cl = put_claim_inv [OF assms(1) c d]
  obtain w pool where w: "(if nv_fd t1 then PwriteAll ws d (slot * nv_slot_bytes t1) (nv_pool t1) else Some (False, nv_pool t1)) = Some (w, pool)"
    using assms(2) False c by (auto simp: NvmePut_def split: option.splits if_splits)
  define t2 where "t2 = t1\<lparr>nv_pool := pool\<rparr>"
  have r: "(ok, t') = (if \<not> w then (False, put_undo k t2) else if nv_sync t2 \<and> nv_fd t2 \<and> \<not> synced then (False, t2) else (True, t2))"
    using assms(2) False c w by (auto simp: NvmePut_def t2_def Let_def split: if_splits)
  have "slot * nv_slot_bytes t1 + length d \<le> length (nv_pool t1)" using nvme_slot_in_pool [of t1 slot "length d"] cl d by simp
  then have "\<exists>m \<le> length d. pool = pwrite (take m d) (slot * nv_slot_bytes t1) (nv_pool t1) \<and> (w \<longrightarrow> m = length d)"
    using w PwriteAll_spec [of ws d "slot * nv_slot_bytes t1" "nv_pool t1" w pool]
    by (cases "nv_fd t1") (auto simp: pwrite_def intro: exI [of _ 0])
  then obtain m where m: "m \<le> length d" "pool = pwrite (take m d) (slot * nv_slot_bytes t1) (nv_pool t1)" "w \<longrightarrow> m = length d" by blast
  have "nv_index t1 k = Some (slot, length d)" using cl by simp
  note wr = nvme_written [OF conjunct1 [OF cl] this m(1), of t2]
  have old: "nvme_contents t1 q = nvme_contents t q" if "q \<noteq> k" for q using cl that by (simp add: nvme_contents_def slot_range_def)
  have t2: "nvme_inv t2" "\<And>q. q \<noteq> k \<Longrightarrow> nvme_contents t2 q = nvme_contents t q" "w \<Longrightarrow> nvme_contents t2 = (nvme_contents t)(k \<mapsto> d)"
    using wr m old by (auto simp: t2_def fun_eq_iff)
  show ?thesis
  proof (cases w)
    case True
    with r t2 show ?thesis by (auto split: if_splits)
  next
    case False
    then have p: "ok = False" "t' = put_undo k t2" using r by auto
    have "(nvme_contents t2)(k := None) = (nvme_contents t)(k := None)" using t2(2) by (auto simp: fun_eq_iff)
    with NvmeErase_spec [OF t2(1), of k "fst (NvmeErase k t2)" t'] p show ?thesis by (simp add: put_undo_def)
  qed
qed

lemma PreadAll_all: "PreadAll rs c acc = Some (Some v) \<Longrightarrow> v = acc @ c"
  by (induction rs c acc rule: PreadAll.induct) (auto split: if_splits)

lemma NvmeGet_sound: "nvme_inv t \<Longrightarrow> NvmeGet rs k t = Some (Some v) \<Longrightarrow> nvme_contents t k = Some v"
  by (fastforce simp: NvmeGet_def nvme_contents_def nvme_inv_def dest: PreadAll_all split: option.splits if_splits)

subsection \<open>Properties\<close>

datatype nvme_op = NPut "wres list" bool bytes bytes | NErase bytes

fun nvme_run :: "nvme_op list \<Rightarrow> NvmeTier \<Rightarrow> NvmeTier option" where
  "nvme_run [] t = Some t"
| "nvme_run (NPut ws synced k d # ops) t = (case NvmePut ws synced k d t of None \<Rightarrow> None | Some (ok, t) \<Rightarrow> nvme_run ops t)"
| "nvme_run (NErase k # ops) t = nvme_run ops (snd (NvmeErase k t))"

lemma NvmeCreate_inv:
  assumes "NvmeCreate opts opened truncated old = Inr t"
  shows "nvme_inv t \<and> nvme_contents t = Map.empty \<and> (nv_fd t \<longleftrightarrow> \<not> opt_use_spdk opts)"
proof -
  let ?n = "unat (of_nat (opt_pool_bytes opts div opt_nslot_bytes opts) :: u32)"
  have "?n \<le> opt_pool_bytes opts div opt_nslot_bytes opts" by (simp add: unsigned_of_nat take_bit_nat_less_eq_self)
  then have "?n * opt_nslot_bytes opts \<le> opt_pool_bytes opts"
    by (metis div_times_less_eq_dividend le_trans mult_le_mono1)
  then show ?thesis using assms
    by (auto simp: NvmeCreate_def Let_def nvme_inv_def nvme_contents_def split: if_splits)
qed

lemma nvme_run_inv: "nvme_run ops t = Some t' \<Longrightarrow> nvme_inv t \<Longrightarrow> nvme_inv t'"
proof (induction ops t rule: nvme_run.induct)
  case (3 k ops t)
  then show ?case using NvmeErase_spec [of t k "fst (NvmeErase k t)" "snd (NvmeErase k t)"] by simp
qed (auto dest: NvmePut_spec split: option.splits prod.splits)

lemma PwriteAll_returns:
  "WErr \<notin> set ws \<Longrightarrow> length d \<le> length (filter (\<lambda>w. case w of Wrote n \<Rightarrow> 0 < n | _ \<Rightarrow> False) ws) \<Longrightarrow>
     \<exists>f'. PwriteAll ws d off f = Some (True, f')"
proof (induction ws d off f rule: PwriteAll.induct)
  case (5 n ws b p off f)
  then show ?case by (cases "n = 0") auto
qed auto

text \<open>C15: In every tier reached from \<open>Create\<close>, whatever writes and synchronisations failed on the way, the slots
are each free or owned by one key. A \<open>Put\<close> that reports success has replaced exactly the value of its key; one
that reports failure has changed no other key; bytes that \<open>Get\<close> returns are the value of the key. With a slot for
the key and a disk that takes the bytes, \<open>Put\<close> succeeds.\<close>

theorem nvme_refines_map:
  assumes "NvmeCreate opts opened truncated old = Inr t0" and "nvme_run ops t0 = Some t"
  shows "nvme_inv t \<and> length (nv_free t) + card (dom (nv_index t)) = nv_slot_count t \<and>
    (\<forall>ws synced k d ok t'. NvmePut ws synced k d t = Some (ok, t') \<longrightarrow>
       nvme_inv t' \<and> (if ok then nvme_contents t' = (nvme_contents t)(k \<mapsto> d)
         else (\<forall>q. q \<noteq> k \<longrightarrow> nvme_contents t' q = nvme_contents t q))) \<and>
    (\<forall>k. nvme_contents (snd (NvmeErase k t)) = (nvme_contents t)(k := None)) \<and>
    (\<forall>rs k v. NvmeGet rs k t = Some (Some v) \<longrightarrow> nvme_contents t k = Some v) \<and>
    (\<forall>ws k d. \<not> opt_use_spdk opts \<longrightarrow> 0 < length d \<longrightarrow> length d \<le> nv_slot_bytes t \<longrightarrow> (nv_index t k \<noteq> None \<or> nv_free t \<noteq> []) \<longrightarrow>
       WErr \<notin> set ws \<longrightarrow> length d \<le> length (filter (\<lambda>w. case w of Wrote n \<Rightarrow> 0 < n | _ \<Rightarrow> False) ws) \<longrightarrow>
       (\<exists>t'. NvmePut ws True k d t = Some (True, t')))"
proof -
  have c: "nvme_inv t0" "nv_fd t0 \<longleftrightarrow> \<not> opt_use_spdk opts" using NvmeCreate_inv [OF assms(1)] by auto
  have inv: "nvme_inv t" using nvme_run_inv [OF assms(2) c(1)] .
  have "nv_fd t = nv_fd t0" using assms(2)
  proof (induction ops t0 rule: nvme_run.induct)
    case (2 ws synced k d ops t)
    have "nv_fd t' = nv_fd t" if "NvmePut ws synced k d t = Some (ok, t')" for ok t'
      using that by (auto simp: NvmePut_def put_claim_def put_undo_def NvmeErase_def Let_def split: option.splits if_splits list.splits prod.splits)
    with 2 show ?case by (auto split: option.splits)
  qed (auto simp: NvmeErase_def split: option.splits prod.splits)
  with c(2) have fd: "nv_fd t \<longleftrightarrow> \<not> opt_use_spdk opts" by simp
  have "\<exists>t'. NvmePut ws True k d t = Some (True, t')"
    if "\<not> opt_use_spdk opts" "0 < length d" "length d \<le> nv_slot_bytes t" "nv_index t k \<noteq> None \<or> nv_free t \<noteq> []" "WErr \<notin> set ws"
      "length d \<le> length (filter (\<lambda>w. case w of Wrote n \<Rightarrow> 0 < n | _ \<Rightarrow> False) ws)" for ws k d
  proof -
    note h = that
    obtain slot t1 where s: "put_claim k (length d) t = Some (slot, t1)"
      using h(4) by (cases "nv_index t k"; cases "nv_free t") (auto simp: put_claim_def)
    have "nv_fd t1" using put_claim_inv [OF inv s h(2,3)] fd h(1) by simp
    moreover obtain f' where "PwriteAll ws d (slot * nv_slot_bytes t1) (nv_pool t1) = Some (True, f')"
      using PwriteAll_returns [OF h(5,6)] by blast
    ultimately show ?thesis using s h(2,3) by (auto simp: NvmePut_def Let_def)
  qed
  moreover have "nvme_contents (snd (NvmeErase k t)) = (nvme_contents t)(k := None)" for k
    using NvmeErase_spec [OF inv, of k "fst (NvmeErase k t)" "snd (NvmeErase k t)"] by simp
  moreover have "nvme_inv t' \<and> (if ok then nvme_contents t' = (nvme_contents t)(k \<mapsto> d)
      else (\<forall>q. q \<noteq> k \<longrightarrow> nvme_contents t' q = nvme_contents t q))" if "NvmePut ws synced k d t = Some (ok, t')" for ws synced k d ok t'
    using NvmePut_spec [OF inv that] by (auto split: if_splits)
  moreover have "length (nv_free t) + card (dom (nv_index t)) = nv_slot_count t" using inv by (simp add: nvme_inv_def)
  ultimately show ?thesis using inv NvmeGet_sound [OF inv] by blast
qed

definition small_nvme :: NvmeOptions where
  "small_nvme = \<lparr>opt_nvme_path = [112], opt_pool_bytes = 8, opt_nslot_bytes = 4, opt_fdatasync = True, opt_use_spdk = False\<rparr>"

definition small_pool :: NvmeTier where
  "small_pool = \<lparr>nv_fd = True, nv_pool = replicate 8 0, nv_slot_bytes = 4, nv_slot_count = 2, nv_sync = True, nv_free = [0, 1],
     nv_index = Map.empty, nv_in_use = 0\<rparr>"

lemma small_nvme_created: "NvmeCreate small_nvme True True [] = Inr small_pool"
  by (simp add: NvmeCreate_def small_nvme_def small_pool_def Let_def upt_rec)

theorem nvme_refines_map_witness:
  "\<exists>t t'. nvme_run [NPut [Wrote 1, WErr] True [1] [5, 6]] small_pool = Some t \<and> nvme_inv t \<and>
     NvmePut [Wrote 1, Wrote 1] True [1] [7, 8] t = Some (True, t')"
proof -
  let ?ops = "[NPut [Wrote 1, WErr] True [1] [5, 6]]"
  obtain t where t: "nvme_run ?ops small_pool = Some t" "nv_slot_bytes t = 4" "nv_free t = [0, 1]"
    by (simp add: small_pool_def NvmePut_def put_claim_def put_undo_def NvmeErase_def Let_def)
  note r = nvme_refines_map [OF small_nvme_created t(1)]
  have "\<exists>t'. NvmePut [Wrote 1, Wrote 1] True [1] [7, 8] t = Some (True, t')"
    using r t(2,3) by (simp add: small_nvme_def)
  with r t(1) show ?thesis by blast
qed

text \<open>C38: \<open>Put\<close> writes its slot after releasing the mutex. When the key is erased in between and the slot goes to
another key, the late write replaces the value that the other \<open>Put\<close> has reported as stored.\<close>

theorem nvme_put_race:
  assumes "nvme_inv t" and "nv_index t k1 = None" "nv_index t k2 = None" and "k1 \<noteq> k2"
    and "put_claim k1 (length d1) t = Some (slot, t1)" and "t2 = snd (NvmeErase k1 t1)"
    and "NvmePut ws synced k2 d2 t2 = Some (True, t3)" and "length d1 = length d2"
    and "t4 = t3\<lparr>nv_pool := pwrite d1 (slot * nv_slot_bytes t3) (nv_pool t3)\<rparr>"
  shows "nvme_contents t3 k2 = Some d2 \<and> nvme_contents t4 k2 = Some d1"
proof -
  obtain free where f: "nv_free t = slot # free" using assms(2,5) by (auto simp: put_claim_def split: list.splits)
  then have t2: "t2 = t" using assms(2,5,6) by (auto simp: put_claim_def NvmeErase_def fun_upd_idem_iff)
  have d: "0 < length d2" "length d2 \<le> nv_slot_bytes t" using assms(7) t2 by (auto simp: NvmePut_def split: if_splits)
  have "nv_index t3 k2 = Some (slot, length d2)"
    using assms(3,7) f d t2 by (auto simp: NvmePut_def put_claim_def put_undo_def Let_def split: option.splits if_splits)
  moreover have p: "nvme_inv t3" "nvme_contents t3 = (nvme_contents t)(k2 \<mapsto> d2)" using NvmePut_spec [OF assms(1)] assms(7) t2 by auto
  ultimately have "nvme_contents t4 k2 = Some d1"
    using nvme_written [OF p(1), of k2 slot d1 "length d1" t4] assms(8,9) by simp
  with p(2) show ?thesis by simp
qed

theorem nvme_put_race_witness:
  "\<exists>t3. NvmePut [Wrote 2] True [2] [7, 8] small_pool = Some (True, t3) \<and>
     nvme_contents (t3\<lparr>nv_pool := pwrite [5, 6] 0 (nv_pool t3)\<rparr>) [2] = Some [5, 6]"
proof -
  let ?t1 = "small_pool\<lparr>nv_free := [1], nv_index := [[1] \<mapsto> (0, Suc (Suc 0))], nv_in_use := 1\<rparr>"
  have c: "put_claim [1] (length [5, 6 :: byte]) small_pool = Some (0, ?t1)" by (simp add: put_claim_def small_pool_def)
  have e: "small_pool = snd (NvmeErase [1] ?t1)" by (simp add: NvmeErase_def small_pool_def fun_eq_iff)
  obtain t3 where p: "NvmePut [Wrote 2] True [2] [7, 8] small_pool = Some (True, t3)"
    by (simp add: NvmePut_def put_claim_def small_pool_def Let_def)
  have i: "nvme_inv small_pool" "nv_index small_pool [1] = None" "nv_index small_pool [2] = None"
    using NvmeCreate_inv [OF small_nvme_created] by (simp_all add: small_pool_def)
  show ?thesis using nvme_put_race [OF i _ c e p _ refl] p by simp
qed

text \<open>In a build without SPDK the option to use it is said to fall back to the file, but the file is not opened:
\<open>Create\<close> succeeds and then every \<open>Put\<close> fails, whatever the disk would answer.\<close>

theorem nvme_spdk_no_fallback:
  assumes "NvmeCreate opts opened truncated old = Inr t0" and "opt_use_spdk opts" and "nvme_run ops t0 = Some t"
  shows "nvme_contents t = Map.empty \<and> (\<forall>ws synced k d. \<exists>t'. NvmePut ws synced k d t = Some (False, t') \<and> nvme_contents t' = Map.empty)"
proof -
  have put: "\<exists>t'. NvmePut ws synced k d t = Some (False, t') \<and> \<not> nv_fd t' \<and> nvme_inv t' \<and> nvme_contents t' = Map.empty"
    if "\<not> nv_fd t" "nvme_inv t" "nvme_contents t = Map.empty" for ws synced k d t
  proof -
    have "\<exists>t'. NvmePut ws synced k d t = Some (False, t') \<and> \<not> nv_fd t' \<and> nv_index t' = (nv_index t)(k := None)"
    proof (cases "d = [] \<or> nv_slot_bytes t < length d")
      case False
      have "nv_index t k = None" using fun_cong [OF that(3), of k] by (simp add: nvme_contents_def)
      with that(1) False show ?thesis
        by (cases "nv_free t") (auto simp: NvmePut_def put_claim_def put_undo_def NvmeErase_def Let_def fun_upd_idem_iff)
    next
      case True
      have "nv_index t k = None" using fun_cong [OF that(3), of k] by (simp add: nvme_contents_def)
      with True that(1) show ?thesis by (auto simp: NvmePut_def fun_upd_idem_iff)
    qed
    then obtain t' where t': "NvmePut ws synced k d t = Some (False, t')" "\<not> nv_fd t'" "nv_index t' = (nv_index t)(k := None)" by blast
    have "nv_index t = Map.empty" using that(3) by (auto simp: nvme_contents_def fun_eq_iff)
    then have "nvme_contents t' = Map.empty" using t'(3) by (auto simp: nvme_contents_def fun_eq_iff)
    with t' NvmePut_spec [OF that(2) t'(1)] show ?thesis by blast
  qed
  have "\<not> nv_fd t0" "nvme_inv t0" "nvme_contents t0 = Map.empty" using NvmeCreate_inv [OF assms(1)] assms(2) by auto
  with assms(3) have "\<not> nv_fd t \<and> nvme_inv t \<and> nvme_contents t = Map.empty"
  proof (induction ops t0 rule: nvme_run.induct)
    case (2 ws synced k d ops t)
    with put [of t ws synced k d] show ?case by auto
  next
    case (3 k ops t)
    then have "nv_index t k = None" using fun_cong [OF 3(5), of k] by (simp add: nvme_contents_def)
    with 3 show ?case by (simp add: NvmeErase_def)
  qed simp
  with put show ?thesis by blast
qed

theorem nvme_spdk_no_fallback_witness:
  "\<exists>t0 t'. NvmeCreate (small_nvme\<lparr>opt_use_spdk := True\<rparr>) True True [] = Inr t0 \<and>
     NvmePut [Wrote 9] True [1] [5] t0 = Some (False, t')"
proof -
  obtain t0 where c: "NvmeCreate (small_nvme\<lparr>opt_use_spdk := True\<rparr>) True True [] = Inr t0"
    by (simp add: NvmeCreate_def small_nvme_def Let_def)
  have "opt_use_spdk (small_nvme\<lparr>opt_use_spdk := True\<rparr>)" by simp
  from nvme_spdk_no_fallback [OF c this nvme_run.simps(1)] c show ?thesis by blast
qed

end
