(* ===== verification/BoundaryGuard.thy ===== *)
theory BoundaryGuard
  imports StdString
begin

section \<open>The egress boundary guard\<close>

text \<open>
  \<open>security/boundary_guard.{h,cpp}\<close> and \<open>tier/guarded_transport.{h,cpp}\<close>: the allow list of hosts and
  networks, the host of a URL, and the HTTP transport that asks the guard before every request. The
  wrapped transport is a parameter that maps a request and the state of the outside world to a result
  and the next state. A port whose digits overflow a \<open>long\<close> is undefined behaviour in the code and
  \<open>None\<close> here.
\<close>

unbundle bit_operations_syntax

subsection \<open>Policies\<close>

datatype Purpose = kColdTier | kKms | kTelemetry | kReplication | kEtcd | kOther

record Endpoint =
  ep_host :: bytes
  ep_port :: u16
  ep_purpose :: Purpose

record Rule =
  host_glob :: bytes
  rule_cidr :: bytes
  rule_purpose :: Purpose

record BoundaryPolicy =
  allow_rules :: "Rule list"
  default_deny :: bool

definition PurposeMatches :: "Purpose \<Rightarrow> Purpose \<Rightarrow> bool" where
  "PurposeMatches rule ep \<longleftrightarrow> rule = kOther \<or> rule = ep"

definition lower :: "byte \<Rightarrow> byte" where
  "lower c = (if 65 \<le> c \<and> c \<le> 90 then c + 32 else c)"

definition Normalize :: "bytes \<Rightarrow> bytes" where
  "Normalize s = (let out = map lower s in if out \<noteq> [] \<and> last out = 46 then butlast out else out)"

definition HostMatchesGlob :: "bytes \<Rightarrow> bytes \<Rightarrow> bool" where
  "HostMatchesGlob host glob =
     (if host = [] \<or> glob = [] then False
      else let h = Normalize host; g = Normalize glob in
        if h = [] \<or> g = [] then False
        else if hd g = 42 then (let sfx = tl g in
          if length h \<le> length sfx then False else drop (length h - length sfx) h = sfx)
        else h = g)"

definition is_digit :: "byte \<Rightarrow> bool" where
  "is_digit c \<longleftrightarrow> 48 \<le> c \<and> c \<le> 57"

text \<open>The end of one octet: refused when it has no digits or is the fifth.\<close>

definition octet_end :: "nat list \<Rightarrow> nat \<Rightarrow> bool \<Rightarrow> nat list option" where
  "octet_end octs cur any = (if \<not> any \<or> cur > 255 \<or> length octs > 3 then None else Some (octs @ [cur]))"

fun octets :: "bytes \<Rightarrow> nat list \<Rightarrow> nat \<Rightarrow> bool \<Rightarrow> nat list option" where
  "octets [] octs cur any = octet_end octs cur any"
| "octets (c # s) octs cur any =
     (if c = 46 then (case octet_end octs cur any of None \<Rightarrow> None | Some octs' \<Rightarrow> octets s octs' 0 False)
      else if is_digit c then
        (let cur' = cur * 10 + unat (c - 48) in if cur' > 255 then None else octets s octs cur' True)
      else None)"

definition parse_v4 :: "bytes \<Rightarrow> u32 option" where
  "parse_v4 s = (case octets s [] 0 False of
     Some [a, b, c, d] \<Rightarrow>
       Some (push_bit 24 (of_nat a) OR push_bit 16 (of_nat b) OR push_bit 8 (of_nat c) OR of_nat d)
   | _ \<Rightarrow> None)"

fun prefix_bits :: "bytes \<Rightarrow> nat \<Rightarrow> nat option" where
  "prefix_bits [] bits = Some bits"
| "prefix_bits (c # s) bits = (if is_digit c then prefix_bits s (bits * 10 + unat (c - 48)) else None)"

definition prefix_mask :: "nat \<Rightarrow> u32" where
  "prefix_mask bits = (if bits = 0 then 0 else push_bit (32 - bits) 0xFFFFFFFF)"

definition IpInCidr :: "bytes \<Rightarrow> bytes \<Rightarrow> bool" where
  "IpInCidr ip cidr =
     (case find_char cidr 47 0 of
        None \<Rightarrow> False
      | Some slash \<Rightarrow>
          (case parse_v4 (substr_len cidr 0 slash) of
             None \<Rightarrow> False
           | Some net \<Rightarrow>
               (case parse_v4 ip of
                  None \<Rightarrow> False
                | Some addr \<Rightarrow>
                    (let pfx = substr cidr (slash + 1) in
                     if pfx = [] \<or> length pfx > 2 then False
                     else (case prefix_bits pfx 0 of
                             None \<Rightarrow> False
                           | Some bits \<Rightarrow> bits \<le> 32 \<and> net AND prefix_mask bits = addr AND prefix_mask bits)))))"

definition rule_allows :: "Rule \<Rightarrow> Endpoint \<Rightarrow> bool" where
  "rule_allows r ep \<longleftrightarrow> PurposeMatches (rule_purpose r) (ep_purpose ep) \<and>
     (host_glob r \<noteq> [] \<and> HostMatchesGlob (ep_host ep) (host_glob r) \<or> rule_cidr r \<noteq> [] \<and> IpInCidr (ep_host ep) (rule_cidr r))"

definition Check :: "BoundaryPolicy \<Rightarrow> Endpoint \<Rightarrow> bool" where
  "Check p ep = (if ep_host ep = [] then False
     else if (\<exists>r \<in> set (allow_rules p). rule_allows r ep) then True
     else \<not> default_deny p)"

subsection \<open>The host of a URL\<close>

definition rfind_char :: "bytes \<Rightarrow> byte \<Rightarrow> nat option" where
  "rfind_char s c = (case find_char (rev s) c 0 of None \<Rightarrow> None | Some i \<Rightarrow> Some (length s - 1 - i))"

text \<open>The digits of a port as a \<open>long\<close>: \<open>None\<close> on overflow, \<open>Some None\<close> when there is another character.\<close>

fun port_digits :: "bytes \<Rightarrow> nat \<Rightarrow> nat option option" where
  "port_digits [] p = Some (Some p)"
| "port_digits (c # s) p = (if \<not> is_digit c then Some None
     else let p' = p * 10 + unat (c - 48) in if p' \<ge> 2 ^ 63 then None else port_digits s p')"

definition HostFromUrl :: "bytes \<Rightarrow> (bytes \<times> u16) option" where
  "HostFromUrl url =
     (case (if take 8 url = lit ''https://'' then Some (443, drop 8 url)
            else if take 7 url = lit ''http://'' then Some (80, drop 7 url) else None) of
        None \<Rightarrow> Some ([], 0)
      | Some (default_port, rest) \<Rightarrow>
          (let authority = (case find_char rest 47 0 of None \<Rightarrow> rest | Some slash \<Rightarrow> substr_len rest 0 slash) in
           if authority = [] then Some ([], 0)
           else let authority = (case rfind_char authority 64 of None \<Rightarrow> authority | Some at \<Rightarrow> substr authority (at + 1)) in
             if authority = [] then Some ([], 0)
             else (case find_char authority 58 0 of
               None \<Rightarrow> Some (authority, default_port)
             | Some colon \<Rightarrow>
                 (let host = substr_len authority 0 colon; port_str = substr authority (colon + 1) in
                  if port_str = [] then Some ([], 0)
                  else (case port_digits port_str 0 of
                          None \<Rightarrow> None
                        | Some None \<Rightarrow> Some ([], 0)
                        | Some (Some p) \<Rightarrow>
                            if p = 0 \<or> p > 65535 then Some ([], 0)
                            else if host = [] then Some ([], 0)
                            else Some (host, of_nat p))))))"

subsection \<open>The guarded transport\<close>

record HttpResult =
  status :: int
  rbody :: bytes
  transport_err :: bool

type_synonym 's transport = "bytes \<Rightarrow> bytes \<Rightarrow> bytes list \<Rightarrow> bytes \<Rightarrow> 's \<Rightarrow> HttpResult \<times> 's"

text \<open>\<open>Request\<close>; the list are the endpoints given to the deny observer.\<close>

definition GuardedRequest ::
    "BoundaryPolicy \<Rightarrow> 's transport \<Rightarrow> bytes \<Rightarrow> bytes \<Rightarrow> bytes list \<Rightarrow> bytes \<Rightarrow> 's \<Rightarrow> (HttpResult \<times> 's \<times> Endpoint list) option" where
  "GuardedRequest policy inner verb url headers body s =
     (case HostFromUrl url of
        None \<Rightarrow> None
      | Some (host, port) \<Rightarrow>
          (let ep = \<lparr>ep_host = host, ep_port = port, ep_purpose = kColdTier\<rparr>;
               allow = (if host = [] then False else Check policy ep) in
           if \<not> allow then Some (\<lparr>status = 0, rbody = [], transport_err = True\<rparr>, s, [ep])
           else (case inner verb url headers body s of (r, s') \<Rightarrow> Some (r, s', []))))"

subsection \<open>Addresses and networks\<close>

text \<open>Decimal and dotted notation.\<close>

fun dec :: "nat \<Rightarrow> bytes" where
  "dec n = (if n < 10 then [48 + of_nat n] else dec (n div 10) @ [48 + of_nat (n mod 10)])"

declare dec.simps [simp del]

definition octet :: "nat \<Rightarrow> u32 \<Rightarrow> nat" where
  "octet k a = unat (drop_bit (8 * k) a AND 255)"

definition dotted :: "u32 \<Rightarrow> bytes" where
  "dotted a = dec (octet 3 a) @ 46 # dec (octet 2 a) @ 46 # dec (octet 1 a) @ 46 # dec (octet 0 a)"

lemma digit_byte:
  assumes "d < 10"
  shows "is_digit (48 + of_nat d)" "unat (of_nat d :: byte) = d" "(48 + of_nat d :: byte) \<noteq> 46" "(48 + of_nat d :: byte) \<noteq> 47"
proof -
  have "d = 0 \<or> d = 1 \<or> d = 2 \<or> d = 3 \<or> d = 4 \<or> d = 5 \<or> d = 6 \<or> d = 7 \<or> d = 8 \<or> d = 9" using assms by arith
  then show "is_digit (48 + of_nat d)" "unat (of_nat d :: byte) = d" "(48 + of_nat d :: byte) \<noteq> 46" "(48 + of_nat d :: byte) \<noteq> 47"
    by (elim disjE; simp add: is_digit_def)+
qed

lemma dec_digits: "c \<in> set (dec n) \<Longrightarrow> is_digit c \<and> c \<noteq> 46 \<and> c \<noteq> 47"
  by (induction n rule: dec.induct) (subst (asm) (2) dec.simps, auto simp: digit_byte split: if_splits)

lemma dec_nonempty [simp]: "dec n \<noteq> []"
  by (subst dec.simps) simp

lemma octets_dec: "m < 10 \<Longrightarrow> cur * 10 + m \<le> 255 \<Longrightarrow>
    octets ((48 + of_nat m) # s) octs cur any = octets s octs (cur * 10 + m) True"
  by (simp add: digit_byte Let_def)

lemma octets_dec_app: "n \<le> 255 \<Longrightarrow> octets (dec n @ s) octs 0 False = octets s octs n True"
proof (induction n arbitrary: s rule: dec.induct)
  case (1 n)
  show ?case
  proof (cases "n < 10")
    case True
    then show ?thesis using octets_dec [of n 0] by (subst dec.simps) simp
  next
    case False
    then have "octets (dec n @ s) octs 0 False = octets (dec (n div 10) @ (48 + of_nat (n mod 10)) # s) octs 0 False"
      by (subst dec.simps) simp
    also have "\<dots> = octets ((48 + of_nat (n mod 10)) # s) octs (n div 10) True" using 1 False by simp
    also have "\<dots> = octets s octs n True" using 1(2) by (subst octets_dec) auto
    finally show ?thesis .
  qed
qed

lemma octet_le: "octet k a \<le> 255"
proof -
  have "unat (drop_bit (8 * k) a AND 255) \<le> unat (255 :: u32)" using word_and_le1 word_le_nat_alt by blast
  then show ?thesis by (simp add: octet_def)
qed

lemma octets_dotted: "octets (dotted a) [] 0 False = Some [octet 3 a, octet 2 a, octet 1 a, octet 0 a]"
  unfolding dotted_def
  by (simp add: octets_dec_app octet_le octet_end_def not_less) (simp add: octets_dec_app [of _ "[]", simplified] octet_le octet_end_def not_less)

lemma octets_word:
  "push_bit 24 (drop_bit 24 a AND 255) OR push_bit 16 (drop_bit 16 a AND 255) OR push_bit 8 (drop_bit 8 a AND 255) OR (a AND 255) = (a :: u32)"
proof (rule bit_word_eqI)
  fix n
  assume n: "n < LENGTH(32)"
  have m: "(255 :: u32) = mask 8" by (simp add: mask_eq_exp_minus_1)
  have "n < 8 \<or> 8 \<le> n \<and> n < 16 \<or> 16 \<le> n \<and> n < 24 \<or> 24 \<le> n \<and> n < 32" using n by auto
  then show "bit (push_bit 24 (drop_bit 24 a AND 255) OR push_bit 16 (drop_bit 16 a AND 255) OR push_bit 8 (drop_bit 8 a AND 255) OR (a AND 255)) n = bit a n"
    unfolding m by (elim disjE conjE; simp add: bit_and_iff bit_or_iff bit_push_bit_iff bit_drop_bit_eq bit_mask_iff less_diff_conv2; arith?)
qed

lemma parse_dotted: "parse_v4 (dotted a) = Some a"
  using octets_word [of a] by (simp add: parse_v4_def octets_dotted octet_def)

lemma prefix_mask_eq:
  assumes "b \<le> 32"
  shows "net AND prefix_mask b = addr AND prefix_mask b \<longleftrightarrow> drop_bit (32 - b) net = drop_bit (32 - b) (addr :: u32)"
proof (cases "b = 0")
  case True
  have "drop_bit 32 x = 0" for x :: u32
    by (rule bit_word_eqI) (use bit_imp_le_length [of x] in \<open>auto simp: bit_drop_bit_eq\<close>)
  with True show ?thesis by (simp add: prefix_mask_def)
next
  case False
  have m: "(0xFFFFFFFF :: u32) = mask 32" by (simp add: mask_eq_exp_minus_1)
  have "net AND prefix_mask b = addr AND prefix_mask b \<longleftrightarrow> (\<forall>n < 32. 32 - b \<le> n \<longrightarrow> bit net n = bit addr n)"
    using False unfolding prefix_mask_def m by (auto simp: bit_eq_iff bit_simps)
  also have "\<dots> \<longleftrightarrow> (\<forall>k. bit net (32 - b + k) = bit addr (32 - b + k))"
  proof
    assume l: "\<forall>n < 32. 32 - b \<le> n \<longrightarrow> bit net n = bit addr n"
    show "\<forall>k. bit net (32 - b + k) = bit addr (32 - b + k)"
    proof
      fix k
      show "bit net (32 - b + k) = bit addr (32 - b + k)"
        using l bit_imp_le_length [of net "32 - b + k"] bit_imp_le_length [of addr "32 - b + k"] by (cases "32 - b + k < 32") auto
    qed
  next
    assume r: "\<forall>k. bit net (32 - b + k) = bit addr (32 - b + k)"
    show "\<forall>n < 32. 32 - b \<le> n \<longrightarrow> bit net n = bit addr n"
      using r by (metis le_add_diff_inverse)
  qed
  also have "\<dots> \<longleftrightarrow> drop_bit (32 - b) net = drop_bit (32 - b) addr"
  proof
    assume r: "\<forall>k. bit net (32 - b + k) = bit addr (32 - b + k)"
    show "drop_bit (32 - b) net = drop_bit (32 - b) addr" by (rule bit_word_eqI) (simp only: bit_drop_bit_eq comp_apply r)
  next
    assume e: "drop_bit (32 - b) net = drop_bit (32 - b) addr"
    have "bit (drop_bit (32 - b) net) k = bit (drop_bit (32 - b) addr) k" for k by (simp only: e)
    then show "\<forall>k. bit net (32 - b + k) = bit addr (32 - b + k)" by (simp only: bit_drop_bit_eq comp_apply) blast
  qed
  finally show ?thesis .
qed

lemma prefix_bits_dec: "prefix_bits (dec n @ s) 0 = prefix_bits s n"
proof (induction n arbitrary: s rule: dec.induct)
  case (1 n)
  show ?case
  proof (cases "n < 10")
    case True
    then show ?thesis by (subst dec.simps) (simp add: digit_byte)
  next
    case False
    then have "prefix_bits (dec n @ s) 0 = prefix_bits (dec (n div 10) @ (48 + of_nat (n mod 10)) # s) 0"
      by (subst dec.simps) simp
    also have "\<dots> = prefix_bits s n" using 1 False by (simp add: digit_byte)
    finally show ?thesis .
  qed
qed

lemma dec_short: "n < 100 \<Longrightarrow> length (dec n) \<le> 2"
  by (subst dec.simps, subst dec.simps) auto

text \<open>C22: For every address, network and prefix length up to 32 in their usual notation, \<open>IpInCidr\<close> holds exactly
when the address and the network agree on that many leading bits.\<close>

theorem IpInCidr_correct:
  assumes "b \<le> 32"
  shows "IpInCidr (dotted a) (dotted net @ 47 # dec b) \<longleftrightarrow> drop_bit (32 - b) a = drop_bit (32 - b) net"
proof -
  have "47 \<notin> set (dotted net)" using dec_digits by (auto simp: dotted_def)
  then have "find_char (dotted net @ 47 # dec b) 47 0 = Some (length (dotted net))"
    by (simp add: find_char_def)
  moreover have "length (dec b) \<le> 2" using dec_short assms by simp
  moreover have "prefix_bits (dec b) 0 = Some b" using prefix_bits_dec [of b "[]"] by simp
  ultimately show ?thesis using assms prefix_mask_eq [OF assms, of net a]
    by (auto simp: IpInCidr_def substr_len_def substr_def parse_dotted Let_def)
qed

theorem IpInCidr_correct_witness:
  "IpInCidr (lit ''10.1.2.3'') (lit ''10.0.0.0/8'') \<and> \<not> IpInCidr (lit ''11.1.2.3'') (lit ''10.0.0.0/8'')"
proof -
  have d: "dotted 0x0A010203 = lit ''10.1.2.3''" "dotted 0x0B010203 = lit ''11.1.2.3''"
    "dotted 0x0A000000 @ 47 # dec 8 = lit ''10.0.0.0/8''" by code_simp+
  show ?thesis using IpInCidr_correct [where b = 8 and a = "0x0A010203" and net = "0x0A000000"]
      IpInCidr_correct [where b = 8 and a = "0x0B010203" and net = "0x0A000000"]
    unfolding d by (simp add: drop_bit_eq_div)
qed

subsection \<open>URLs and the guard\<close>

definition url_of :: "bool \<Rightarrow> bytes option \<Rightarrow> bytes \<Rightarrow> nat option \<Rightarrow> bytes \<Rightarrow> bytes" where
  "url_of tls user host port path = (if tls then lit ''https://'' else lit ''http://'') @
     (case user of None \<Rightarrow> [] | Some u \<Rightarrow> u @ [64]) @ host @ (case port of None \<Rightarrow> [] | Some p \<Rightarrow> 58 # dec p) @ 47 # path"

definition port_of :: "bool \<Rightarrow> nat option \<Rightarrow> u16" where
  "port_of tls port = (case port of Some p \<Rightarrow> of_nat p | None \<Rightarrow> if tls then 443 else 80)"

lemma rfind_char_last: "c \<notin> set b \<Longrightarrow> rfind_char (a @ c # b) c = Some (length a)"
  by (simp add: rfind_char_def find_char_def)

lemma rfind_char_none: "c \<notin> set a \<Longrightarrow> rfind_char a c = None"
  using find_char_from_None [of c "rev a" 0] by (simp add: rfind_char_def find_char_def)

lemma digit_no_sep: "is_digit c \<Longrightarrow> c \<noteq> 64 \<and> c \<noteq> 58 \<and> c \<noteq> 47"
  by (auto simp: is_digit_def)

lemma port_digits_dec: "n < 2 ^ 63 \<Longrightarrow> port_digits (dec n @ s) 0 = port_digits s n"
proof (induction n arbitrary: s rule: dec.induct)
  case (1 n)
  show ?case
  proof (cases "n < 10")
    case True
    then show ?thesis by (subst dec.simps) (simp add: digit_byte Let_def)
  next
    case False
    then have "port_digits (dec n @ s) 0 = port_digits (dec (n div 10) @ (48 + of_nat (n mod 10)) # s) 0"
      by (subst dec.simps) simp
    also have "\<dots> = port_digits ((48 + of_nat (n mod 10)) # s) (n div 10)" using 1 False by simp
    also have "\<dots> = port_digits s n" using 1(2) False by (simp add: digit_byte Let_def)
    finally show ?thesis .
  qed
qed

text \<open>What follows the scheme and the user part.\<close>

lemma HostFromUrl_authority:
  assumes "rest = user @ host @ (case port of None \<Rightarrow> [] | Some p \<Rightarrow> 58 # dec p) @ 47 # path"
    and "url = (if tls then lit ''https://'' else lit ''http://'') @ rest"
    and "user = [] \<or> (\<exists>u. user = u @ [64] \<and> 47 \<notin> set u)"
    and "host \<noteq> []" "47 \<notin> set host" "64 \<notin> set host" "58 \<notin> set host" and "\<forall>p. port = Some p \<longrightarrow> 0 < p \<and> p \<le> 65535"
  shows "HostFromUrl url = Some (host, port_of tls port)"
proof -
  define pt where "pt = (case port of None \<Rightarrow> [] | Some p \<Rightarrow> 58 # dec p)"
  have pt: "47 \<notin> set pt" "64 \<notin> set pt" unfolding pt_def using dec_digits digit_no_sep by (fastforce split: option.splits)+
  have "47 \<notin> set user" using assms(3) by auto
  then have f: "find_char rest 47 0 = Some (length (user @ host @ pt))"
    using assms(5) pt(1) find_char_from_append [of 47 "user @ host @ pt" path 0] by (simp add: find_char_def assms(1) pt_def)
  have s: "(if take 8 url = lit ''https://'' then Some (443, drop 8 url)
      else if take 7 url = lit ''http://'' then Some (80, drop 7 url) else None) = Some (port_of tls None, rest)"
    by (simp add: assms(2) port_of_def)
  have a: "substr_len rest 0 (length (user @ host @ pt)) = user @ host @ pt" by (simp add: substr_len_def assms(1) pt_def)
  have u: "(case rfind_char (user @ host @ pt) 64 of None \<Rightarrow> user @ host @ pt | Some i \<Rightarrow> substr (user @ host @ pt) (i + 1)) = host @ pt"
    using assms(3)
  proof
    assume "user = []"
    then show ?thesis using rfind_char_none [of 64 "host @ pt"] assms(6) pt(2) by simp
  next
    assume "\<exists>u. user = u @ [64] \<and> 47 \<notin> set u"
    then obtain v where v: "user = v @ [64]" by blast
    then show ?thesis using rfind_char_last [of 64 "host @ pt" v] assms(6) pt(2) by (simp add: substr_def)
  qed
  have ne: "user @ host @ pt \<noteq> []" "host @ pt \<noteq> []" using assms(4) by simp_all
  note step = HostFromUrl_def s option.case prod.case Let_def f a u ne if_False
  show ?thesis
  proof (cases port)
    case None
    then have "find_char (host @ pt) 58 0 = None" "pt = []" using assms(7) by (simp_all add: find_char_def find_char_from_None pt_def)
    with None assms(4) show ?thesis unfolding step by simp
  next
    case (Some p)
    then have c: "find_char (host @ pt) 58 0 = Some (length host)" "pt = 58 # dec p" using assms(7) by (simp_all add: find_char_def pt_def)
    have "port_digits (dec p) 0 = Some (Some p)" using port_digits_dec [of p "[]"] assms(8) Some by force
    moreover have "0 < p" "p \<le> 65535" using assms(8) Some by auto
    ultimately show ?thesis unfolding step using Some c assms(4) by (simp add: port_of_def substr_len_def substr_def)
  qed
qed

text \<open>C21: For a URL with any user part, host, port and path, a transport guarded by a default-deny policy passes the
request on, unchanged, exactly when a rule for the cold tier or for any purpose matches the host by name or
network; otherwise nothing is sent and the endpoint is reported.\<close>

theorem guard_confines:
  assumes "default_deny policy" and "user = None \<or> (\<exists>u. user = Some u \<and> 47 \<notin> set u)"
    and "host \<noteq> []" "47 \<notin> set host" "64 \<notin> set host" "58 \<notin> set host" and "\<forall>p. port = Some p \<longrightarrow> 0 < p \<and> p \<le> 65535"
  shows "GuardedRequest policy inner verb (url_of tls user host port path) headers body s =
    (if \<exists>r \<in> set (allow_rules policy). (rule_purpose r = kOther \<or> rule_purpose r = kColdTier) \<and>
          (host_glob r \<noteq> [] \<and> HostMatchesGlob host (host_glob r) \<or> rule_cidr r \<noteq> [] \<and> IpInCidr host (rule_cidr r))
     then Some (fst (inner verb (url_of tls user host port path) headers body s),
                snd (inner verb (url_of tls user host port path) headers body s), [])
     else Some (\<lparr>status = 0, rbody = [], transport_err = True\<rparr>, s,
                [\<lparr>ep_host = host, ep_port = port_of tls port, ep_purpose = kColdTier\<rparr>]))"
proof -
  have "HostFromUrl (url_of tls user host port path) = Some (host, port_of tls port)"
    by (rule HostFromUrl_authority [where user = "case user of None \<Rightarrow> [] | Some u \<Rightarrow> u @ [64]", OF refl])
      (use assms(2-) in \<open>auto simp: url_of_def\<close>)
  then show ?thesis using assms(1,3)
    by (simp add: GuardedRequest_def Let_def Check_def rule_allows_def PurposeMatches_def split: prod.split)
qed

definition lab_policy :: BoundaryPolicy where
  "lab_policy = \<lparr>allow_rules = [\<lparr>host_glob = lit ''*.lab'', rule_cidr = [], rule_purpose = kColdTier\<rparr>], default_deny = True\<rparr>"

theorem guard_confines_witness:
  "GuardedRequest lab_policy (\<lambda>m u h b s. (\<lparr>status = 200, rbody = [], transport_err = False\<rparr>, s + 1)) (lit ''GET'')
     (url_of True None (lit ''S3.lab'') (Some 9000) (lit ''k'')) [] [] (0 :: nat) =
     Some (\<lparr>status = 200, rbody = [], transport_err = False\<rparr>, 1, [])"
proof -
  have "HostMatchesGlob (lit ''S3.lab'') (lit ''*.lab'')" by code_simp
  then show ?thesis by (subst guard_confines) (simp_all add: lab_policy_def)
qed

text \<open>C39: The host that the guard checks is not always the host that a client connects to: a query may follow the
host directly, and the text after an at sign in it is taken for the host. Whatever the host before the question
mark, the request is passed on when the policy allows the name in the query.\<close>

theorem guard_query_bypass:
  assumes "47 \<notin> set evil" and "good \<noteq> []" "47 \<notin> set good" "64 \<notin> set good" "58 \<notin> set good"
    and "\<exists>r \<in> set (allow_rules policy). rule_allows r \<lparr>ep_host = good, ep_port = 80, ep_purpose = kColdTier\<rparr>"
    and "url = lit ''http://'' @ evil @ 63 # 64 # good @ 47 # path"
  shows "HostFromUrl url = Some (good, 80) \<and>
    GuardedRequest policy inner verb url headers body s =
      Some (fst (inner verb url headers body s), snd (inner verb url headers body s), [])"
proof -
  have "HostFromUrl url = Some (good, port_of False None)"
    by (rule HostFromUrl_authority [where user = "evil @ [63, 64]" and port = None and path = path, OF refl])
      (use assms(1-5,7) in auto)
  with assms(2,6) show ?thesis
    by (auto simp: port_of_def GuardedRequest_def Let_def Check_def split: prod.split)
qed

theorem guard_query_bypass_witness:
  "GuardedRequest lab_policy (\<lambda>m u h b s. (\<lparr>status = 200, rbody = [], transport_err = False\<rparr>, u # s)) (lit ''GET'')
     (lit ''http://evil.com?@s3.lab/k'') [] [] [] =
     Some (\<lparr>status = 200, rbody = [], transport_err = False\<rparr>, [lit ''http://evil.com?@s3.lab/k''], [])"
proof -
  have "HostMatchesGlob (lit ''s3.lab'') (lit ''*.lab'')" by code_simp
  then have r: "\<exists>r \<in> set (allow_rules lab_policy). rule_allows r \<lparr>ep_host = lit ''s3.lab'', ep_port = 80, ep_purpose = kColdTier\<rparr>"
    by (simp add: lab_policy_def rule_allows_def PurposeMatches_def)
  show ?thesis
    using guard_query_bypass [where evil = "lit ''evil.com''" and good = "lit ''s3.lab''" and path = "lit ''k''" and policy = lab_policy and
        url = "lit ''http://evil.com?@s3.lab/k''" and inner = "\<lambda>m u h b s. (\<lparr>status = 200, rbody = [], transport_err = False\<rparr>, u # s)" and
        verb = "lit ''GET''" and headers = "[]" and body = "[]" and s = "[]"] r by simp
qed

end
