(* ===== verification/ColdTier.thy ===== *)
theory ColdTier
  imports BoundaryGuard BlobStore
begin

section \<open>The cold tier\<close>

text \<open>
  \<open>tier/cold_tier.cpp\<close>, \<open>rest_cold_tier.cpp\<close>, \<open>block_codec.cpp\<close>, \<open>compressing_cold_tier.cpp\<close>,
  \<open>encrypting_cold_tier.cpp\<close> and \<open>metrics_cold_tier.cpp\<close>: the file-system and HTTP backends, the three
  decorators and the factory that stacks them. A tier is a value of \<open>cold_tier\<close> and the virtual methods
  are recursive functions on it. OpenSSL, zstd and the HTTP transport are third-party code: the record
  \<open>cold_lib\<close> holds them as functions, and \<open>lib_ok\<close> states what their documentation promises. The answers
  of the file system and the random nonce are inputs; \<open>None\<close> is a call that does not return or is
  undefined.
\<close>

subsection \<open>The outside world\<close>

datatype frame_size = SizeError | SizeUnknown | SizeIs nat

record 's cold_lib =
  http :: "'s transport"
  zstd_compress :: "int \<Rightarrow> bytes \<Rightarrow> bytes option"
  zstd_frame :: "bytes \<Rightarrow> frame_size"
  zstd_decompress :: "bytes \<Rightarrow> nat \<Rightarrow> bytes option"
  aes_seal :: "bytes \<Rightarrow> bytes \<Rightarrow> int \<Rightarrow> bytes \<Rightarrow> (bytes \<times> bytes) option"
  aes_open :: "bytes \<Rightarrow> bytes \<Rightarrow> int \<Rightarrow> bytes \<Rightarrow> bytes \<Rightarrow> bytes option"

datatype metric = put_total | put_bytes | put_errors | get_total | get_bytes | get_miss | get_errors |
  delete_total | delete_errors | exists_total

record 's world =
  files :: "bytes \<rightharpoonup> bytes"
  server :: 's
  denied :: "Endpoint list"
  counters :: "metric \<Rightarrow> nat"

record put_env =
  rand_ok :: bool
  nonce :: "nat \<Rightarrow> byte"
  put_open :: bool
  put_writes :: "wres list"
  put_fsync :: bool
  put_rename :: bool

record get_env =
  get_open :: bool
  get_stat :: bool
  get_reads :: "rres list"

text \<open>The outcome of \<open>Get\<close>: the bytes, or \<open>false\<close> and whether an error text was set.\<close>

datatype get_result = Got bytes | NotGot bool

subsection \<open>The file-system backend\<close>

record fs_options =
  fs_root :: bytes
  fs_create :: bool
  fsync_on_put :: bool

definition HexOf :: "bytes \<Rightarrow> bytes" where
  "HexOf k = concat (map (\<lambda>b. [kHex ! unat (drop_bit 4 b), kHex ! unat (b AND 15)]) k)"

definition FsPathFor :: "fs_options \<Rightarrow> bytes \<Rightarrow> bytes" where
  "FsPathFor opts k = (let hx = HexOf k in
     fs_root opts @ lit ''/'' @ substr_len hx 0 2 @ lit ''/'' @ substr hx 2 @ lit ''.kv'')"

fun FsWriteAll :: "wres list \<Rightarrow> bytes \<Rightarrow> bytes \<Rightarrow> (bool \<times> bytes) option" where
  "FsWriteAll ws [] f = Some (True, f)"
| "FsWriteAll [] (b # p) f = None"
| "FsWriteAll (WEintr # ws) (b # p) f = FsWriteAll ws (b # p) f"
| "FsWriteAll (WErr # ws) (b # p) f = Some (False, f)"
| "FsWriteAll (Wrote n # ws) (b # p) f = FsWriteAll ws (drop n (b # p)) (f @ take n (b # p))"

definition FsPut :: "fs_options \<Rightarrow> put_env \<Rightarrow> bytes \<Rightarrow> bytes \<Rightarrow> (bytes \<rightharpoonup> bytes) \<Rightarrow> (bool \<times> (bytes \<rightharpoonup> bytes)) option" where
  "FsPut opts e k d fs =
     (let final = FsPathFor opts k; tmp = final @ lit ''.tmp'' in
      if \<not> put_open e then Some (False, fs)
      else case FsWriteAll (put_writes e) d [] of
        None \<Rightarrow> None
      | Some (ok, c) \<Rightarrow>
          (let fs = fs(tmp \<mapsto> c) in
           if \<not> ok then Some (False, fs(tmp := None))
           else if fsync_on_put opts \<and> \<not> put_fsync e then Some (False, fs(tmp := None))
           else if \<not> put_rename e then Some (False, fs(tmp := None))
           else Some (True, (fs(tmp := None))(final := fs tmp))))"

fun FsReadLoop :: "rres list \<Rightarrow> bytes \<Rightarrow> bytes \<Rightarrow> get_result option" where
  "FsReadLoop rs [] acc = Some (Got acc)"
| "FsReadLoop [] (b # p) acc = None"
| "FsReadLoop (REintr # rs) (b # p) acc = FsReadLoop rs (b # p) acc"
| "FsReadLoop (RStop # rs) (b # p) acc = Some (NotGot True)"
| "FsReadLoop (RGot n # rs) (b # p) acc =
     (if n = 0 then Some (NotGot False) else FsReadLoop rs (drop n (b # p)) (acc @ take n (b # p)))"

definition FsGet :: "fs_options \<Rightarrow> get_env \<Rightarrow> bytes \<Rightarrow> (bytes \<rightharpoonup> bytes) \<Rightarrow> get_result option" where
  "FsGet opts e k fs = (case fs (FsPathFor opts k) of
     None \<Rightarrow> Some (NotGot True)
   | Some c \<Rightarrow> if \<not> get_open e then Some (NotGot True)
       else if \<not> get_stat e then Some (NotGot True)
       else FsReadLoop (get_reads e) c [])"

definition FsDelete :: "fs_options \<Rightarrow> bool \<Rightarrow> bytes \<Rightarrow> (bytes \<rightharpoonup> bytes) \<Rightarrow> bool \<times> (bytes \<rightharpoonup> bytes)" where
  "FsDelete opts unlinked k fs = (let p = FsPathFor opts k in
     if fs p = None \<or> \<not> unlinked then (False, fs) else (True, fs(p := None)))"

definition FsExists :: "fs_options \<Rightarrow> bool \<Rightarrow> bytes \<Rightarrow> (bytes \<rightharpoonup> bytes) \<Rightarrow> bool" where
  "FsExists opts statted k fs \<longleftrightarrow> fs (FsPathFor opts k) \<noteq> None \<and> statted"

subsection \<open>The HTTP backend\<close>

record rest_options =
  base_url :: bytes
  key_prefix :: bytes
  bearer_token :: bytes

definition TrimTrailingSlash :: "bytes \<Rightarrow> bytes" where
  "TrimTrailingSlash s = (if s \<noteq> [] \<and> last s = 47 then butlast s else s)"

definition ObjectKeyFor :: "rest_options \<Rightarrow> bytes \<Rightarrow> bytes" where
  "ObjectKeyFor opts k = (let hx = HexOf k in
     key_prefix opts @ substr_len hx 0 2 @ lit ''/'' @ substr hx 2 @ lit ''.kv'')"

definition UrlFor :: "rest_options \<Rightarrow> bytes \<Rightarrow> bytes" where
  "UrlFor opts k = base_url opts @ lit ''/'' @ ObjectKeyFor opts k"

definition Headers :: "rest_options \<Rightarrow> bytes list" where
  "Headers opts = (if bearer_token opts \<noteq> [] then [lit ''Authorization: Bearer '' @ bearer_token opts] else [])"

text \<open>One request, through the guard when there is one.\<close>

definition RestRequest ::
    "'s cold_lib \<Rightarrow> BoundaryPolicy option \<Rightarrow> bytes \<Rightarrow> bytes \<Rightarrow> bytes list \<Rightarrow> bytes \<Rightarrow> 's world \<Rightarrow> (HttpResult \<times> 's world) option" where
  "RestRequest lib guard m url hs b w = (case guard of
     None \<Rightarrow> (case http lib m url hs b (server w) of (r, s) \<Rightarrow> Some (r, w\<lparr>server := s\<rparr>))
   | Some policy \<Rightarrow> (case GuardedRequest policy (http lib) m url hs b (server w) of
       None \<Rightarrow> None
     | Some (r, s, eps) \<Rightarrow> Some (r, w\<lparr>server := s, denied := denied w @ eps\<rparr>)))"

definition success :: "HttpResult \<Rightarrow> bool" where
  "success r \<longleftrightarrow> 200 \<le> status r \<and> status r < 300"

definition RestPut :: "'s cold_lib \<Rightarrow> rest_options \<Rightarrow> BoundaryPolicy option \<Rightarrow> bytes \<Rightarrow> bytes \<Rightarrow> 's world \<Rightarrow> (bool \<times> 's world) option" where
  "RestPut lib opts guard k d w =
     (case RestRequest lib guard (lit ''PUT'') (UrlFor opts k)
             (Headers opts @ [lit ''Content-Type: application/octet-stream'']) d w of
        None \<Rightarrow> None
      | Some (r, w) \<Rightarrow> Some (\<not> transport_err r \<and> success r, w))"

definition RestGet :: "'s cold_lib \<Rightarrow> rest_options \<Rightarrow> BoundaryPolicy option \<Rightarrow> bytes \<Rightarrow> 's world \<Rightarrow> (get_result \<times> 's world) option" where
  "RestGet lib opts guard k w =
     (case RestRequest lib guard (lit ''GET'') (UrlFor opts k) (Headers opts) [] w of
        None \<Rightarrow> None
      | Some (r, w) \<Rightarrow> Some (if transport_err r then NotGot True
          else if status r = 404 then NotGot False
          else if \<not> success r then NotGot True else Got (rbody r), w))"

definition RestDelete :: "'s cold_lib \<Rightarrow> rest_options \<Rightarrow> BoundaryPolicy option \<Rightarrow> bytes \<Rightarrow> 's world \<Rightarrow> (bool \<times> 's world) option" where
  "RestDelete lib opts guard k w =
     (case RestRequest lib guard (lit ''DELETE'') (UrlFor opts k) (Headers opts) [] w of
        None \<Rightarrow> None
      | Some (r, w) \<Rightarrow> Some (\<not> transport_err r \<and> (status r = 404 \<or> success r), w))"

definition RestExists :: "'s cold_lib \<Rightarrow> rest_options \<Rightarrow> BoundaryPolicy option \<Rightarrow> bytes \<Rightarrow> 's world \<Rightarrow> (bool \<times> 's world) option" where
  "RestExists lib opts guard k w =
     (case RestRequest lib guard (lit ''HEAD'') (UrlFor opts k) (Headers opts) [] w of
        None \<Rightarrow> None
      | Some (r, w) \<Rightarrow> Some (\<not> transport_err r \<and> success r, w))"

subsection \<open>Codecs and the compressing decorator\<close>

datatype block_codec = IdentityCodec | ZstdCodec int

definition kIdentity :: byte where "kIdentity = 0"
definition kZstd :: byte where "kZstd = 1"

fun CodecIdOf :: "block_codec \<Rightarrow> byte" where
  "CodecIdOf IdentityCodec = kIdentity"
| "CodecIdOf (ZstdCodec level) = kZstd"

fun Compress :: "'s cold_lib \<Rightarrow> block_codec \<Rightarrow> bytes \<Rightarrow> bytes option" where
  "Compress lib IdentityCodec d = Some d"
| "Compress lib (ZstdCodec level) d = zstd_compress lib level d"

fun Decompress :: "'s cold_lib \<Rightarrow> block_codec \<Rightarrow> bytes \<Rightarrow> nat \<Rightarrow> bytes option" where
  "Decompress lib IdentityCodec p orig_size = (if length p \<noteq> orig_size then None else Some p)"
| "Decompress lib (ZstdCodec level) p orig_size =
     (case zstd_frame lib p of
        SizeError \<Rightarrow> None
      | SizeUnknown \<Rightarrow> None
      | SizeIs fcs \<Rightarrow>
          if fcs \<noteq> orig_size then None
          else (case zstd_decompress lib p orig_size of
                  None \<Rightarrow> None
                | Some v \<Rightarrow> if length v \<noteq> orig_size then None else Some v))"

definition MakeCodec :: "bool \<Rightarrow> bytes \<Rightarrow> int \<Rightarrow> block_codec option" where
  "MakeCodec have_zstd name level =
     (if name = lit ''none'' \<or> name = lit ''identity'' then Some IdentityCodec
      else if name = lit ''zstd'' then (if have_zstd then Some (ZstdCodec level) else None)
      else None)"

definition kMagicB :: bytes where "kMagicB = lit ''KVB1''"
definition kHeaderSizeB :: nat where "kHeaderSizeB = 16"

definition WriteHeader :: "byte \<Rightarrow> u64 \<Rightarrow> bytes" where
  "WriteHeader cid orig_size = kMagicB @ [cid, 0, 0, 0] @ PutU64 orig_size"

definition ReadHeader :: "bytes \<Rightarrow> (byte \<times> u64) option" where
  "ReadHeader bb = (if length bb < kHeaderSizeB then None
     else if take 4 bb \<noteq> kMagicB then None
     else Some (bb ! 4, GetU64 (drop 8 bb)))"

definition CodecForId :: "block_codec \<Rightarrow> byte \<Rightarrow> block_codec option" where
  "CodecForId write_codec cid = (if cid = kIdentity then Some IdentityCodec
     else if cid = CodecIdOf write_codec then Some write_codec else None)"

definition pack :: "'s cold_lib \<Rightarrow> block_codec \<Rightarrow> bytes \<Rightarrow> bytes option" where
  "pack lib codec d = (case Compress lib codec d of
     None \<Rightarrow> None | Some p \<Rightarrow> Some (WriteHeader (CodecIdOf codec) (of_nat (length d)) @ p))"

definition unpack :: "'s cold_lib \<Rightarrow> block_codec \<Rightarrow> bytes \<Rightarrow> bytes option" where
  "unpack lib codec bb = (case ReadHeader bb of
     None \<Rightarrow> None
   | Some (cid, orig_size) \<Rightarrow> (case CodecForId codec cid of
       None \<Rightarrow> None
     | Some c \<Rightarrow> Decompress lib c (drop kHeaderSizeB bb) (unat orig_size)))"

subsection \<open>The encrypting decorator\<close>

definition kMagicE :: bytes where "kMagicE = lit ''KVE1''"
definition kAlgAes256Gcm :: byte where "kAlgAes256Gcm = 1"
definition kNonceSize :: nat where "kNonceSize = 12"
definition kTagSize :: nat where "kTagSize = 16"
definition kHeaderSizeE :: nat where "kHeaderSizeE = 36"
definition kKeySize :: nat where "kKeySize = 32"

text \<open>\<open>static_cast<int>\<close> of a length.\<close>

definition int_cast :: "nat \<Rightarrow> int" where
  "int_cast n = sint (of_nat n :: 32 word)"

text \<open>What the library writes goes to the front of a zeroed buffer of \<open>n\<close> bytes.\<close>

definition into_buffer :: "nat \<Rightarrow> bytes \<Rightarrow> bytes" where
  "into_buffer n v = take n v @ replicate (n - length v) 0"

definition seal :: "'s cold_lib \<Rightarrow> put_env \<Rightarrow> bytes \<Rightarrow> bytes \<Rightarrow> bytes option" where
  "seal lib e key d = (if \<not> rand_ok e then None
     else let nv = map (nonce e) [0..<kNonceSize] in
       case aes_seal lib key nv (int_cast (length d)) d of
         None \<Rightarrow> None
       | Some (ct, tag) \<Rightarrow> Some (kMagicE @ [kAlgAes256Gcm, 0, 0, 0] @ nv @ tag @ into_buffer (length d) ct))"

definition unseal :: "'s cold_lib \<Rightarrow> bytes \<Rightarrow> bytes \<Rightarrow> bytes option" where
  "unseal lib key bb = (if length bb < kHeaderSizeE \<or> take 4 bb \<noteq> kMagicE then None
     else if bb ! 4 \<noteq> kAlgAes256Gcm then None
     else let nv = take kNonceSize (drop 8 bb); tag = take kTagSize (drop (8 + kNonceSize) bb); ct = drop kHeaderSizeE bb in
       map_option (into_buffer (length ct)) (aes_open lib key nv (int_cast (length ct)) ct tag))"

subsection \<open>Stacks\<close>

datatype cold_tier =
    FilesystemColdTier fs_options
  | RestColdTier rest_options "BoundaryPolicy option"
  | CompressingColdTier cold_tier block_codec
  | EncryptingColdTier cold_tier bytes
  | MetricsColdTier cold_tier

definition Inc :: "metric \<Rightarrow> nat \<Rightarrow> 's world \<Rightarrow> 's world" where
  "Inc m n w = w\<lparr>counters := (counters w)(m := counters w m + n)\<rparr>"

primrec ColdPut :: "'s cold_lib \<Rightarrow> cold_tier \<Rightarrow> put_env \<Rightarrow> bytes \<Rightarrow> bytes \<Rightarrow> 's world \<Rightarrow> (bool \<times> 's world) option" where
  "ColdPut lib (FilesystemColdTier opts) e k d w =
     map_option (\<lambda>(ok, fs). (ok, w\<lparr>files := fs\<rparr>)) (FsPut opts e k d (files w))"
| "ColdPut lib (RestColdTier opts guard) e k d w = RestPut lib opts guard k d w"
| "ColdPut lib (CompressingColdTier inner codec) e k d w =
     (case pack lib codec d of None \<Rightarrow> Some (False, w) | Some bb \<Rightarrow> ColdPut lib inner e k bb w)"
| "ColdPut lib (EncryptingColdTier inner key) e k d w =
     (case seal lib e key d of None \<Rightarrow> Some (False, w) | Some bb \<Rightarrow> ColdPut lib inner e k bb w)"
| "ColdPut lib (MetricsColdTier inner) e k d w =
     (case ColdPut lib inner e k d (Inc put_total 1 w) of
        None \<Rightarrow> None
      | Some (ok, w) \<Rightarrow> Some (ok, if ok then Inc put_bytes (length d) w else Inc put_errors 1 w))"

definition decoded :: "(bytes \<Rightarrow> bytes option) \<Rightarrow> (get_result \<times> 'w) option \<Rightarrow> (get_result \<times> 'w) option" where
  "decoded f r = (case r of
     Some (Got bb, w) \<Rightarrow> Some (case f bb of None \<Rightarrow> NotGot True | Some v \<Rightarrow> Got v, w)
   | _ \<Rightarrow> r)"

primrec ColdGet :: "'s cold_lib \<Rightarrow> cold_tier \<Rightarrow> get_env \<Rightarrow> bytes \<Rightarrow> 's world \<Rightarrow> (get_result \<times> 's world) option" where
  "ColdGet lib (FilesystemColdTier opts) e k w = map_option (\<lambda>r. (r, w)) (FsGet opts e k (files w))"
| "ColdGet lib (RestColdTier opts guard) e k w = RestGet lib opts guard k w"
| "ColdGet lib (CompressingColdTier inner codec) e k w = decoded (unpack lib codec) (ColdGet lib inner e k w)"
| "ColdGet lib (EncryptingColdTier inner key) e k w = decoded (unseal lib key) (ColdGet lib inner e k w)"
| "ColdGet lib (MetricsColdTier inner) e k w =
     (case ColdGet lib inner e k w of
        None \<Rightarrow> None
      | Some (r, w) \<Rightarrow> Some (r, case r of
            Got v \<Rightarrow> Inc get_bytes (length v) (Inc get_total 1 w)
          | NotGot False \<Rightarrow> Inc get_miss 1 w
          | NotGot True \<Rightarrow> Inc get_errors 1 w))"

primrec ColdDelete :: "'s cold_lib \<Rightarrow> cold_tier \<Rightarrow> bool \<Rightarrow> bytes \<Rightarrow> 's world \<Rightarrow> (bool \<times> 's world) option" where
  "ColdDelete lib (FilesystemColdTier opts) u k w = (case FsDelete opts u k (files w) of (ok, fs) \<Rightarrow> Some (ok, w\<lparr>files := fs\<rparr>))"
| "ColdDelete lib (RestColdTier opts guard) u k w = RestDelete lib opts guard k w"
| "ColdDelete lib (CompressingColdTier inner codec) u k w = ColdDelete lib inner u k w"
| "ColdDelete lib (EncryptingColdTier inner key) u k w = ColdDelete lib inner u k w"
| "ColdDelete lib (MetricsColdTier inner) u k w =
     (case ColdDelete lib inner u k (Inc delete_total 1 w) of
        None \<Rightarrow> None
      | Some (ok, w) \<Rightarrow> Some (ok, if ok then w else Inc delete_errors 1 w))"

primrec ColdExists :: "'s cold_lib \<Rightarrow> cold_tier \<Rightarrow> bool \<Rightarrow> bytes \<Rightarrow> 's world \<Rightarrow> (bool \<times> 's world) option" where
  "ColdExists lib (FilesystemColdTier opts) st k w = Some (FsExists opts st k (files w), w)"
| "ColdExists lib (RestColdTier opts guard) st k w = RestExists lib opts guard k w"
| "ColdExists lib (CompressingColdTier inner codec) st k w = ColdExists lib inner st k w"
| "ColdExists lib (EncryptingColdTier inner key) st k w = ColdExists lib inner st k w"
| "ColdExists lib (MetricsColdTier inner) st k w = ColdExists lib inner st k (Inc exists_total 1 w)"

subsection \<open>The factory\<close>

record cold_options =
  cold_type :: bytes
  cold_fs :: fs_options
  cold_rest :: rest_options
  comp_codec :: bytes
  comp_level :: int
  enc_enabled :: bool
  enc_key :: bytes
  with_metrics :: bool
  cold_guard :: "BoundaryPolicy option"

record build_env =
  have_openssl :: bool
  have_zstd :: bool
  mkdir_ok :: bool
  root_is_dir :: bool

datatype cold_error = RootEmpty | MkdirFailed | NotADirectory | BaseUrlEmpty | UnknownBackend | NoOpenSsl | BadKeySize | BadCodec

definition FsCreate :: "build_env \<Rightarrow> fs_options \<Rightarrow> cold_error + cold_tier" where
  "FsCreate b opts = (if fs_root opts = [] then Inl RootEmpty
     else if fs_create opts then (if mkdir_ok b then Inr (FilesystemColdTier opts) else Inl MkdirFailed)
     else if \<not> root_is_dir b then Inl NotADirectory
     else Inr (FilesystemColdTier opts))"

definition RestCreate :: "rest_options \<Rightarrow> BoundaryPolicy option \<Rightarrow> cold_error + cold_tier" where
  "RestCreate opts guard = (if base_url opts = [] then Inl BaseUrlEmpty
     else Inr (RestColdTier (opts\<lparr>base_url := TrimTrailingSlash (base_url opts)\<rparr>) guard))"

definition CreateBaseColdTier :: "build_env \<Rightarrow> cold_options \<Rightarrow> cold_error + cold_tier" where
  "CreateBaseColdTier b opts =
     (if cold_type opts = lit ''fs'' \<or> cold_type opts = lit ''fuse-mount'' then FsCreate b (cold_fs opts)
      else if cold_type opts = lit ''native-rest'' then RestCreate (cold_rest opts) (cold_guard opts)
      else Inl UnknownBackend)"

definition EncryptingCreate :: "build_env \<Rightarrow> bytes \<Rightarrow> cold_tier \<Rightarrow> cold_error + cold_tier" where
  "EncryptingCreate b key inner = (if \<not> have_openssl b then Inl NoOpenSsl
     else if length key \<noteq> kKeySize then Inl BadKeySize else Inr (EncryptingColdTier inner key))"

definition CreateColdTier :: "build_env \<Rightarrow> cold_options \<Rightarrow> cold_error + cold_tier" where
  "CreateColdTier b opts = (case CreateBaseColdTier b opts of
     Inl err \<Rightarrow> Inl err
   | Inr tier \<Rightarrow> (case (if enc_enabled opts then EncryptingCreate b (enc_key opts) tier else Inr tier) of
       Inl err \<Rightarrow> Inl err
     | Inr tier \<Rightarrow> (case (if comp_codec opts \<noteq> [] \<and> comp_codec opts \<noteq> lit ''none''
                           then (case MakeCodec (have_zstd b) (comp_codec opts) (comp_level opts) of
                                   None \<Rightarrow> Inl BadCodec | Some c \<Rightarrow> Inr (CompressingColdTier tier c))
                           else Inr tier) of
         Inl err \<Rightarrow> Inl err
       | Inr tier \<Rightarrow> Inr (if with_metrics opts then MetricsColdTier tier else tier))))"

subsection \<open>The contract of a cold tier\<close>

text \<open>
  \<open>view\<close> is the value a tier holds for a key. A call that reports failure may or may not have taken effect
  (a timeout after the object store has answered); whatever \<open>get\<close> returns is what the tier holds.
\<close>

datatype ('e, 'g, 'h) cold_op = CPut 'e bytes bytes | CGet 'g bytes | CDelete 'h bytes

fun outcomes :: "bytes \<Rightarrow> ('e, 'g, 'h) cold_op \<times> bool \<Rightarrow> bytes option set \<Rightarrow> bytes option set" where
  "outcomes k (CPut e k' d, ok) S = (if k' \<noteq> k then S else if ok then {Some d} else insert (Some d) S)"
| "outcomes k (CDelete h k', ok) S = (if k' \<noteq> k then S else if ok then {None} else insert None S)"
| "outcomes k (CGet g k', ok) S = S"

text \<open>A sequence of calls, with whether each reported success.\<close>

fun cold_trace ::
    "('e \<Rightarrow> bytes \<Rightarrow> bytes \<Rightarrow> 'w \<Rightarrow> (bool \<times> 'w) option) \<Rightarrow> ('g \<Rightarrow> bytes \<Rightarrow> 'w \<Rightarrow> (get_result \<times> 'w) option) \<Rightarrow>
     ('h \<Rightarrow> bytes \<Rightarrow> 'w \<Rightarrow> (bool \<times> 'w) option) \<Rightarrow> ('e, 'g, 'h) cold_op list \<Rightarrow> 'w \<Rightarrow>
     ((('e, 'g, 'h) cold_op \<times> bool) list \<times> 'w) option" where
  "cold_trace put get del [] w = Some ([], w)"
| "cold_trace put get del (CPut e k d # ops) w = (case put e k d w of
     None \<Rightarrow> None | Some (ok, w) \<Rightarrow> map_option (\<lambda>(tr, w). ((CPut e k d, ok) # tr, w)) (cold_trace put get del ops w))"
| "cold_trace put get del (CGet g k # ops) w = (case get g k w of
     None \<Rightarrow> None | Some (r, w) \<Rightarrow> map_option (\<lambda>(tr, w). ((CGet g k, True) # tr, w)) (cold_trace put get del ops w))"
| "cold_trace put get del (CDelete h k # ops) w = (case del h k w of
     None \<Rightarrow> None | Some (ok, w) \<Rightarrow> map_option (\<lambda>(tr, w). ((CDelete h k, ok) # tr, w)) (cold_trace put get del ops w))"

locale cold_store =
  fixes fits :: "bytes \<Rightarrow> bool"
    and put :: "'e \<Rightarrow> bytes \<Rightarrow> bytes \<Rightarrow> 'w \<Rightarrow> (bool \<times> 'w) option"
    and get :: "'g \<Rightarrow> bytes \<Rightarrow> 'w \<Rightarrow> (get_result \<times> 'w) option"
    and del :: "'h \<Rightarrow> bytes \<Rightarrow> 'w \<Rightarrow> (bool \<times> 'w) option"
    and view :: "'w \<Rightarrow> bytes \<Rightarrow> bytes option"
  assumes put_done: "fits d \<Longrightarrow> put e k d w = Some (True, w') \<Longrightarrow> view w' = (view w)(k \<mapsto> d)"
    and put_failed: "fits d \<Longrightarrow> put e k d w = Some (False, w') \<Longrightarrow> view w' = view w \<or> view w' = (view w)(k \<mapsto> d)"
    and get_sound: "get g k w = Some (Got v, w') \<Longrightarrow> view w k = Some v"
    and get_view: "get g k w = Some (r, w') \<Longrightarrow> view w' = view w"
    and del_done: "del h k w = Some (True, w') \<Longrightarrow> view w' = (view w)(k := None)"
    and del_failed: "del h k w = Some (False, w') \<Longrightarrow> view w' = view w \<or> view w' = (view w)(k := None)"
begin

lemma trace_view:
  "cold_trace put get del ops w = Some (tr, w') \<Longrightarrow> \<forall>e k d. CPut e k d \<in> set ops \<longrightarrow> fits d \<Longrightarrow> view w k \<in> S \<Longrightarrow>
     view w' k \<in> fold (outcomes k) tr S"
proof (induction ops arbitrary: w tr S)
  case (Cons p ops)
  show ?case
  proof (cases p)
    case (CPut e k' d)
    with Cons.prems obtain ok w1 tr1 where p: "put e k' d w = Some (ok, w1)" "fits d"
      and r: "cold_trace put get del ops w1 = Some (tr1, w')" "tr = (CPut e k' d, ok) # tr1"
      by (auto split: option.splits prod.splits)
    have "view w1 k \<in> outcomes k (CPut e k' d, ok) S"
      using put_done [of d e k' w w1] put_failed [of d e k' w w1] p Cons.prems(3) by (cases ok) (auto split: if_splits)
    then show ?thesis using Cons.IH [OF r(1)] Cons.prems(2) r(2) by simp
  next
    case (CGet g k')
    with Cons.prems obtain res w1 tr1 where p: "get g k' w = Some (res, w1)"
      and r: "cold_trace put get del ops w1 = Some (tr1, w')" "tr = (CGet g k', True) # tr1"
      by (auto split: option.splits prod.splits)
    then show ?thesis using Cons.IH [OF r(1)] Cons.prems(2,3) r(2) get_view [OF p] by simp
  next
    case (CDelete h k')
    with Cons.prems obtain ok w1 tr1 where p: "del h k' w = Some (ok, w1)"
      and r: "cold_trace put get del ops w1 = Some (tr1, w')" "tr = (CDelete h k', ok) # tr1"
      by (auto split: option.splits prod.splits)
    have "view w1 k \<in> outcomes k (CDelete h k', ok) S"
      using del_done [of h k' w w1] del_failed [of h k' w w1] p Cons.prems(3) by (cases ok) (auto split: if_splits)
    then show ?thesis using Cons.IH [OF r(1)] Cons.prems(2) r(2) by simp
  qed
qed simp

end

subsection \<open>The backends satisfy the contract\<close>

lemma HexOf_hex: "HexOf k = hex k"
  by (simp add: HexOf_def hex_def)

lemma HexOf_no_slash: "47 \<notin> set (HexOf k)"
proof -
  have "set kHex \<subseteq> - {47}" by code_simp
  moreover have "length kHex = 16" by (simp add: kHex_def)
  ultimately have "kHex ! n \<noteq> 47" if "n < 16" for n using that by (metis ComplD nth_mem singletonI subsetD)
  then show ?thesis using nibble_less by (auto simp: HexOf_def)
qed

lemma two_parts_inject:
  assumes "47 \<notin> set a" "47 \<notin> set b" "take 2 a @ 47 # drop 2 a @ c = take 2 b @ 47 # drop 2 b @ (c :: bytes)"
  shows "a = b"
proof -
  have n: "47 \<notin> set (take 2 a)" "47 \<notin> set (take 2 b)" using assms(1,2) by (meson in_set_takeD)+
  have "take 2 a = take 2 b \<and> drop 2 a @ c = drop 2 b @ c"
    using find_char_from_append [OF n(1), of "drop 2 a @ c" 0] find_char_from_append [OF n(2), of "drop 2 b @ c" 0] assms(3) by simp
  then show ?thesis by (metis append_same_eq append_take_drop_id)
qed

lemma FsPathFor_inject: "FsPathFor opts a = FsPathFor opts b \<longleftrightarrow> a = b"
  using two_parts_inject [OF HexOf_no_slash HexOf_no_slash, of a "lit ''.kv''" b]
  by (auto simp: FsPathFor_def Let_def substr_len_def substr_def HexOf_hex hex_inject)

lemma UrlFor_inject: "UrlFor opts a = UrlFor opts b \<longleftrightarrow> a = b"
  using two_parts_inject [OF HexOf_no_slash HexOf_no_slash, of a "lit ''.kv''" b]
  by (auto simp: UrlFor_def ObjectKeyFor_def Let_def substr_len_def substr_def HexOf_hex hex_inject)

lemma tmp_not_final: "FsPathFor opts a @ lit ''.tmp'' \<noteq> FsPathFor opts b"
proof
  assume "FsPathFor opts a @ lit ''.tmp'' = FsPathFor opts b"
  then have "last (FsPathFor opts a @ lit ''.tmp'') = last (FsPathFor opts b)" by simp
  then show False by (simp add: FsPathFor_def Let_def)
qed

lemma FsWriteAll_all: "FsWriteAll ws d f = Some (True, c) \<Longrightarrow> c = f @ d"
  by (induction ws d f rule: FsWriteAll.induct) auto

lemma FsReadLoop_all: "FsReadLoop rs c acc = Some (Got v) \<Longrightarrow> v = acc @ c"
  by (induction rs c acc rule: FsReadLoop.induct) (auto split: if_splits)

definition fs_view :: "fs_options \<Rightarrow> 's world \<Rightarrow> bytes \<Rightarrow> bytes option" where
  "fs_view opts w k = files w (FsPathFor opts k)"

lemma FsPut_cases:
  assumes "FsPut opts e k d fs = Some (ok, fs')"
  shows "\<not> ok \<and> (fs' = fs \<or> fs' = fs(FsPathFor opts k @ lit ''.tmp'' := None)) \<or>
    ok \<and> fs' = fs(FsPathFor opts k @ lit ''.tmp'' := None, FsPathFor opts k \<mapsto> d)"
proof (cases "put_open e")
  case True
  with assms obtain w c where wr: "FsWriteAll (put_writes e) d [] = Some (w, c)"
    by (cases "FsWriteAll (put_writes e) d []") (auto simp: FsPut_def Let_def)
  with FsWriteAll_all [of "put_writes e" d "[]" c] True assms show ?thesis
    unfolding FsPut_def by (auto simp: Let_def simp del: lit_simps split: if_splits)
next
  case False
  then show ?thesis using assms by (simp add: FsPut_def Let_def)
qed

lemma FsPut_view:
  assumes "FsPut opts e k d fs = Some (ok, fs')"
  shows "(\<lambda>q. fs' (FsPathFor opts q)) = (if ok then (\<lambda>q. fs (FsPathFor opts q))(k \<mapsto> d) else (\<lambda>q. fs (FsPathFor opts q)))"
proof -
  define t where "t = FsPathFor opts k @ lit ''.tmp''"
  have "t \<noteq> FsPathFor opts q" for q unfolding t_def by (rule tmp_not_final)
  then have t: "FsPathFor opts q \<noteq> t" for q by metis
  show ?thesis
    using FsPut_cases [OF assms] unfolding t_def [symmetric] by (elim disjE conjE) (simp_all add: t FsPathFor_inject fun_eq_iff)
qed

lemma fs_put_view:
  "ColdPut lib (FilesystemColdTier opts) e k d w = Some (ok, w') \<Longrightarrow>
     fs_view opts w' = (if ok then (fs_view opts w)(k \<mapsto> d) else fs_view opts w)"
  using FsPut_view [of opts e k d "files w" ok] by (auto simp: fs_view_def [abs_def])

interpretation fs: cold_store "\<lambda>d. True" "ColdPut lib (FilesystemColdTier opts)" "ColdGet lib (FilesystemColdTier opts)"
  "ColdDelete lib (FilesystemColdTier opts)" "fs_view opts"
  for lib :: "'s cold_lib" and opts
proof (unfold_locales, goal_cases)
  case (1 d e k w w')
  then show ?case using fs_put_view [OF 1(2)] by simp
next
  case (2 d e k w w')
  then show ?case using fs_put_view [OF 2(2)] by simp
qed (auto dest: FsReadLoop_all simp: FsGet_def FsDelete_def fs_view_def Let_def FsPathFor_inject fun_eq_iff split: option.splits if_splits)

text \<open>What the HTTP object store documents: \<open>objects s url\<close> is the object at a URL.\<close>

definition http_ok :: "'s transport \<Rightarrow> ('s \<Rightarrow> bytes \<Rightarrow> bytes option) \<Rightarrow> bool" where
  "http_ok request objects \<longleftrightarrow> (\<forall>url hs b s r s'.
     (request (lit ''PUT'') url hs b s = (r, s') \<longrightarrow>
        (if \<not> transport_err r \<and> success r then objects s' = (objects s)(url \<mapsto> b)
         else objects s' = objects s \<or> objects s' = (objects s)(url \<mapsto> b))) \<and>
     (request (lit ''GET'') url hs b s = (r, s') \<longrightarrow>
        objects s' = objects s \<and> (\<not> transport_err r \<and> success r \<longrightarrow> objects s url = Some (rbody r))) \<and>
     (request (lit ''DELETE'') url hs b s = (r, s') \<longrightarrow>
        (if \<not> transport_err r \<and> (status r = 404 \<or> success r) then objects s' = (objects s)(url := None)
         else objects s' = objects s \<or> objects s' = (objects s)(url := None))))"

definition rest_view :: "('s \<Rightarrow> bytes \<Rightarrow> bytes option) \<Rightarrow> rest_options \<Rightarrow> 's world \<Rightarrow> bytes \<Rightarrow> bytes option" where
  "rest_view objects opts w k = objects (server w) (UrlFor opts k)"

lemma RestRequest_cases:
  "RestRequest lib guard m url hs b w = Some (r, w') \<Longrightarrow>
     http lib m url hs b (server w) = (r, server w') \<or> server w' = server w \<and> transport_err r"
  by (auto simp: RestRequest_def GuardedRequest_def Let_def split: option.splits prod.splits if_splits)

lemma rest_view_upd:
  "objects (server w') = (objects (server w))(UrlFor opts k := v) \<Longrightarrow> rest_view objects opts w' = (rest_view objects opts w)(k := v)"
  by (auto simp: rest_view_def fun_eq_iff UrlFor_inject)

lemma rest_view_same: "objects (server w') = objects (server w) \<Longrightarrow> rest_view objects opts w' = rest_view objects opts w"
  by (simp add: rest_view_def fun_eq_iff)

lemma rest_put_view:
  assumes "http_ok (http lib) objects" and "RestPut lib opts guard k d w = Some (ok, w')"
  shows "if ok then rest_view objects opts w' = (rest_view objects opts w)(k \<mapsto> d)
    else rest_view objects opts w' = rest_view objects opts w \<or> rest_view objects opts w' = (rest_view objects opts w)(k \<mapsto> d)"
proof -
  obtain r where r: "RestRequest lib guard (lit ''PUT'') (UrlFor opts k)
      (Headers opts @ [lit ''Content-Type: application/octet-stream'']) d w = Some (r, w')" "ok = (\<not> transport_err r \<and> success r)"
    using assms(2) by (auto simp: RestPut_def simp del: lit_simps split: option.splits)
  from RestRequest_cases [OF r(1)] show ?thesis
  proof
    assume h: "http lib (lit ''PUT'') (UrlFor opts k) (Headers opts @ [lit ''Content-Type: application/octet-stream'']) d (server w) = (r, server w')"
    with assms(1) have "if ok then objects (server w') = (objects (server w))(UrlFor opts k \<mapsto> d)
      else objects (server w') = objects (server w) \<or> objects (server w') = (objects (server w))(UrlFor opts k \<mapsto> d)"
      unfolding http_ok_def r(2) by blast
    then show ?thesis using rest_view_upd [of objects w' w opts k] rest_view_same [of objects w' w] by (auto split: if_splits)
  next
    assume t: "server w' = server w \<and> transport_err r"
    then have "rest_view objects opts w' = rest_view objects opts w" by (simp add: rest_view_def fun_eq_iff)
    with t show ?thesis by (simp add: r(2))
  qed
qed

lemma rest_get_view:
  assumes "http_ok (http lib) objects" and "RestGet lib opts guard k w = Some (res, w')"
  shows "rest_view objects opts w' = rest_view objects opts w \<and> (\<forall>v. res = Got v \<longrightarrow> rest_view objects opts w k = Some v)"
proof -
  obtain r where r: "RestRequest lib guard (lit ''GET'') (UrlFor opts k) (Headers opts) [] w = Some (r, w')"
    "res = (if transport_err r then NotGot True else if status r = 404 then NotGot False else if \<not> success r then NotGot True else Got (rbody r))"
    using assms(2) by (auto simp: RestGet_def simp del: lit_simps split: option.splits)
  from RestRequest_cases [OF r(1)] show ?thesis
  proof
    assume h: "http lib (lit ''GET'') (UrlFor opts k) (Headers opts) [] (server w) = (r, server w')"
    with assms(1) have "objects (server w') = objects (server w) \<and>
        (\<not> transport_err r \<and> success r \<longrightarrow> objects (server w) (UrlFor opts k) = Some (rbody r))"
      unfolding http_ok_def by blast
    then show ?thesis using rest_view_same [of objects w' w] by (auto simp: r(2) rest_view_def split: if_splits)
  next
    assume t: "server w' = server w \<and> transport_err r"
    then have "rest_view objects opts w' = rest_view objects opts w" by (simp add: rest_view_def fun_eq_iff)
    with t show ?thesis by (simp add: r(2))
  qed
qed

lemma rest_delete_view:
  assumes "http_ok (http lib) objects" and "RestDelete lib opts guard k w = Some (ok, w')"
  shows "if ok then rest_view objects opts w' = (rest_view objects opts w)(k := None)
    else rest_view objects opts w' = rest_view objects opts w \<or> rest_view objects opts w' = (rest_view objects opts w)(k := None)"
proof -
  obtain r where r: "RestRequest lib guard (lit ''DELETE'') (UrlFor opts k) (Headers opts) [] w = Some (r, w')"
    "ok = (\<not> transport_err r \<and> (status r = 404 \<or> success r))"
    using assms(2) by (auto simp: RestDelete_def simp del: lit_simps split: option.splits)
  from RestRequest_cases [OF r(1)] show ?thesis
  proof
    assume h: "http lib (lit ''DELETE'') (UrlFor opts k) (Headers opts) [] (server w) = (r, server w')"
    with assms(1) have "if ok then objects (server w') = (objects (server w))(UrlFor opts k := None)
      else objects (server w') = objects (server w) \<or> objects (server w') = (objects (server w))(UrlFor opts k := None)"
      unfolding http_ok_def r(2) by blast
    then show ?thesis using rest_view_upd [of objects w' w opts k] rest_view_same [of objects w' w] by (auto split: if_splits)
  next
    assume t: "server w' = server w \<and> transport_err r"
    then have "rest_view objects opts w' = rest_view objects opts w" by (simp add: rest_view_def fun_eq_iff)
    with t show ?thesis by (simp add: r(2))
  qed
qed

lemma rest_cold_store:
  "http_ok (http lib) objects \<Longrightarrow> cold_store (\<lambda>d. True) (ColdPut lib (RestColdTier opts guard)) (ColdGet lib (RestColdTier opts guard))
     (ColdDelete lib (RestColdTier opts guard)) (rest_view objects opts)"
  by unfold_locales (auto dest: rest_put_view rest_get_view rest_delete_view)

subsection \<open>Decorators keep the contract\<close>

lemma decorated_cold_store:
  assumes c: "cold_store fits put get del view"
    and enc: "\<And>e d bb. fits' d \<Longrightarrow> enc e d = Some bb \<Longrightarrow> fits bb \<and> dcd bb = Some d"
  shows "cold_store fits' (\<lambda>e k d w. case enc e d of None \<Rightarrow> Some (False, w) | Some bb \<Rightarrow> put e k bb w)
    (\<lambda>g k w. decoded dcd (get g k w)) del (\<lambda>w k. case view w k of None \<Rightarrow> None | Some bb \<Rightarrow> dcd bb)"
proof (unfold_locales, goal_cases)
  case (1 d e k w w')
  then obtain bb where b: "enc e d = Some bb" "put e k bb w = Some (True, w')" by (cases "enc e d") auto
  with enc [OF 1(1) b(1)] cold_store.put_done [OF c _ b(2)] show ?case by (auto simp: fun_eq_iff)
next
  case (2 d e k w w')
  show ?case
  proof (cases "enc e d")
    case None
    with 2 show ?thesis by simp
  next
    case (Some bb)
    with 2 have "put e k bb w = Some (False, w')" by simp
    from cold_store.put_failed [OF c _ this] enc [OF 2(1) Some] have "view w' = view w \<or> view w' = (view w)(k \<mapsto> bb)" by simp
    with enc [OF 2(1) Some] show ?thesis by (auto simp: fun_eq_iff)
  qed
next
  case (3 g k w v w')
  then obtain bb where "get g k w = Some (Got bb, w')" "dcd bb = Some v"
    by (auto simp: decoded_def split: option.splits prod.splits get_result.splits)
  with cold_store.get_sound [OF c] show ?case by fastforce
next
  case (4 g k w r w')
  then obtain r' where "get g k w = Some (r', w')" by (auto simp: decoded_def split: option.splits prod.splits get_result.splits)
  with cold_store.get_view [OF c] show ?case by fastforce
next
  case (5 h k w w')
  with cold_store.del_done [OF c 5] show ?case by (auto simp: fun_eq_iff)
next
  case (6 h k w w')
  with cold_store.del_failed [OF c 6] show ?case by (auto simp: fun_eq_iff)
qed

text \<open>\<open>f\<close> and \<open>g\<close> only count: they leave what the tier holds.\<close>

lemma counted_cold_store:
  assumes c: "cold_store fits put get del view"
    and put: "\<And>e k d w ok w'. put' e k d w = Some (ok, w') \<Longrightarrow> \<exists>w1 w2. view w1 = view w \<and> put e k d w1 = Some (ok, w2) \<and> view w' = view w2"
    and get: "\<And>g k w r w'. get' g k w = Some (r, w') \<Longrightarrow> \<exists>w2. get g k w = Some (r, w2) \<and> view w' = view w2"
    and del: "\<And>h k w ok w'. del' h k w = Some (ok, w') \<Longrightarrow> \<exists>w1 w2. view w1 = view w \<and> del h k w1 = Some (ok, w2) \<and> view w' = view w2"
  shows "cold_store fits put' get' del' view"
proof (unfold_locales, goal_cases)
  case (1 d e k w w')
  from put [OF 1(2)] cold_store.put_done [OF c 1(1)] show ?case by metis
next
  case (2 d e k w w')
  from put [OF 2(2)] cold_store.put_failed [OF c 2(1)] show ?case by metis
next
  case (3 g k w v w')
  from get [OF 3] cold_store.get_sound [OF c] show ?case by metis
next
  case (4 g k w r w')
  from get [OF 4] cold_store.get_view [OF c] show ?case by metis
next
  case (5 h k w w')
  from del [OF 5] cold_store.del_done [OF c] show ?case by metis
next
  case (6 h k w w')
  from del [OF 6] cold_store.del_failed [OF c] show ?case by metis
qed

text \<open>What zstd and OpenSSL document.\<close>

definition lib_ok :: "'s cold_lib \<Rightarrow> ('s \<Rightarrow> bytes \<Rightarrow> bytes option) \<Rightarrow> bool" where
  "lib_ok lib objects \<longleftrightarrow> http_ok (http lib) objects \<and>
     (\<forall>level d p. zstd_compress lib level d = Some p \<longrightarrow>
        zstd_frame lib p = SizeIs (length d) \<and> zstd_decompress lib p (length d) = Some d) \<and>
     (\<forall>key nv d ct tag. length d < 2 ^ 31 \<longrightarrow> aes_seal lib key nv (int (length d)) d = Some (ct, tag) \<longrightarrow>
        length ct = length d \<and> length tag = kTagSize \<and> aes_open lib key nv (int (length d)) ct tag = Some d)"

lemma lib_ok_zstd:
  "lib_ok lib objects \<Longrightarrow> zstd_compress lib level d = Some p \<Longrightarrow>
     zstd_frame lib p = SizeIs (length d) \<and> zstd_decompress lib p (length d) = Some d"
  unfolding lib_ok_def by blast

lemma lib_ok_aes:
  "lib_ok lib objects \<Longrightarrow> length d < 2 ^ 31 \<Longrightarrow> aes_seal lib key nv (int (length d)) d = Some (ct, tag) \<Longrightarrow>
     length ct = length d \<and> length tag = kTagSize \<and> aes_open lib key nv (int (length d)) ct tag = Some d"
  unfolding lib_ok_def by blast

lemma unpack_pack:
  assumes "lib_ok lib objects" and "length d < 2 ^ 64" and "pack lib codec d = Some bb"
  shows "unpack lib codec bb = Some d"
proof -
  obtain p where p: "Compress lib codec d = Some p" "bb = WriteHeader (CodecIdOf codec) (of_nat (length d)) @ p"
    using assms(3) by (auto simp: pack_def split: option.splits)
  have "unat (of_nat (length d) :: u64) = length d" using assms(2) by (simp add: unsigned_of_nat take_bit_nat_eq_self)
  then have h: "ReadHeader bb = Some (CodecIdOf codec, of_nat (length d))" "drop kHeaderSizeB bb = p"
    by (simp_all add: p(2) ReadHeader_def WriteHeader_def kMagicB_def kHeaderSizeB_def)
  have "CodecForId codec (CodecIdOf codec) = Some codec" by (cases codec) (simp_all add: CodecForId_def kIdentity_def kZstd_def)
  moreover have "Decompress lib codec p (length d) = Some d" using lib_ok_zstd [OF assms(1), of _ d p] p(1) by (cases codec) auto
  ultimately show ?thesis using h \<open>unat (of_nat (length d) :: u64) = length d\<close> by (simp add: unpack_def)
qed

lemma int_cast_small: "n < 2 ^ 31 \<Longrightarrow> int_cast n = int n"
  by (simp add: int_cast_def signed_of_nat signed_take_bit_int_eq_self)

lemma unseal_seal:
  assumes "lib_ok lib objects" and "length d < 2 ^ 31" and "seal lib e key d = Some bb"
  shows "unseal lib key bb = Some d \<and> length bb = length d + 36"
proof -
  define nv where "nv = map (nonce e) [0..<kNonceSize]"
  obtain ct tag where s: "aes_seal lib key nv (int (length d)) d = Some (ct, tag)"
    and b: "bb = kMagicE @ [kAlgAes256Gcm, 0, 0, 0] @ nv @ tag @ into_buffer (length d) ct"
    using assms(2,3) by (auto simp: seal_def Let_def nv_def int_cast_small split: option.splits if_splits)
  have l: "length ct = length d" "length tag = kTagSize" "aes_open lib key nv (int (length d)) ct tag = Some d"
    using lib_ok_aes [OF assms(1,2) s] by simp_all
  have "length nv = 12" by (simp add: nv_def kNonceSize_def)
  with b l have "length bb = length d + 36" "take 4 bb = kMagicE" "bb ! 4 = kAlgAes256Gcm" "take kNonceSize (drop 8 bb) = nv"
    "take kTagSize (drop (8 + kNonceSize) bb) = tag" "drop kHeaderSizeE bb = ct"
    by (simp_all add: kMagicE_def kNonceSize_def kTagSize_def kHeaderSizeE_def into_buffer_def)
  then show ?thesis using l assms(2) by (simp add: unseal_def Let_def kHeaderSizeE_def int_cast_small into_buffer_def)
qed

subsection \<open>Every stack keeps the contract\<close>

primrec cold_view :: "'s cold_lib \<Rightarrow> ('s \<Rightarrow> bytes \<Rightarrow> bytes option) \<Rightarrow> cold_tier \<Rightarrow> 's world \<Rightarrow> bytes \<Rightarrow> bytes option" where
  "cold_view lib objects (FilesystemColdTier opts) = fs_view opts"
| "cold_view lib objects (RestColdTier opts guard) = rest_view objects opts"
| "cold_view lib objects (CompressingColdTier inner codec) =
     (\<lambda>w k. case cold_view lib objects inner w k of None \<Rightarrow> None | Some bb \<Rightarrow> unpack lib codec bb)"
| "cold_view lib objects (EncryptingColdTier inner key) =
     (\<lambda>w k. case cold_view lib objects inner w k of None \<Rightarrow> None | Some bb \<Rightarrow> unseal lib key bb)"
| "cold_view lib objects (MetricsColdTier inner) = cold_view lib objects inner"

text \<open>The sizes that the headers and the lengths passed to OpenSSL can carry.\<close>

primrec cold_fits :: "'s cold_lib \<Rightarrow> cold_tier \<Rightarrow> bytes \<Rightarrow> bool" where
  "cold_fits lib (FilesystemColdTier opts) = (\<lambda>d. True)"
| "cold_fits lib (RestColdTier opts guard) = (\<lambda>d. True)"
| "cold_fits lib (CompressingColdTier inner codec) =
     (\<lambda>d. length d < 2 ^ 64 \<and> (case pack lib codec d of None \<Rightarrow> True | Some bb \<Rightarrow> cold_fits lib inner bb))"
| "cold_fits lib (EncryptingColdTier inner key) =
     (\<lambda>d. length d < 2 ^ 31 \<and> (\<forall>bb. length bb = length d + 36 \<longrightarrow> cold_fits lib inner bb))"
| "cold_fits lib (MetricsColdTier inner) = cold_fits lib inner"

lemma cold_view_Inc [simp]: "cold_view lib objects t (Inc m n w) = cold_view lib objects t w"
  by (induction t) (auto simp: fs_view_def rest_view_def Inc_def)

lemma stack_cold_store:
  assumes "lib_ok lib objects"
  shows "cold_store (cold_fits lib t) (ColdPut lib t) (ColdGet lib t) (ColdDelete lib t) (cold_view lib objects t)"
proof (induction t)
  case (FilesystemColdTier opts)
  show ?case unfolding cold_fits.simps cold_view.simps by (rule fs.cold_store_axioms)
next
  case (RestColdTier opts guard)
  show ?case unfolding cold_fits.simps cold_view.simps by (rule rest_cold_store) (use assms in \<open>simp add: lib_ok_def\<close>)
next
  case (CompressingColdTier t codec)
  have e: "ColdPut lib (CompressingColdTier t codec) =
      (\<lambda>e k d w. case pack lib codec d of None \<Rightarrow> Some (False, w) | Some bb \<Rightarrow> ColdPut lib t e k bb w)"
    "ColdGet lib (CompressingColdTier t codec) = (\<lambda>g k w. decoded (unpack lib codec) (ColdGet lib t g k w))"
    "ColdDelete lib (CompressingColdTier t codec) = ColdDelete lib t" by (intro ext; simp)+
  show ?case unfolding e cold_view.simps
    by (rule decorated_cold_store [OF CompressingColdTier]) (use unpack_pack [OF assms] in auto)
next
  case (EncryptingColdTier t key)
  have e: "ColdPut lib (EncryptingColdTier t key) =
      (\<lambda>e k d w. case seal lib e key d of None \<Rightarrow> Some (False, w) | Some bb \<Rightarrow> ColdPut lib t e k bb w)"
    "ColdGet lib (EncryptingColdTier t key) = (\<lambda>g k w. decoded (unseal lib key) (ColdGet lib t g k w))"
    "ColdDelete lib (EncryptingColdTier t key) = ColdDelete lib t" by (intro ext; simp)+
  show ?case unfolding e cold_view.simps
    by (rule decorated_cold_store [OF EncryptingColdTier]) (use unseal_seal [OF assms] in auto)
next
  case (MetricsColdTier t)
  let ?v = "cold_view lib objects t"
  show ?case unfolding cold_fits.simps cold_view.simps
  proof (rule counted_cold_store [OF MetricsColdTier], goal_cases)
    case (1 e k d w ok w')
    then obtain w2 where "ColdPut lib t e k d (Inc put_total 1 w) = Some (ok, w2)" "?v w' = ?v w2" by (auto split: option.splits)
    then show ?case by (intro exI [of _ "Inc put_total 1 w"] exI [of _ w2]) simp
  next
    case (2 g k w r w')
    then show ?case by (auto split: option.splits get_result.splits bool.splits)
  next
    case (3 h k w ok w')
    then obtain w2 where "ColdDelete lib t h k (Inc delete_total 1 w) = Some (ok, w2)" "?v w' = ?v w2" by (auto split: option.splits)
    then show ?case by (intro exI [of _ "Inc delete_total 1 w"] exI [of _ w2]) simp
  qed
qed

subsection \<open>Properties\<close>

text \<open>C13: For every tier that the factory builds, over either backend and with any decorators, and after any
sequence of puts, gets and deletes with any failures: bytes that \<open>Get\<close> returns are what the tier held at the
start or what a put stored for the key, and only if no later put or delete of that key has reported success;
compression and encryption never show.\<close>

theorem cold_tier_last_write:
  assumes "CreateColdTier b opts = Inr t" and "lib_ok lib objects"
    and "cold_trace (ColdPut lib t) (ColdGet lib t) (ColdDelete lib t) ops w = Some (tr, w1)"
    and "\<forall>e k d. CPut e k d \<in> set ops \<longrightarrow> cold_fits lib t d"
    and "ColdGet lib t g k w1 = Some (Got v, w2)"
  shows "Some v \<in> fold (outcomes k) tr {cold_view lib objects t w k}"
proof -
  note st = stack_cold_store [OF assms(2), of t]
  show ?thesis
    using cold_store.trace_view [OF st assms(3,4), of k] cold_store.get_sound [OF st assms(5)] by simp
qed

text \<open>A read that is not cut short.\<close>

definition reads_grant :: "rres list \<Rightarrow> nat \<Rightarrow> bool" where
  "reads_grant rs n \<longleftrightarrow> RStop \<notin> set rs \<and> RGot 0 \<notin> set rs \<and> n \<le> length (filter (\<lambda>r. r \<noteq> REintr) rs)"

lemma FsReadLoop_returns: "reads_grant rs (length c) \<Longrightarrow> FsReadLoop rs c acc = Some (Got (acc @ c))"
proof (induction rs c acc rule: FsReadLoop.induct)
  case (5 n rs b p acc)
  then have "reads_grant rs (length (drop n (b # p)))" by (auto simp: reads_grant_def)
  with 5 show ?case by (auto simp: reads_grant_def)
qed (auto simp: reads_grant_def)

primrec base :: "cold_tier \<Rightarrow> cold_tier" where
  "base (FilesystemColdTier opts) = FilesystemColdTier opts"
| "base (RestColdTier opts guard) = RestColdTier opts guard"
| "base (CompressingColdTier inner codec) = base inner"
| "base (EncryptingColdTier inner key) = base inner"
| "base (MetricsColdTier inner) = base inner"

lemma fs_stack_get:
  assumes "get_open g" "get_stat g" and "\<forall>c. files w (FsPathFor opts k) = Some c \<longrightarrow> reads_grant (get_reads g) (length c)"
  shows "base t = FilesystemColdTier opts \<Longrightarrow> cold_view lib objects t w k = Some v \<Longrightarrow> \<exists>w'. ColdGet lib t g k w = Some (Got v, w')"
proof (induction t arbitrary: v)
  case (FilesystemColdTier o')
  then show ?case using assms FsReadLoop_returns [of "get_reads g" v "[]"] by (simp add: fs_view_def FsGet_def)
next
  case (CompressingColdTier t codec)
  then show ?case by (fastforce simp: decoded_def split: option.splits)
next
  case (EncryptingColdTier t key)
  then show ?case by (fastforce simp: decoded_def split: option.splits)
next
  case (MetricsColdTier t)
  then show ?case by fastforce
qed simp

lemma FsCreate_base: "FsCreate b o' = Inr t \<Longrightarrow> base t = FilesystemColdTier o'"
  by (auto simp: FsCreate_def split: if_splits)

lemma CreateColdTier_base:
  "CreateColdTier b opts = Inr t \<Longrightarrow> \<exists>t0. CreateBaseColdTier b opts = Inr t0 \<and> base t = base t0"
  by (auto simp: CreateColdTier_def EncryptingCreate_def split: sum.splits if_splits option.splits)

text \<open>C20: On a file-system tier with any decorators the factory allows, a \<open>Get\<close> after a successful \<open>Put\<close> returns
the bytes that were put, as soon as the file opens and reads to its end; a failing \<open>Put\<close> leaves what \<open>Get\<close>
returns.\<close>

theorem cold_put_get:
  assumes "CreateColdTier b opts = Inr t" and "cold_type opts = lit ''fs''" and "lib_ok lib objects" and "cold_fits lib t d"
    and "ColdPut lib t e k d w = Some (ok, w1)" and "get_open g" "get_stat g"
    and "\<forall>c. files w1 (FsPathFor (cold_fs opts) k) = Some c \<longrightarrow> reads_grant (get_reads g) (length c)"
  shows "if ok then \<exists>w2. ColdGet lib t g k w1 = Some (Got d, w2)
    else cold_view lib objects t w1 = cold_view lib objects t w"
proof -
  have base: "base t = FilesystemColdTier (cold_fs opts)"
    using CreateColdTier_base [OF assms(1)] FsCreate_base [of b "cold_fs opts"] assms(2) by (auto simp: CreateBaseColdTier_def)
  show ?thesis
  proof (cases ok)
    case True
    with assms(5) cold_store.put_done [OF stack_cold_store [OF assms(3), of t] assms(4)]
    have "cold_view lib objects t w1 k = Some d" by fastforce
    with fs_stack_get [OF assms(6-8) base] True show ?thesis by simp
  next
    case False
    have "cold_view lib objects t w1 = cold_view lib objects t w" using base assms(5) False
    proof (induction t arbitrary: d w w1)
      case (FilesystemColdTier o')
      then show ?case using fs_put_view [of lib o' e k d w False w1] by simp
    qed (auto split: option.splits prod.splits if_splits)
    with False show ?thesis by simp
  qed
qed

text \<open>The authentication of the encrypting tier covers neither the key a value is stored under nor the reserved
bytes of the header: a stored file that is copied to the path of another key, with a reserved byte changed, is
accepted and returned for that key.\<close>

theorem sealed_value_moves:
  assumes "cold_view lib objects (EncryptingColdTier (FilesystemColdTier opts) key) w k1 = Some v"
    and "files w (FsPathFor opts k1) = Some bb" and "5 \<le> i" "i < 8"
    and "w' = w\<lparr>files := (files w)(FsPathFor opts k2 \<mapsto> bb[i := x])\<rparr>"
    and "get_open g" "get_stat g" "reads_grant (get_reads g) (length bb)"
  shows "\<exists>w''. ColdGet lib (EncryptingColdTier (FilesystemColdTier opts) key) g k2 w' = Some (Got v, w'')"
proof -
  have "unseal lib key bb = Some v" using assms(1,2) by (simp add: fs_view_def)
  moreover have "unseal lib key (bb[i := x]) = unseal lib key bb"
    using assms(3,4) by (simp add: unseal_def kHeaderSizeE_def kNonceSize_def drop_update_cancel take_update_cancel)
  ultimately have "cold_view lib objects (EncryptingColdTier (FilesystemColdTier opts) key) w' k2 = Some v"
    by (simp add: assms(5) fs_view_def)
  then show ?thesis by (intro fs_stack_get [of g w' opts k2]) (use assms(5-8) in auto)
qed

subsection \<open>A library that satisfies its documentation\<close>

definition mem_http :: "(bytes \<rightharpoonup> bytes) transport" where
  "mem_http m url hs b s = (let answer = (\<lambda>n v. \<lparr>status = n, rbody = v, transport_err = False\<rparr>) in
     if m = lit ''PUT'' then (answer 200 [], s(url \<mapsto> b))
     else if m = lit ''DELETE'' then (answer 204 [], s(url := None))
     else (case s url of None \<Rightarrow> (answer 404 [], s) | Some v \<Rightarrow> (answer 200 v, s)))"

definition mem_lib :: "(bytes \<rightharpoonup> bytes) cold_lib" where
  "mem_lib = \<lparr>http = mem_http, zstd_compress = (\<lambda>level d. Some (rev d)), zstd_frame = (\<lambda>p. SizeIs (length p)),
     zstd_decompress = (\<lambda>p n. Some (rev p)), aes_seal = (\<lambda>key nv n d. Some (map ((+) 1) d, replicate 16 (hd key))),
     aes_open = (\<lambda>key nv n ct tag. if tag = replicate 16 (hd key) then Some (map (\<lambda>b. b - 1) ct) else None)\<rparr>"

lemma mem_lib_ok: "lib_ok mem_lib (\<lambda>s. s)"
proof -
  have "http_ok mem_http (\<lambda>s. s)"
    by (auto simp: http_ok_def mem_http_def success_def Let_def split: option.splits if_splits)
  then show ?thesis by (auto simp: lib_ok_def mem_lib_def kTagSize_def comp_def)
qed

definition full_stack :: cold_options where
  "full_stack = \<lparr>cold_type = lit ''fs'', cold_fs = \<lparr>fs_root = lit ''/c'', fs_create = True, fsync_on_put = True\<rparr>,
     cold_rest = \<lparr>base_url = [], key_prefix = [], bearer_token = []\<rparr>, comp_codec = lit ''zstd'', comp_level = 3,
     enc_enabled = True, enc_key = replicate 32 7, with_metrics = True, cold_guard = None\<rparr>"

definition full_build :: build_env where
  "full_build = \<lparr>have_openssl = True, have_zstd = True, mkdir_ok = True, root_is_dir = True\<rparr>"

definition full_tier :: cold_tier where
  "full_tier = MetricsColdTier (CompressingColdTier (EncryptingColdTier (FilesystemColdTier (cold_fs full_stack)) (enc_key full_stack)) (ZstdCodec 3))"

definition empty_world :: "(bytes \<rightharpoonup> bytes) world" where
  "empty_world = \<lparr>files = Map.empty, server = Map.empty, denied = [], counters = (\<lambda>m. 0)\<rparr>"

definition calm_put :: put_env where
  "calm_put = \<lparr>rand_ok = True, nonce = of_nat, put_open = True, put_writes = [Wrote 9, WEintr, Wrote 99], put_fsync = True, put_rename = True\<rparr>"

definition calm_get :: get_env where
  "calm_get = \<lparr>get_open = True, get_stat = True, get_reads = replicate 60 (RGot 1)\<rparr>"

lemma full_created: "CreateColdTier full_build full_stack = Inr full_tier"
  by (simp add: CreateColdTier_def CreateBaseColdTier_def FsCreate_def EncryptingCreate_def MakeCodec_def full_build_def full_stack_def
      full_tier_def kKeySize_def)

lemma full_fits: "length d < 1000 \<Longrightarrow> cold_fits mem_lib full_tier d"
  by (simp add: full_tier_def mem_lib_def pack_def WriteHeader_def kMagicB_def)

subsection \<open>Witnesses\<close>

definition some_key :: bytes where "some_key = replicate 16 171"

lemma full_put_get:
  "case ColdPut mem_lib full_tier calm_put some_key [5, 6] empty_world of None \<Rightarrow> False
   | Some (ok, w) \<Rightarrow> ok \<and> map_option length (files w (FsPathFor (cold_fs full_stack) some_key)) = Some 54 \<and>
       map_option fst (ColdGet mem_lib full_tier calm_get some_key w) = Some (Got [5, 6])"
  by code_simp

theorem cold_tier_last_write_witness:
  "\<exists>tr w1 w2. cold_trace (ColdPut mem_lib full_tier) (ColdGet mem_lib full_tier) (ColdDelete mem_lib full_tier)
       [CPut calm_put some_key [5, 6]] empty_world = Some (tr, w1) \<and>
     ColdGet mem_lib full_tier calm_get some_key w1 = Some (Got [5, 6], w2) \<and>
     Some [5, 6] \<in> fold (outcomes some_key) tr {cold_view mem_lib (\<lambda>s. s) full_tier empty_world some_key}"
proof -
  obtain w1 w2 where w: "ColdPut mem_lib full_tier calm_put some_key [5, 6] empty_world = Some (True, w1)"
    "ColdGet mem_lib full_tier calm_get some_key w1 = Some (Got [5, 6], w2)"
    using full_put_get by (auto split: option.splits)
  then have t: "cold_trace (ColdPut mem_lib full_tier) (ColdGet mem_lib full_tier) (ColdDelete mem_lib full_tier)
      [CPut calm_put some_key [5, 6]] empty_world = Some ([(CPut calm_put some_key [5, 6], True)], w1)" by simp
  have f: "\<forall>e k d. CPut e k d \<in> set [CPut calm_put some_key [5, 6]] \<longrightarrow> cold_fits mem_lib full_tier d"
    by (auto intro: full_fits)
  show ?thesis using cold_tier_last_write [OF full_created mem_lib_ok t f w(2)] t w(2) by blast
qed

theorem cold_put_get_witness:
  "\<exists>w1 w2. ColdPut mem_lib full_tier calm_put some_key [5, 6] empty_world = Some (True, w1) \<and>
     ColdGet mem_lib full_tier calm_get some_key w1 = Some (Got [5, 6], w2)"
proof -
  obtain w1 c where w: "ColdPut mem_lib full_tier calm_put some_key [5, 6] empty_world = Some (True, w1)"
    "files w1 (FsPathFor (cold_fs full_stack) some_key) = Some c" "length c = 54"
    using full_put_get by (auto split: option.splits)
  have "cold_type full_stack = lit ''fs''" "get_open calm_get" "get_stat calm_get" "reads_grant (get_reads calm_get) 54"
    by (simp_all add: full_stack_def calm_get_def reads_grant_def)
  then show ?thesis
    using cold_put_get [OF full_created _ mem_lib_ok full_fits w(1), of calm_get] w by auto
qed

definition sealed_blob :: bytes where
  "sealed_blob = kMagicE @ [1, 0, 0, 0] @ replicate 12 0 @ replicate 16 7 @ [9]"

theorem sealed_value_moves_witness:
  "let opts = cold_fs full_stack; t = EncryptingColdTier (FilesystemColdTier opts) (replicate 32 7);
       w = empty_world\<lparr>files := [FsPathFor opts [1] \<mapsto> sealed_blob]\<rparr> in
   cold_view mem_lib (\<lambda>s. s) t w [1] = Some [8] \<and>
   (\<exists>w''. ColdGet mem_lib t calm_get [2] (w\<lparr>files := (files w)(FsPathFor opts [2] \<mapsto> sealed_blob[6 := 99])\<rparr>) = Some (Got [8], w''))"
proof -
  let ?o = "cold_fs full_stack" and ?k = "replicate 32 7 :: bytes"
  let ?w = "empty_world\<lparr>files := [FsPathFor ?o [1] \<mapsto> sealed_blob]\<rparr>"
  have "unseal mem_lib ?k sealed_blob = Some [8]" by code_simp
  then have v: "cold_view mem_lib (\<lambda>s. s) (EncryptingColdTier (FilesystemColdTier ?o) ?k) ?w [1] = Some [8]"
    by (simp add: fs_view_def)
  have g: "get_open calm_get" "get_stat calm_get" "reads_grant (get_reads calm_get) (length sealed_blob)"
    by (simp_all add: calm_get_def reads_grant_def sealed_blob_def kMagicE_def)
  show ?thesis using sealed_value_moves [OF v _ _ _ refl g, where i = 6 and ?k2.0 = "[2]" and x = 99] v by (simp add: Let_def)
qed

end
