(* ===== verification/TierManager.thy ===== *)
theory TierManager
  imports DramTier NvmeTier ColdTier
begin

section \<open>The tier manager\<close>

text \<open>
  \<open>tier/tier_manager.{h,cpp}\<close>: DRAM over NVMe over the cold tier, with the unified \<open>Fetch\<close> that looks in
  that order and promotes what it finds. The tiers are those of \<open>DramTier\<close>, \<open>NvmeTier\<close> and \<open>ColdTier\<close>. The
  evicted keys are those the DRAM tier reports to its callback.
\<close>

record 's TierManager =
  tm_dram :: DramTier
  tm_nvme :: "NvmeTier option"
  tm_cold :: "cold_tier option"
  tm_world :: "'s world"
  promote_cold_to_dram :: bool
  promote_cold_to_nvme :: bool
  promote_nvme_to_dram :: bool

text \<open>The answers of the kernel during one operation.\<close>

record tier_env =
  te_reads :: "rres list"
  te_writes :: "wres list"
  te_synced :: bool
  te_put :: put_env
  te_get :: get_env
  te_unlinked :: bool

datatype TierHit = FetchMiss | FetchDram | FetchNvme | FetchCold

text \<open>\<open>StageToDram\<close>, with the keys that were evicted.\<close>

definition TmStage :: "DramKey \<Rightarrow> bytes \<Rightarrow> u16 \<Rightarrow> 's TierManager \<Rightarrow> DramKey list \<times> 's TierManager" where
  "TmStage k d kind s = (case DramTier.Insert k d kind (tm_dram s) of (dr, gone) \<Rightarrow> (gone, s\<lparr>tm_dram := dr\<rparr>))"

definition PutNvme :: "tier_env \<Rightarrow> DramKey \<Rightarrow> bytes \<Rightarrow> 's TierManager \<Rightarrow> (bool \<times> 's TierManager) option" where
  "PutNvme e k d s = (case tm_nvme s of
     None \<Rightarrow> Some (False, s)
   | Some nv \<Rightarrow> map_option (\<lambda>(ok, nv). (ok, s\<lparr>tm_nvme := Some nv\<rparr>)) (NvmePut (te_writes e) (te_synced e) k d nv))"

definition GetNvme :: "tier_env \<Rightarrow> DramKey \<Rightarrow> 's TierManager \<Rightarrow> bytes option option" where
  "GetNvme e k s = (case tm_nvme s of None \<Rightarrow> Some None | Some nv \<Rightarrow> NvmeGet (te_reads e) k nv)"

definition EraseNvme :: "DramKey \<Rightarrow> 's TierManager \<Rightarrow> bool \<times> 's TierManager" where
  "EraseNvme k s = (case tm_nvme s of
     None \<Rightarrow> (False, s) | Some nv \<Rightarrow> (case NvmeErase k nv of (ok, nv) \<Rightarrow> (ok, s\<lparr>tm_nvme := Some nv\<rparr>)))"

definition PutCold :: "'s cold_lib \<Rightarrow> tier_env \<Rightarrow> DramKey \<Rightarrow> bytes \<Rightarrow> 's TierManager \<Rightarrow> (bool \<times> 's TierManager) option" where
  "PutCold lib e k d s = (case tm_cold s of
     None \<Rightarrow> Some (False, s)
   | Some c \<Rightarrow> map_option (\<lambda>(ok, w). (ok, s\<lparr>tm_world := w\<rparr>)) (ColdPut lib c (te_put e) k d (tm_world s)))"

definition GetCold :: "'s cold_lib \<Rightarrow> tier_env \<Rightarrow> DramKey \<Rightarrow> 's TierManager \<Rightarrow> (get_result \<times> 's TierManager) option" where
  "GetCold lib e k s = (case tm_cold s of
     None \<Rightarrow> Some (NotGot True, s)
   | Some c \<Rightarrow> map_option (\<lambda>(r, w). (r, s\<lparr>tm_world := w\<rparr>)) (ColdGet lib c (te_get e) k (tm_world s)))"

definition EraseCold :: "'s cold_lib \<Rightarrow> tier_env \<Rightarrow> DramKey \<Rightarrow> 's TierManager \<Rightarrow> (bool \<times> 's TierManager) option" where
  "EraseCold lib e k s = (case tm_cold s of
     None \<Rightarrow> Some (False, s)
   | Some c \<Rightarrow> map_option (\<lambda>(ok, w). (ok, s\<lparr>tm_world := w\<rparr>)) (ColdDelete lib c (te_unlinked e) k (tm_world s)))"

text \<open>Promotion into DRAM, always as a cache entry.\<close>

definition promote_dram :: "bool \<Rightarrow> DramKey \<Rightarrow> bytes \<Rightarrow> 's TierManager \<Rightarrow> DramKey list \<times> 's TierManager" where
  "promote_dram on k d s = (if on then TmStage k d SK_KV s else ([], s))"

text \<open>The third part of \<open>Fetch\<close>: the cold tier.\<close>

definition fetch_cold ::
    "'s cold_lib \<Rightarrow> tier_env \<Rightarrow> DramKey \<Rightarrow> 's TierManager \<Rightarrow> ((TierHit \<times> bytes) \<times> DramKey list \<times> 's TierManager) option" where
  "fetch_cold lib e k s = (if tm_cold s = None then Some ((FetchMiss, []), [], s)
     else case GetCold lib e k s of
       None \<Rightarrow> None
     | Some (NotGot err, s) \<Rightarrow> Some ((FetchMiss, []), [], s)
     | Some (Got v, s) \<Rightarrow>
         (case (if promote_cold_to_nvme s \<and> tm_nvme s \<noteq> None then PutNvme e k v s else Some (True, s)) of
            None \<Rightarrow> None
          | Some (ok, s) \<Rightarrow> (case promote_dram (promote_cold_to_dram s) k v s of
              (gone, s) \<Rightarrow> Some ((FetchCold, v), gone, s))))"

definition Fetch ::
    "'s cold_lib \<Rightarrow> tier_env \<Rightarrow> DramKey \<Rightarrow> 's TierManager \<Rightarrow> ((TierHit \<times> bytes) \<times> DramKey list \<times> 's TierManager) option" where
  "Fetch lib e k s = (case DramTier.Lookup k (tm_dram s) of (r, dr) \<Rightarrow>
     let s = s\<lparr>tm_dram := dr\<rparr> in
     if where_hit r \<in> {kA1in, kAm} then Some ((FetchDram, hit_data r), [], s)
     else case GetNvme e k s of
       None \<Rightarrow> None
     | Some (Some v) \<Rightarrow> (case promote_dram (promote_nvme_to_dram s) k v s of
         (gone, s) \<Rightarrow> Some ((FetchNvme, v), gone, s))
     | Some None \<Rightarrow> fetch_cold lib e k s)"

subsection \<open>Coherence\<close>

text \<open>The value of each tier for a key, and tiers that hold nothing but the values of \<open>V\<close>.\<close>

definition dram_value :: "'s TierManager \<Rightarrow> DramKey \<rightharpoonup> bytes" where
  "dram_value s k = map_option fst (contents (tm_dram s) k)"

definition nvme_value :: "'s TierManager \<Rightarrow> DramKey \<rightharpoonup> bytes" where
  "nvme_value s k = (case tm_nvme s of None \<Rightarrow> None | Some nv \<Rightarrow> nvme_contents nv k)"

definition cold_value :: "'s cold_lib \<Rightarrow> ('s \<Rightarrow> bytes \<Rightarrow> bytes option) \<Rightarrow> 's TierManager \<Rightarrow> DramKey \<rightharpoonup> bytes" where
  "cold_value lib objects s k = (case tm_cold s of None \<Rightarrow> None | Some c \<Rightarrow> cold_view lib objects c (tm_world s) k)"

definition tiers_ok :: "'s cold_lib \<Rightarrow> ('s \<Rightarrow> bytes \<Rightarrow> bytes option) \<Rightarrow> (DramKey \<rightharpoonup> bytes) \<Rightarrow> 's TierManager \<Rightarrow> bool" where
  "tiers_ok lib objects V s \<longleftrightarrow> dram_inv (tm_dram s) \<and> (\<forall>nv. tm_nvme s = Some nv \<longrightarrow> nvme_inv nv) \<and>
     dram_value s \<subseteq>\<^sub>m V \<and> nvme_value s \<subseteq>\<^sub>m V \<and> cold_value lib objects s \<subseteq>\<^sub>m V"

lemma value_upd [simp]:
  "nvme_value (s\<lparr>tm_dram := dr\<rparr>) = nvme_value s" "cold_value lib objects (s\<lparr>tm_dram := dr\<rparr>) = cold_value lib objects s"
  "dram_value (s\<lparr>tm_nvme := nv\<rparr>) = dram_value s" "cold_value lib objects (s\<lparr>tm_nvme := nv\<rparr>) = cold_value lib objects s"
  "dram_value (s\<lparr>tm_world := w\<rparr>) = dram_value s" "nvme_value (s\<lparr>tm_world := w\<rparr>) = nvme_value s"
  by (rule ext; simp add: dram_value_def nvme_value_def cold_value_def split: option.split)+

lemma nvme_value_some: "tm_nvme s = Some nv \<Longrightarrow> nvme_value s = nvme_contents nv"
  by (rule ext) (simp add: nvme_value_def)

lemma TmStage_ok:
  assumes "tiers_ok lib objects V s" and "TmStage k d kind s = (gone, s')" and "V k = Some d"
  shows "tiers_ok lib objects V s' \<and> cold_value lib objects s' = cold_value lib objects s \<and> nvme_value s' = nvme_value s"
proof -
  obtain dr where i: "DramTier.Insert k d kind (tm_dram s) = (dr, gone)" "s' = s\<lparr>tm_dram := dr\<rparr>"
    using assms(2) by (auto simp: TmStage_def split: prod.splits)
  have "dram_inv (tm_dram s)" using assms(1) by (simp add: tiers_ok_def)
  from Insert_inserted [OF this i(1)] have "dram_inv dr" "contents dr = ((contents (tm_dram s))(k \<mapsto> (d, kind))) |` (- set gone)"
    by (simp_all add: inserted_def)
  moreover have "dram_value s' \<subseteq>\<^sub>m V" if "dram_value s \<subseteq>\<^sub>m V"
    using that assms(3) calculation(2) i(2) by (auto simp: dram_value_def map_le_def restrict_map_def dom_def split: if_splits)
  ultimately show ?thesis using assms(1) i(2) by (simp add: tiers_ok_def)
qed

lemma promote_dram_ok:
  assumes "tiers_ok lib objects V s" and "promote_dram on k d s = (gone, s')" and "V k = Some d"
  shows "tiers_ok lib objects V s' \<and> cold_value lib objects s' = cold_value lib objects s \<and> nvme_value s' = nvme_value s"
  using TmStage_ok [OF assms(1) _ assms(3)] assms(1,2) by (auto simp: promote_dram_def split: if_splits)

lemma PutNvme_ok:
  assumes "tiers_ok lib objects V s" and "PutNvme e k d s = Some (ok, s')" and "V k = Some d"
  shows "tiers_ok lib objects V s' \<and> cold_value lib objects s' = cold_value lib objects s \<and> dram_value s' = dram_value s"
proof (cases "tm_nvme s")
  case None
  with assms show ?thesis by (simp add: PutNvme_def)
next
  case (Some nv)
  then obtain nv' where n: "NvmePut (te_writes e) (te_synced e) k d nv = Some (ok, nv')" "s' = s\<lparr>tm_nvme := Some nv'\<rparr>"
    using assms(2) by (auto simp: PutNvme_def)
  have inv: "nvme_inv nv" "nvme_contents nv \<subseteq>\<^sub>m V" using assms(1) Some by (simp_all add: tiers_ok_def nvme_value_some)
  have "nvme_contents nv' \<subseteq>\<^sub>m V" using NvmePut_spec [OF inv(1) n(1)] inv(2) assms(3) by (auto simp: map_le_def dom_def split: if_splits)
  with NvmePut_spec [OF inv(1) n(1)] assms(1) n(2) show ?thesis
    by (simp add: tiers_ok_def nvme_value_some)
qed

lemma GetCold_ok:
  assumes "tiers_ok lib objects V s" and "lib_ok lib objects" and "GetCold lib e k s = Some (r, s')"
  shows "tiers_ok lib objects V s' \<and> (\<forall>v. r = Got v \<longrightarrow> V k = Some v)"
proof (cases "tm_cold s")
  case None
  with assms show ?thesis by (auto simp: GetCold_def)
next
  case (Some c)
  then obtain w where g: "ColdGet lib c (te_get e) k (tm_world s) = Some (r, w)" "s' = s\<lparr>tm_world := w\<rparr>"
    using assms(3) by (auto simp: GetCold_def)
  note st = stack_cold_store [OF assms(2), of c]
  have "cold_value lib objects s' = cold_value lib objects s"
    using cold_store.get_view [OF st g(1)] g(2) Some by (auto simp: cold_value_def)
  moreover have "V k = Some v" if "r = Got v" for v
  proof -
    have "cold_value lib objects s k = Some v" using cold_store.get_sound [OF st] g(1) that Some by (simp add: cold_value_def)
    then show ?thesis using assms(1) by (auto simp: tiers_ok_def map_le_def dom_def)
  qed
  ultimately show ?thesis using assms(1) g(2) by (simp add: tiers_ok_def)
qed

lemma fetch_cold_ok:
  assumes "tiers_ok lib objects V s" and "lib_ok lib objects" and "fetch_cold lib e k s = Some ((hit, v), gone, s')"
  shows "tiers_ok lib objects V s' \<and> (hit \<noteq> FetchMiss \<longrightarrow> V k = Some v) \<and> hit \<in> {FetchMiss, FetchCold}"
proof (cases "tm_cold s = None")
  case True
  with assms show ?thesis by (auto simp: fetch_cold_def)
next
  case False
  then obtain r s1 where g: "GetCold lib e k s = Some (r, s1)" using assms(3) by (auto simp: fetch_cold_def split: option.splits)
  note ok = GetCold_ok [OF assms(1,2) g]
  show ?thesis
  proof (cases r)
    case (NotGot err)
    with assms(3) False g ok show ?thesis by (auto simp: fetch_cold_def)
  next
    case (Got u)
    define n where "n = (if promote_cold_to_nvme s1 \<and> tm_nvme s1 \<noteq> None then PutNvme e k u s1 else Some (True, s1))"
    have f: "fetch_cold lib e k s = (case n of None \<Rightarrow> None | Some (ok, s) \<Rightarrow> (case promote_dram (promote_cold_to_dram s) k u s of
        (gone, s) \<Rightarrow> Some ((FetchCold, u), gone, s)))" 
      by (simp only: fetch_cold_def n_def False g Got if_False option.case prod.case get_result.case)
    obtain b s2 where n: "n = Some (b, s2)" using assms(3) f by (cases n) auto
    obtain g2 s3 where d: "promote_dram (promote_cold_to_dram s2) k u s2 = (g2, s3)" by fastforce
    have p: "n = Some (b, s2)" "promote_dram (promote_cold_to_dram s2) k u s2 = (gone, s')" "hit = FetchCold" "v = u"
      using assms(3) f n d by auto
    have V: "V k = Some u" using ok Got by simp
    then have "tiers_ok lib objects V s2" using p(1) PutNvme_ok [OF conjunct1 [OF ok], of e k u b s2] ok
      by (auto simp: n_def split: if_splits)
    with promote_dram_ok [OF this p(2) V] p(3,4) V show ?thesis by simp
  qed
qed

subsection \<open>Properties\<close>

text \<open>C14: While no tier holds anything but the current value of each key, \<open>Fetch\<close> returns the current value of
its key or nothing, and promotion keeps the tiers that way, whatever reads, writes and synchronisations fail
and whatever the DRAM tier evicts. A key that is in DRAM is found there; a miss means that no tier gave the key.\<close>

theorem Fetch_coherent:
  assumes "tiers_ok lib objects V s" and "lib_ok lib objects" and "Fetch lib e k s = Some ((hit, v), gone, s')"
  shows "tiers_ok lib objects V s' \<and> (hit \<noteq> FetchMiss \<longrightarrow> V k = Some v) \<and>
    (hit = FetchDram \<longleftrightarrow> dram_value s k \<noteq> None) \<and> (hit = FetchNvme \<longrightarrow> nvme_value s k = Some v)"
proof -
  obtain r dr where l: "DramTier.Lookup k (tm_dram s) = (r, dr)" by fastforce
  define s1 where "s1 = s\<lparr>tm_dram := dr\<rparr>"
  have "dram_inv (tm_dram s)" using assms(1) by (simp add: tiers_ok_def)
  note lk = Lookup_spec [OF this l]
  have dv: "dram_value s1 = dram_value s" using lk by (simp add: s1_def dram_value_def fun_eq_iff)
  have ok1: "tiers_ok lib objects V s1" using assms(1) lk dv by (simp add: tiers_ok_def s1_def)
  have f: "Fetch lib e k s = (if where_hit r \<in> {kA1in, kAm} then Some ((FetchDram, hit_data r), [], s1)
     else case GetNvme e k s1 of None \<Rightarrow> None
     | Some (Some v) \<Rightarrow> (case promote_dram (promote_nvme_to_dram s1) k v s1 of (gone, s) \<Rightarrow> Some ((FetchNvme, v), gone, s))
     | Some None \<Rightarrow> fetch_cold lib e k s1)" by (simp only: Fetch_def l prod.case Let_def s1_def)
  show ?thesis
  proof (cases "dram_value s k")
    case (Some u)
    then obtain kind where "contents (tm_dram s) k = Some (u, kind)" by (auto simp: dram_value_def)
    then have r: "hit_data r = u" "where_hit r \<in> {kA1in, kAm}" using lk by auto
    then have "hit = FetchDram" "v = u" "s' = s1" using assms(3) f by simp_all
    then show ?thesis using ok1 Some assms(1) by (auto simp: tiers_ok_def map_le_def dom_def)
  next
    case None
    then have r: "where_hit r \<notin> {kA1in, kAm}" using lk by (auto simp: dram_value_def)
    show ?thesis
    proof (cases "GetNvme e k s1 = Some None")
      case True
      then have "fetch_cold lib e k s1 = Some ((hit, v), gone, s')" using assms(3) f r by simp
      from fetch_cold_ok [OF ok1 assms(2) this] None show ?thesis by auto
    next
      case False
      then obtain u where u: "GetNvme e k s1 = Some (Some u)" using assms(3) f r by (cases "GetNvme e k s1") auto
      obtain g2 s3 where d: "promote_dram (promote_nvme_to_dram s1) k u s1 = (g2, s3)" by fastforce
      have p: "promote_dram (promote_nvme_to_dram s1) k u s1 = (gone, s')" and h: "hit = FetchNvme" "v = u"
        using assms(3) f r u d by simp_all
      obtain nv where nv: "tm_nvme s1 = Some nv" "NvmeGet (te_reads e) k nv = Some (Some u)"
        using u by (auto simp: GetNvme_def split: option.splits)
      have "nvme_inv nv" using ok1 nv(1) by (simp add: tiers_ok_def)
      then have n: "nvme_value s1 k = Some u" using NvmeGet_sound nv by (simp add: nvme_value_some)
      then have "V k = Some u" using ok1 by (auto simp: tiers_ok_def map_le_def dom_def)
      with promote_dram_ok [OF ok1 p] None n h show ?thesis by (simp add: s1_def)
    qed
  qed
qed

definition small_tiers :: "(bytes \<rightharpoonup> bytes) TierManager" where
  "small_tiers = \<lparr>tm_dram = DramTier_new 10 10 (Some node_registry),
     tm_nvme = Some (small_pool\<lparr>nv_pool := 7 # replicate 7 0, nv_free := [1], nv_index := [[1] \<mapsto> (0, 1)], nv_in_use := 1\<rparr>),
     tm_cold = None, tm_world = empty_world, promote_cold_to_dram = True, promote_cold_to_nvme = True, promote_nvme_to_dram = True\<rparr>"

lemma small_tiers_ok: "tiers_ok mem_lib (\<lambda>s. s) [[1] \<mapsto> [7]] small_tiers"
proof -
  have p: "NvmePut [Wrote 1] True [1] [7] small_pool = Some (True, the (tm_nvme small_tiers))"
    by (simp add: small_tiers_def small_pool_def NvmePut_def put_claim_def Let_def pwrite_def eval_nat_numeral)
  have "nvme_inv small_pool" "nvme_contents small_pool = Map.empty" using NvmeCreate_inv [OF small_nvme_created] by simp_all
  with NvmePut_spec [OF _ p] have n: "nvme_inv (the (tm_nvme small_tiers))" "nvme_value small_tiers = [[1] \<mapsto> [7]]"
    using nvme_value_some [of small_tiers] by (simp_all add: small_tiers_def)
  have "dram_value small_tiers = Map.empty" "cold_value mem_lib (\<lambda>s. s) small_tiers = Map.empty"
    by (rule ext; simp add: small_tiers_def dram_value_def cold_value_def contents_def resident_def DramTier_new_def)+
  with n show ?thesis using dram_inv_new by (simp add: tiers_ok_def small_tiers_def)
qed

theorem Fetch_coherent_witness:
  "\<exists>e gone s'. Fetch mem_lib e [1] small_tiers = Some ((FetchNvme, [7]), gone, s') \<and> tiers_ok mem_lib (\<lambda>s. s) [[1] \<mapsto> [7]] s'"
proof -
  let ?e = "\<lparr>te_reads = [RGot 1], te_writes = [], te_synced = True, te_put = calm_put, te_get = calm_get, te_unlinked = True\<rparr>"
  obtain r dr where l: "DramTier.Lookup [1] (tm_dram small_tiers) = (r, dr)" by fastforce
  have "contents (tm_dram small_tiers) [1] = None" by (simp add: small_tiers_def contents_def resident_def DramTier_new_def)
  then have r: "where_hit r \<notin> {kA1in, kAm}"
    using Lookup_spec [OF _ l] small_tiers_ok by (auto simp: tiers_ok_def)
  have g: "GetNvme ?e [1] (small_tiers\<lparr>tm_dram := dr\<rparr>) = Some (Some [7])"
    by (simp add: GetNvme_def small_tiers_def NvmeGet_def slot_range_def small_pool_def)
  obtain gone s' where "promote_dram True [1] [7] (small_tiers\<lparr>tm_dram := dr\<rparr>) = (gone, s')" by fastforce
  then have f: "Fetch mem_lib ?e [1] small_tiers = Some ((FetchNvme, [7]), gone, s')"
    using l r g by (simp add: Fetch_def small_tiers_def)
  show ?thesis using Fetch_coherent [OF small_tiers_ok mem_lib_ok f] f by blast
qed

end
