(* ===== verification/Spec2Isabelle.thy ===== *)
theory Spec2Isabelle
  imports SessionApi ArtWal StatePlane SqCq TierManager
begin

text \<open>
  A verification development of the agent state storage repository: the C++ storage node (sources under
  \<open>src/src/kvstore-node/src\<close> and \<open>src/src/core-abi/src\<close>) and the shared-memory ring of the agent (under
  \<open>src/src/kvagent/src\<close>).

  \<^bold>\<open>The program.\<close> A node keeps two kinds of data. The session API stores ordered items, records and blobs of
  agent sessions: \<open>AgentStateService\<close> checks the caller's certificate with \<open>MtlsRegistry\<close>, encodes keys and
  calls \<open>OrderedLogStore\<close>, a map with a write-ahead log, and \<open>BlobStore\<close>. The cache plane stores the values of
  token prefixes: \<open>HeadlessNode\<close> finds a prefix in \<open>ArtIndex\<close>, a radix tree whose nodes are reclaimed by
  \<open>EpochManager\<close> and made durable by \<open>ArtWal\<close> and \<open>ArtSnapshot\<close>; new values are written into slots of
  \<open>PinnedTier\<close> through \<open>MutableBufferPool\<close> and \<open>WatermarkTracker\<close>, sealed into \<open>DramTier\<close>, announced on
  \<open>EventStream\<close> and evicted under a value policy. Below DRAM, \<open>TierManager\<close> puts an NVMe tier and a cold tier. A
  state plane in the same node logs agent state in \<open>StateWal\<close>. Clients on the same host talk to the agent over
  the ring \<open>SqCq\<close>.

  \<^bold>\<open>The theories.\<close>
  \<^item> \<open>Prelude\<close>, \<open>StdString\<close>, \<open>StdMap\<close>, \<open>ByteCodec\<close>, \<open>PosixFile\<close>, \<open>MapStore\<close>, \<open>BoundedQueue\<close>: machine types, the
    used parts of \<open>std::string\<close> and \<open>std::map\<close>, the integer codecs and checksums, files with the kernel's answers,
    and the contracts below.
  \<^item> \<open>OrderedLogStore\<close> (\<open>session/ordered_log_store.cpp\<close>) and \<open>KvStore\<close>: records, replay, opening, appending,
    compaction, scans; atomicity of a batch, recovery of a log cut at any byte, exact pages.
  \<^item> \<open>BlobStore\<close> (\<open>session/blob_store.cpp\<close>), \<open>Mtls\<close> (\<open>security/mtls.cpp\<close>), \<open>AgentStateService\<close>
    (\<open>session/agent_state_service.cpp\<close>) and \<open>SessionApi\<close>: the handlers, the effect of each of them, paging to the
    end of a session, and isolation of tenants under any interleaving of requests.
  \<^item> \<open>Epoch\<close> (\<open>prefix/epoch.cpp\<close>), \<open>ArtIndex\<close> (\<open>prefix/art_index.cpp\<close>), \<open>Lpm\<close> (\<open>prefix/lpm.cpp\<close>), \<open>ArtSnapshot\<close>
    and \<open>ArtWal\<close> (\<open>prefix/art_snapshot.cpp\<close>, \<open>art_wal.cpp\<close>): reclamation as a step relation over one writer, one
    sweeper and any number of readers; the index as a map and as a longest-prefix search; namespaces; what a crash
    leaves to the next start.
  \<^item> \<open>DramTier\<close> (\<open>tier/dram_tier.cpp\<close> and the policies of \<open>core/common\<close>), \<open>Ingest\<close> (\<open>tier/pinned_tier.cpp\<close>,
    \<open>ingest/mutable_buffer.cpp\<close>, \<open>ingest/watermark.cpp\<close>, \<open>prefix/refcount.h\<close>), \<open>EventStream\<close>
    (\<open>prefix/kv_event_stream.cpp\<close>), \<open>StateWal\<close> (\<open>persist/state_wal.cpp\<close>): each component with its invariant.
  \<^item> \<open>HeadlessNode\<close> (\<open>core-abi/src/headless_node.cpp\<close>), \<open>NodeRuns\<close> and \<open>StatePlane\<close>: the node composed from these
    components, its reachable states as an inductive relation, and the properties of whole runs.
  \<^item> \<open>BoundaryGuard\<close> (\<open>security/boundary_guard.cpp\<close>, \<open>tier/guarded_transport.cpp\<close>), \<open>ColdTier\<close>
    (\<open>tier/cold_tier.cpp\<close>, \<open>rest_cold_tier.cpp\<close>, \<open>block_codec.cpp\<close> and the three decorators), \<open>NvmeTier\<close>
    (\<open>tier/nvme_tier.cpp\<close>), \<open>TierManager\<close> (\<open>tier/tier_manager.cpp\<close>): which requests may leave the node, the tiers
    below DRAM with every failure of their calls, and the fetch that searches and fills them.
  \<^item> \<open>SqCq\<close> (\<open>shmem_ring/sq_cq.cpp\<close>): \<open>try_push\<close> and \<open>try_pop\<close> as step machines that interleave freely.

  \<^bold>\<open>State and operations.\<close> A class is a record with a field per data member, a method a function that returns
  its result and the next state, a failure a value of a sum or option type. A method that holds its mutex from
  beginning to end is one step; where the code works outside the lock (\<open>EventStream\<close>, \<open>Epoch\<close>, the \<open>Put\<close> of
  \<open>NvmeTier\<close>, the ring) its parts are separate steps. Undefined behaviour is \<open>None\<close>.

  \<^bold>\<open>Contracts.\<close> \<open>framed_log\<close> is what the three append-only logs share; \<open>ordered_kv\<close> is what the session API needs
  of its store; \<open>map_store\<close> is what a log needs of the index it replays into; \<open>bounded_queue\<close> is a subscriber's
  ring; \<open>cold_store\<close> is the interface of a cold tier, interpreted for the file system and shown to be kept by the
  HTTP backend and by each decorator.

  \<^bold>\<open>Parameters.\<close> BLAKE3, zstd, OpenSSL, the HTTP transport, the answers of the kernel, the clock and the random
  numbers are arguments. What a property needs of them is a hypothesis, and its witness supplies functions that
  satisfy it.

  \<^bold>\<open>Bounds and fuel.\<close> Loops that wait for the kernel consume a list of its answers and are \<open>None\<close> when the list
  ends first; \<open>Apply_returns\<close>, \<open>nvme_refines_map\<close> and \<open>cold_put_get\<close> say which answers suffice. \<open>push_alone\<close> and
  \<open>pop_alone\<close> of the ring carry a number of steps, and \<open>one_slot_stuck\<close> holds for every number. Node handles are
  32-bit and the results on runs assume fewer than \<open>2 ^ 32 - 1\<close> live handles, as the code does. Cursors and
  sequence numbers of the ring and the epoch counter are taken to be unbounded, and atomic accesses to be
  sequentially consistent. Lengths passed to OpenSSL are cast to \<open>int\<close>, so the cold-tier results hold for values
  that \<open>cold_fits\<close>.

  \<^bold>\<open>Not modelled.\<close> The gRPC services, servers and clients, the etcd clients, the RocksDB store and its variant of
  sealing, the TCP, UCX and NIXL transports, the io_uring and SPDK backends: they are calls of third-party
  libraries or of generated code around the operations above. Request signing and the tensor codec (calendar and
  floating-point arithmetic). Quotas, the priority scheduler, membership, routing, roles and audit: plain code
  beside the storage path, left for later. Logging, metrics and tracing: nothing reads them back. The Go control
  plane, the Python and Rust adapters and the benchmarks are other programs. Within the modelled files, error
  texts are left out and destructors appear only where they change the state.
\<close>

end
